(* ===== verification/Cpr_Prelude.thy ===== *)
theory Cpr_Prelude
  imports Main "HOL-Library.Word" "HOL-Library.Monad_Syntax"
begin

text \<open>
  Shared vocabulary of the libcpr development: the machine types of the LP64
  target the library is built for (\<open>size_t\<close> as \<^typ>\<open>nat\<close> with its wrap-around
  written out, bytes as 8-bit words), the C-locale character classes that
  \<^verbatim>\<open>strchar.c\<close>, \<^verbatim>\<open>memory.c\<close> and \<^verbatim>\<open>keyfile.c\<close> take from \<^verbatim>\<open><ctype.h>\<close>, and the generic
  facts on lists that the component proofs share.

  Undefined behaviour of C (a null or dangling dereference, an access outside an
  allocated object, a double free, a signed overflow) is \<^const>\<open>None\<close>; a theorem
  that a call returns \<open>Some\<close> therefore also says that the call is memory safe.
\<close>

unbundle bit_operations_syntax

named_theorems size_simps \<open>size_t arithmetic inside its range\<close>
named_theorems mem_simps \<open>loads, stores and allocation\<close>
named_theorems cpr_defs \<open>unfolding rules of the non-recursive operations\<close>

subsection \<open>Machine integers\<close>

type_synonym byte = "8 word"
type_synonym size_t = nat

definition sz_add :: "size_t \<Rightarrow> size_t \<Rightarrow> size_t" where
  "sz_add a b = (a + b) mod 2 ^ 64"

definition sz_sub :: "size_t \<Rightarrow> size_t \<Rightarrow> size_t" where
  "sz_sub a b = (a + (2 ^ 64 - b mod 2 ^ 64)) mod 2 ^ 64"

definition sz_mul :: "size_t \<Rightarrow> size_t \<Rightarrow> size_t" where
  "sz_mul a b = (a * b) mod 2 ^ 64"

lemma sz_add_in_range [size_simps]: "a + b < 2 ^ 64 \<Longrightarrow> sz_add a b = a + b"
  by (simp add: sz_add_def)

lemma sz_mul_in_range [size_simps]: "a * b < 2 ^ 64 \<Longrightarrow> sz_mul a b = a * b"
  by (simp add: sz_mul_def)

lemma sz_sub_in_range [size_simps]:
  assumes "b \<le> a" and "a < 2 ^ 64"
  shows "sz_sub a b = a - b"
proof -
  from assms have "a + (2 ^ 64 - b mod 2 ^ 64) = (a - b) + 2 ^ 64" by simp
  then have "sz_sub a b = (a - b + 2 ^ 64) mod 2 ^ 64" by (simp only: sz_sub_def)
  with assms show ?thesis by (simp only: mod_add_self2) simp
qed

lemma sz_add_bound: "sz_add a b < 2 ^ 64"
  by (simp add: sz_add_def)

lemma sz_sub_bound: "sz_sub a b < 2 ^ 64"
  by (simp add: sz_sub_def)

lemma sz_sub_zero_one: "sz_sub 0 1 = 2 ^ 64 - 1"
  by (simp add: sz_sub_def)

subsection \<open>Characters of the C locale\<close>

definition char_byte :: "char \<Rightarrow> byte" where
  "char_byte c = of_nat (of_char c)"

definition str_bytes :: "string \<Rightarrow> byte list" where
  "str_bytes s = map char_byte s"

definition c_isupper :: "byte \<Rightarrow> bool" where
  "c_isupper c \<longleftrightarrow> 65 \<le> c \<and> c \<le> 90"

definition c_islower :: "byte \<Rightarrow> bool" where
  "c_islower c \<longleftrightarrow> 97 \<le> c \<and> c \<le> 122"

definition c_isdigit :: "byte \<Rightarrow> bool" where
  "c_isdigit c \<longleftrightarrow> 48 \<le> c \<and> c \<le> 57"

definition c_isalnum :: "byte \<Rightarrow> bool" where
  "c_isalnum c \<longleftrightarrow> c_isupper c \<or> c_islower c \<or> c_isdigit c"

definition c_isspace :: "byte \<Rightarrow> bool" where
  "c_isspace c \<longleftrightarrow> c = 32 \<or> (9 \<le> c \<and> c \<le> 13)"

definition c_tolower :: "byte \<Rightarrow> byte" where
  "c_tolower c = (if c_isupper c then c + 32 else c)"

definition c_toupper :: "byte \<Rightarrow> byte" where
  "c_toupper c = (if c_islower c then c - 32 else c)"

lemma unat_c_tolower: "unat (c_tolower c) = (if c_isupper c then unat c + 32 else unat c)"
  by (simp add: c_tolower_def c_isupper_def word_le_nat_alt unat_word_ariths)

lemma unat_c_toupper: "unat (c_toupper c) = (if c_islower c then unat c - 32 else unat c)"
  by (auto simp: c_toupper_def c_islower_def word_le_nat_alt unat_sub)

lemma c_tolower_nonzero: "c \<noteq> 0 \<Longrightarrow> c_tolower c \<noteq> c_tolower 0"
  by (auto simp: word_unat_eq_iff unat_c_tolower split: if_splits)
    (auto simp: c_isupper_def)

subsection \<open>Loops that need not end\<close>

text \<open>The answer of a loop that was given a bound on its rounds: still running, or its result.\<close>

datatype 'a progress = Running | Done 'a

subsection \<open>Lists\<close>

lemma nth_middle [simp]: "(xs @ y # ys) ! length xs = y"
  by (rule nth_append_length)

lemma take_while_nonzero:
  "0 \<notin> set s \<Longrightarrow> takeWhile (\<lambda>c. c \<noteq> 0) (s @ 0 # t) = s"
  by (induction s) auto

lemma split_run: "xs = take i xs @ take n (drop i xs) @ drop (i + n) xs"
  by (metis append_take_drop_id drop_drop add.commute)

subsection \<open>Bits of words\<close>

lemma and_pred_less: "0 < n \<Longrightarrow> n AND (n - 1) < (n :: 'a::len word)"
proof -
  assume n: "0 < n"
  have "n AND (n - 1) \<le> n - 1" by (rule word_and_le1)
  also have "n - 1 < n" using n by (simp add: word_less_nat_alt unat_sub word_le_nat_alt)
  finally show ?thesis .
qed

lemma clear_lowest_bit_nat:
  "0 < n \<Longrightarrow> \<exists>k. bit n k \<and> (\<forall>i. bit (n AND (n - 1)) i \<longleftrightarrow> bit n i \<and> i \<noteq> k)" for n :: nat
proof (induction n rule: less_induct)
  case (less n)
  show ?case
  proof (cases "odd n")
    case True
    then have "(n - 1) div 2 = n div 2" by presburger
    with True have "bit (n AND (n - 1)) i \<longleftrightarrow> bit n i \<and> i \<noteq> 0" for i
      unfolding bit_and_iff by (cases i) (auto simp: bit_Suc bit_0)
    with True show ?thesis by (intro exI [of _ 0]) (simp add: bit_0)
  next
    case False
    then obtain m where m: "n = 2 * m" "0 < m" "m < n" using less.prems by auto
    then obtain k where k: "bit m k" "\<And>i. bit (m AND (m - 1)) i \<longleftrightarrow> bit m i \<and> i \<noteq> k"
      using less.IH by blast
    have "(2 * m - 1) div 2 = m - 1" by presburger
    then have "bit (n AND (n - 1)) i \<longleftrightarrow> bit n i \<and> i \<noteq> Suc k" for i
      using m(1) k(2) unfolding bit_and_iff by (cases i) (auto simp: bit_Suc bit_0)
    with k(1) m(1) show ?thesis by (intro exI [of _ "Suc k"]) (simp add: bit_Suc)
  qed
qed

lemma clear_lowest_bit:
  assumes "0 < (n :: 'w::len word)"
  shows "\<exists>k. bit n k \<and> (\<forall>i. bit (n AND (n - 1)) i \<longleftrightarrow> bit n i \<and> i \<noteq> k)"
proof -
  have "0 < unat n" and eq: "unat (n - 1) = unat n - 1"
    using assms by (simp_all add: word_less_nat_alt unat_sub word_le_nat_alt)
  moreover have "bit (unat n - 1) i \<longleftrightarrow> bit (n - 1) i" for i
    unfolding eq [symmetric] by (simp add: bit_unsigned_iff)
  ultimately show ?thesis
    using clear_lowest_bit_nat [of "unat n"] by (simp add: bit_and_iff bit_unsigned_iff)
qed

lemma finite_bits: "finite {i. bit (n :: 'w::len word) i}"
  by (rule finite_subset [of _ "{..<LENGTH('w)}"]) (auto dest: bit_imp_le_length)

subsection \<open>Objects driven by sequences of calls\<close>

text \<open>
  A component as its clients see it: calls \<open>op\<close> that change a state, an invariant, and
  what a call may assume. The laws are that a permitted call is defined and keeps the
  invariant, and that it does not take away what another call may assume; then every
  sequence of permitted calls is defined.
\<close>

primrec run_ops :: "('op \<Rightarrow> 's \<Rightarrow> 's option) \<Rightarrow> 'op list \<Rightarrow> 's \<Rightarrow> 's option" where
  "run_ops step [] s = Some s"
| "run_ops step (x # xs) s = do { s \<leftarrow> step x s; run_ops step xs s }"

locale safe_object =
  fixes step :: "'op \<Rightarrow> 's \<Rightarrow> 's option"
    and inv :: "'s \<Rightarrow> bool"
    and permitted :: "'op \<Rightarrow> 's \<Rightarrow> bool"
  assumes step_safe: "inv s \<Longrightarrow> permitted x s \<Longrightarrow> \<exists>s'. step x s = Some s' \<and> inv s'"
    and permitted_stable: "inv s \<Longrightarrow> permitted x s \<Longrightarrow> permitted y s \<Longrightarrow> step x s = Some s' \<Longrightarrow> permitted y s'"
begin

lemma run_safe:
  "inv s \<Longrightarrow> \<forall>x \<in> set xs. permitted x s \<Longrightarrow> \<exists>s'. run_ops step xs s = Some s' \<and> inv s'"
proof (induction xs arbitrary: s)
  case (Cons x xs)
  then obtain s' where s': "step x s = Some s'" "inv s'" using step_safe [of s x] by auto
  moreover have "\<forall>y \<in> set xs. permitted y s'"
    using Cons.prems s'(1) permitted_stable [of s x] by auto
  ultimately show ?case using Cons.IH [of s'] by simp
qed simp

end

text \<open>
  A component that implements an abstract one: every permitted call on a state that
  represents \<open>a\<close> is defined and leads to a state that represents the abstract call's result.
  Then every sequence of permitted calls does, and the component is a safe object.
\<close>

locale simulates =
  fixes step :: "'op \<Rightarrow> 's \<Rightarrow> 's option"
    and astep :: "'op \<Rightarrow> 'a \<Rightarrow> 'a"
    and rel :: "'s \<Rightarrow> 'a \<Rightarrow> bool"
    and permitted :: "'op \<Rightarrow> bool"
  assumes step_simulates: "rel s a \<Longrightarrow> permitted x \<Longrightarrow> \<exists>s'. step x s = Some s' \<and> rel s' (astep x a)"
begin

lemma run_simulates:
  "rel s a \<Longrightarrow> \<forall>x \<in> set xs. permitted x \<Longrightarrow> \<exists>s'. run_ops step xs s = Some s' \<and> rel s' (fold astep xs a)"
proof (induction xs arbitrary: s a)
  case (Cons x xs)
  then obtain s' where "step x s = Some s'" "rel s' (astep x a)" using step_simulates [of s a x] by auto
  then show ?case using Cons.IH [of s' "astep x a"] Cons.prems by auto
qed simp

end

sublocale simulates \<subseteq> object: safe_object step "\<lambda>s. \<exists>a. rel s a" "\<lambda>x s. permitted x"
proof
  show "\<exists>s'. step x s = Some s' \<and> (\<exists>a. rel s' a)" if "\<exists>a. rel s a" "permitted x" for s x
    using that step_simulates by blast
qed simp

end
