(* ===== verification/C_Memory.thy ===== *)
theory C_Memory
  imports Cpr_Prelude
begin

text \<open>
  The store the C sources run on. A pointer is null or an offset into an
  allocated block; the heap maps live blocks to their bytes. \<open>malloc\<close> draws on
  two oracles kept in the heap, one that says whether the n-th request is granted
  and one for the contents of fresh memory, so a theorem over an arbitrary heap
  holds for every allocator and never depends on uninitialised bytes.
  Every access outside a live block is \<^const>\<open>None\<close>.

  The second part models the routines of \<^verbatim>\<open><string.h>\<close> the sources call, as loops
  over the store. Terminating loops over a block are \<^theory_text>\<open>function\<close>s: an offset that
  leaves the block ends them.
\<close>

subsection \<open>Pointers\<close>

datatype ptr = Null | Ptr (ptr_block: nat) (ptr_off: nat)

primrec padd :: "ptr \<Rightarrow> nat \<Rightarrow> ptr" where
  "padd Null n = Null"
| "padd (Ptr b k) n = Ptr b (k + n)"

lemma padd_0 [simp]: "padd p 0 = p"
  by (cases p) auto

lemma padd_padd [simp]: "padd (padd p m) n = padd p (m + n)"
  by (cases p) auto

lemma padd_eq_Null [simp]: "padd p n = Null \<longleftrightarrow> p = Null"
  by (cases p) auto

text \<open>The relational operators of C on two pointers into the same block.\<close>

instantiation ptr :: linorder
begin

fun less_eq_ptr :: "ptr \<Rightarrow> ptr \<Rightarrow> bool" where
  "less_eq_ptr Null q = True"
| "less_eq_ptr (Ptr b k) Null = False"
| "less_eq_ptr (Ptr b k) (Ptr c l) = (b < c \<or> b = c \<and> k \<le> l)"

definition less_ptr :: "ptr \<Rightarrow> ptr \<Rightarrow> bool" where
  "less_ptr p q \<longleftrightarrow> p \<le> q \<and> \<not> q \<le> (p :: ptr)"

instance
proof
  fix p q r :: ptr
  show "p < q \<longleftrightarrow> p \<le> q \<and> \<not> q \<le> p" by (simp add: less_ptr_def)
  show "p \<le> p" by (cases p) auto
  show "p \<le> q \<Longrightarrow> q \<le> r \<Longrightarrow> p \<le> r" by (cases p; cases q; cases r) auto
  show "p \<le> q \<Longrightarrow> q \<le> p \<Longrightarrow> p = q" by (cases p; cases q) auto
  show "p \<le> q \<or> q \<le> p" by (cases p; cases q) auto
qed

end

lemma Ptr_less_same_block [simp]: "Ptr b k < Ptr b l \<longleftrightarrow> k < l"
  by (auto simp: less_ptr_def)

subsection \<open>The heap\<close>

record heap =
  hblk :: "nat \<Rightarrow> byte list option"
  hseq :: nat
  hgrant :: "nat \<Rightarrow> size_t \<Rightarrow> bool"
  hjunk :: "nat \<Rightarrow> nat \<Rightarrow> byte"

text \<open>Blocks are numbered by the \<open>malloc\<close> call that made them.\<close>

definition heap_ok :: "heap \<Rightarrow> bool" where
  "heap_ok h \<longleftrightarrow> (\<forall>b \<ge> hseq h. hblk h b = None)"

definition put_block :: "heap \<Rightarrow> nat \<Rightarrow> byte list \<Rightarrow> heap" where
  "put_block h b bs = h\<lparr>hblk := (hblk h)(b \<mapsto> bs)\<rparr>"

definition load :: "heap \<Rightarrow> ptr \<Rightarrow> byte option" where
  "load h p = (case p of Null \<Rightarrow> None | Ptr b k \<Rightarrow>
     (case hblk h b of None \<Rightarrow> None
      | Some bs \<Rightarrow> if k < length bs then Some (bs ! k) else None))"

definition store :: "heap \<Rightarrow> ptr \<Rightarrow> byte \<Rightarrow> heap option" where
  "store h p v = (case p of Null \<Rightarrow> None | Ptr b k \<Rightarrow>
     (case hblk h b of None \<Rightarrow> None
      | Some bs \<Rightarrow> if k < length bs then Some (put_block h b (bs[k := v])) else None))"

definition c_malloc :: "heap \<Rightarrow> size_t \<Rightarrow> ptr \<times> heap" where
  "c_malloc h n =
     (if hgrant h (hseq h) n
      then (Ptr (hseq h) 0,
            (put_block h (hseq h) (map (hjunk h (hseq h)) [0..<n]))\<lparr>hseq := Suc (hseq h)\<rparr>)
      else (Null, h\<lparr>hseq := Suc (hseq h)\<rparr>))"

definition c_free :: "heap \<Rightarrow> ptr \<Rightarrow> heap option" where
  "c_free h p = (case p of Null \<Rightarrow> Some h | Ptr b k \<Rightarrow>
     (if k = 0 \<and> hblk h b \<noteq> None then Some (h\<lparr>hblk := (hblk h)(b := None)\<rparr>) else None))"

text \<open>A heap that holds the given objects and grants every request, for concrete runs.\<close>

definition heap_of :: "byte list list \<Rightarrow> heap" where
  "heap_of bss = \<lparr>hblk = (\<lambda>b. if b < length bss then Some (bss ! b) else None),
     hseq = length bss, hgrant = (\<lambda>_ _. True), hjunk = (\<lambda>_ _. 0xAA)\<rparr>"

lemma hblk_heap_of [simp]:
  "hblk (heap_of bss) b = (if b < length bss then Some (bss ! b) else None)"
  by (simp add: heap_of_def)

lemma hseq_heap_of [simp]: "hseq (heap_of bss) = length bss"
  by (simp add: heap_of_def)

lemma hgrant_heap_of [simp]: "hgrant (heap_of bss) n k"
  by (simp add: heap_of_def)

lemma heap_ok_heap_of [simp]: "heap_ok (heap_of bss)"
  by (simp add: heap_of_def heap_ok_def)

lemma hblk_put_block [simp]: "hblk (put_block h b bs) = (hblk h)(b \<mapsto> bs)"
  by (simp add: put_block_def)

lemma hseq_put_block [simp]: "hseq (put_block h b bs) = hseq h"
  by (simp add: put_block_def)

lemma hgrant_put_block [simp]: "hgrant (put_block h b bs) = hgrant h"
  by (simp add: put_block_def)

lemma hjunk_put_block [simp]: "hjunk (put_block h b bs) = hjunk h"
  by (simp add: put_block_def)

lemma put_block_twice [simp]: "put_block (put_block h b bs) b cs = put_block h b cs"
  by (simp add: put_block_def)

lemma put_block_same [simp]: "hblk h b = Some bs \<Longrightarrow> put_block h b bs = h"
  by (simp add: put_block_def fun_upd_idem)

lemma heap_ok_put_block: "heap_ok h \<Longrightarrow> b < hseq h \<Longrightarrow> heap_ok (put_block h b bs)"
  by (auto simp: heap_ok_def)

lemma heap_ok_live: "heap_ok h \<Longrightarrow> hblk h b = Some bs \<Longrightarrow> b < hseq h"
  by (metis heap_ok_def not_less option.distinct(1))

lemma load_Ptr [mem_simps]:
  "hblk h b = Some bs \<Longrightarrow> load h (Ptr b k) = (if k < length bs then Some (bs ! k) else None)"
  by (simp add: load_def)

lemma store_Ptr [mem_simps]:
  "hblk h b = Some bs \<Longrightarrow>
   store h (Ptr b k) v = (if k < length bs then Some (put_block h b (bs[k := v])) else None)"
  by (simp add: store_def)

lemma load_Null [simp]: "load h Null = None"
  by (simp add: load_def)

lemma store_Null [simp]: "store h Null v = None"
  by (simp add: store_def)

lemma load_SomeE:
  assumes "load h p = Some v"
  obtains b k bs where "p = Ptr b k" "hblk h b = Some bs" "k < length bs" "v = bs ! k"
  using assms by (auto simp: load_def split: ptr.splits option.splits if_splits)

lemma store_SomeE:
  assumes "store h p v = Some h'"
  obtains b k bs where "p = Ptr b k" "hblk h b = Some bs" "k < length bs"
    "h' = put_block h b (bs[k := v])"
  using assms by (auto simp: store_def split: ptr.splits option.splits if_splits)

lemma load_store: "store h p v = Some h' \<Longrightarrow> load h' q = (if q = p then Some v else load h q)"
  by (elim store_SomeE) (cases q, auto simp: load_def)

lemma store_defined: "load h p \<noteq> None \<Longrightarrow> \<exists>h'. store h p v = Some h'"
  by (auto simp: load_def store_def split: ptr.splits option.splits if_splits)

lemma load_malloc_other:
  assumes "heap_ok h" and "c_malloc h n = (p, h')" and "load h q = Some v"
  shows "load h' q = Some v"
  using assms by (auto simp: c_malloc_def load_def heap_ok_def
      split: if_splits ptr.splits option.splits)

lemma heap_ok_malloc: "heap_ok h \<Longrightarrow> heap_ok (snd (c_malloc h n))"
  by (auto simp: heap_ok_def c_malloc_def)

lemma heap_ok_free: "heap_ok h \<Longrightarrow> c_free h p = Some h' \<Longrightarrow> heap_ok h'"
  by (auto simp: heap_ok_def c_free_def split: ptr.splits if_splits)

lemma heap_ok_store: "heap_ok h \<Longrightarrow> store h p v = Some h' \<Longrightarrow> heap_ok h'"
  by (elim store_SomeE) (auto intro: heap_ok_put_block heap_ok_live)

lemma c_malloc_granted:
  assumes "heap_ok h" and "hgrant h (hseq h) n"
  obtains h' junk where "c_malloc h n = (Ptr (hseq h) 0, h')" and "length junk = n"
    and "hblk h' = (hblk h)(hseq h \<mapsto> junk)" and "heap_ok h'"
    and "\<And>b bs. hblk h b = Some bs \<Longrightarrow> b \<noteq> hseq h"
proof (rule that [of "snd (c_malloc h n)" "map (hjunk h (hseq h)) [0..<n]"])
  show "heap_ok (snd (c_malloc h n))" by (rule heap_ok_malloc [OF assms(1)])
qed (use assms in \<open>auto simp: c_malloc_def dest: heap_ok_live\<close>)

lemma free_malloc:
  assumes "heap_ok h" and "c_malloc h n = (p, h')" and "p \<noteq> Null"
  shows "c_free h' p = Some (h\<lparr>hseq := Suc (hseq h)\<rparr>)"
  using assms by (auto simp: c_malloc_def c_free_def put_block_def heap_ok_def fun_upd_idem_iff
      split: if_splits)

subsection \<open>Runs of bytes\<close>

primrec load_list :: "heap \<Rightarrow> ptr \<Rightarrow> nat \<Rightarrow> byte list option" where
  "load_list h p 0 = Some []"
| "load_list h p (Suc n) = do { c \<leftarrow> load h p; cs \<leftarrow> load_list h (padd p 1) n; Some (c # cs) }"

primrec store_list :: "heap \<Rightarrow> ptr \<Rightarrow> byte list \<Rightarrow> heap option" where
  "store_list h p [] = Some h"
| "store_list h p (v # vs) = do { h \<leftarrow> store h p v; store_list h (padd p 1) vs }"

lemma load_list_block:
  "hblk h b = Some bs \<Longrightarrow> k + n \<le> length bs \<Longrightarrow>
   load_list h (Ptr b k) n = Some (take n (drop k bs))"
proof (induction n arbitrary: k)
  case (Suc n)
  then have "load_list h (Ptr b (k + 1)) n = Some (take n (drop (Suc k) bs))" by simp
  with Suc.prems show ?case by (simp add: mem_simps flip: Cons_nth_drop_Suc)
qed simp

lemma load_list_mid [mem_simps]:
  "hblk h b = Some (pre @ xs @ post) \<Longrightarrow> length pre = k \<Longrightarrow> length xs = n \<Longrightarrow>
   load_list h (Ptr b k) n = Some xs"
  by (subst load_list_block) auto

lemma store_list_mid [mem_simps]:
  "hblk h b = Some (pre @ old @ post) \<Longrightarrow> length pre = k \<Longrightarrow> length old = length vs \<Longrightarrow>
   store_list h (Ptr b k) vs = Some (put_block h b (pre @ vs @ post))"
proof (induction vs arbitrary: h pre old k)
  case (Cons v vs)
  then obtain x old' where old: "old = x # old'" and len: "length old' = length vs"
    by (cases old) auto
  let ?h = "put_block h b ((pre @ [v]) @ old' @ post)"
  from Cons.prems old have "store h (Ptr b k) v = Some ?h"
    by (auto simp: mem_simps)
  moreover have "store_list ?h (Ptr b (k + 1)) vs = Some (put_block ?h b ((pre @ [v]) @ vs @ post))"
    using Cons.prems len by (intro Cons.IH [where old = old']) auto
  ultimately show ?case by simp
qed simp

lemma load_list_length: "load_list h p n = Some cs \<Longrightarrow> length cs = n"
  by (induction n arbitrary: p cs) (auto split: bind_splits)

text \<open>
  \<^verbatim>\<open>memcpy\<close> on overlapping ranges is undefined behaviour, \<^verbatim>\<open>memmove\<close> is not.
\<close>

fun ranges_overlap :: "ptr \<Rightarrow> ptr \<Rightarrow> nat \<Rightarrow> bool" where
  "ranges_overlap (Ptr b k) (Ptr c l) n \<longleftrightarrow> b = c \<and> k < l + n \<and> l < k + n"
| "ranges_overlap p q n \<longleftrightarrow> False"

definition c_memmove :: "heap \<Rightarrow> ptr \<Rightarrow> ptr \<Rightarrow> size_t \<Rightarrow> heap option" where
  "c_memmove h d s n = do { cs \<leftarrow> load_list h s n; store_list h d cs }"

definition c_memcpy :: "heap \<Rightarrow> ptr \<Rightarrow> ptr \<Rightarrow> size_t \<Rightarrow> heap option" where
  "c_memcpy h d s n = (if ranges_overlap d s n then None else c_memmove h d s n)"

text \<open>The sources use \<^verbatim>\<open>memcmp\<close> for equality only.\<close>

definition c_memcmp_eq :: "heap \<Rightarrow> ptr \<Rightarrow> ptr \<Rightarrow> size_t \<Rightarrow> bool option" where
  "c_memcmp_eq h p q n = do { xs \<leftarrow> load_list h p n; ys \<leftarrow> load_list h q n; Some (xs = ys) }"

subsection \<open>Strings in the store\<close>

text \<open>\<open>cstr h p s\<close>: the NUL-terminated string at \<open>p\<close> is \<open>s\<close>.\<close>

primrec cstr :: "heap \<Rightarrow> ptr \<Rightarrow> byte list \<Rightarrow> bool" where
  "cstr h p [] \<longleftrightarrow> load h p = Some 0"
| "cstr h p (c # cs) \<longleftrightarrow> c \<noteq> 0 \<and> load h p = Some c \<and> cstr h (padd p 1) cs"

lemma cstr_nonzero: "cstr h p s \<Longrightarrow> 0 \<notin> set s"
  by (induction s arbitrary: p) auto

lemma cstr_not_Null: "cstr h p s \<Longrightarrow> p \<noteq> Null"
  by (cases s) auto

lemma cstr_unique: "cstr h p s \<Longrightarrow> cstr h p t \<Longrightarrow> s = t"
proof (induction s arbitrary: p t)
  case Nil
  then show ?case by (cases t) auto
next
  case (Cons c s)
  then show ?case by (cases t) auto
qed

lemma cstr_mid:
  "hblk h b = Some (pre @ s @ 0 # post) \<Longrightarrow> length pre = k \<Longrightarrow> 0 \<notin> set s \<Longrightarrow> cstr h (Ptr b k) s"
proof (induction s arbitrary: pre k)
  case Nil
  then show ?case by (auto simp: mem_simps)
next
  case (Cons c s)
  have "cstr h (Ptr b (Suc k)) s"
    using Cons.prems by (intro Cons.IH [of "pre @ [c]"]) auto
  with Cons.prems show ?case by (auto simp: mem_simps)
qed

lemma cstr_block:
  assumes "cstr h (Ptr b k) s"
  obtains pre post where "hblk h b = Some (pre @ s @ 0 # post)" and "length pre = k"
  using assms
proof (induction s arbitrary: k thesis)
  case Nil
  from Nil(2) obtain bs where b: "hblk h b = Some bs" "k < length bs" "bs ! k = 0"
    by (auto elim: load_SomeE)
  then have "bs = take k bs @ [] @ 0 # drop (Suc k) bs"
    by (metis append_Nil id_take_nth_drop)
  with b show ?case by (intro Nil(1) [of "take k bs" "drop (Suc k) bs"]) auto
next
  case (Cons c s)
  from Cons.prems(2) have c: "load h (Ptr b k) = Some c" and s: "cstr h (Ptr b (Suc k)) s"
    by auto
  from Cons.IH [OF _ s] obtain pre post
    where b: "hblk h b = Some (pre @ s @ 0 # post)" and pre: "length pre = Suc k" by blast
  then obtain pre' x where p': "pre = pre' @ [x]" and k: "length pre' = k"
    by (cases pre rule: rev_cases) auto
  with b c have "x = c" by (auto simp: mem_simps)
  with b p' k show ?case by (intro Cons.prems(1) [of pre' post]) auto
qed

lemma cstr_same_block:
  assumes "cstr h p s" and "hblk h' (ptr_block p) = hblk h (ptr_block p)"
  shows "cstr h' p s"
proof -
  obtain b k where p: "p = Ptr b k" using cstr_not_Null [OF assms(1)] by (cases p) auto
  with assms(1) obtain pre post where "hblk h b = Some (pre @ s @ 0 # post)" "length pre = k"
    by (auto elim: cstr_block)
  with assms p cstr_nonzero [OF assms(1)] show ?thesis by (auto intro: cstr_mid)
qed

definition block_rest :: "heap \<Rightarrow> ptr \<Rightarrow> nat" where
  "block_rest h p = (case p of Null \<Rightarrow> 0 | Ptr b k \<Rightarrow>
     (case hblk h b of None \<Rightarrow> 0 | Some bs \<Rightarrow> length bs - k))"

lemma block_rest_step: "load h p = Some c \<Longrightarrow> block_rest h (padd p (Suc 0)) < block_rest h p"
  by (elim load_SomeE) (auto simp: block_rest_def)

function c_strlen :: "heap \<Rightarrow> ptr \<Rightarrow> size_t option" where
  "c_strlen h p = (case load h p of None \<Rightarrow> None
     | Some c \<Rightarrow> if c = 0 then Some 0 else map_option Suc (c_strlen h (padd p 1)))"
  by pat_completeness auto
termination
  by (relation "measure (\<lambda>(h, p). block_rest h p)") (auto intro: block_rest_step)

function c_strchr :: "heap \<Rightarrow> ptr \<Rightarrow> byte \<Rightarrow> ptr option" where
  "c_strchr h p c = (case load h p of None \<Rightarrow> None
     | Some d \<Rightarrow> if d = c then Some p else if d = 0 then Some Null
                 else c_strchr h (padd p 1) c)"
  by pat_completeness auto
termination
  by (relation "measure (\<lambda>(h, p, c). block_rest h p)") (auto intro: block_rest_step)

text \<open>
  \<^verbatim>\<open>strcmp\<close> and \<^verbatim>\<open>strcasecmp\<close>: the difference of the first two bytes that differ
  after \<open>f\<close> (the identity, or \<open>tolower\<close>).
\<close>

function c_strcmp_by :: "(byte \<Rightarrow> byte) \<Rightarrow> heap \<Rightarrow> ptr \<Rightarrow> ptr \<Rightarrow> int option" where
  "c_strcmp_by f h p q = (case load h p of None \<Rightarrow> None | Some c \<Rightarrow>
     (case load h q of None \<Rightarrow> None | Some d \<Rightarrow>
        if f c \<noteq> f d then Some (uint (f c) - uint (f d))
        else if c = 0 then Some 0
        else c_strcmp_by f h (padd p 1) (padd q 1)))"
  by pat_completeness auto
termination
  by (relation "measure (\<lambda>(f, h, p, q). block_rest h p)") (auto intro: block_rest_step)

definition c_strcmp :: "heap \<Rightarrow> ptr \<Rightarrow> ptr \<Rightarrow> int option" where
  "c_strcmp = c_strcmp_by (\<lambda>c. c)"

definition c_strcasecmp :: "heap \<Rightarrow> ptr \<Rightarrow> ptr \<Rightarrow> int option" where
  "c_strcasecmp = c_strcmp_by c_tolower"

declare c_strlen.simps [simp del] c_strchr.simps [simp del] c_strcmp_by.simps [simp del]

lemma c_strlen_cstr: "cstr h p s \<Longrightarrow> c_strlen h p = Some (length s)"
  by (induction s arbitrary: p) (subst c_strlen.simps, simp)+

lemma c_strchr_cstr:
  "cstr h p s \<Longrightarrow> c \<noteq> 0 \<Longrightarrow> c_strchr h p c =
     Some (if c \<in> set s then padd p (length (takeWhile (\<lambda>d. d \<noteq> c) s)) else Null)"
  by (induction s arbitrary: p) (subst c_strchr.simps, simp)+

lemma c_strcmp_by_cstr:
  assumes "cstr h p s" and "cstr h q t" and f_zero_neq: "\<And>c. c \<noteq> 0 \<Longrightarrow> f c \<noteq> f 0"
  shows "\<exists>r. c_strcmp_by f h p q = Some r \<and> (r = 0 \<longleftrightarrow> map f s = map f t)"
  using assms(1,2)
proof (induction s arbitrary: p q t)
  case Nil
  then show ?case
    by (cases t; subst c_strcmp_by.simps) (auto dest: f_zero_neq simp flip: word_uint_eq_iff)
next
  case (Cons c s)
  show ?case
  proof (cases t)
    case Nil
    with Cons.prems show ?thesis by (subst c_strcmp_by.simps) (auto dest: f_zero_neq simp flip: word_uint_eq_iff)
  next
    case (Cons d t')
    with Cons.prems Cons.IH [of "padd p 1" "padd q 1" t'] show ?thesis
      by (subst c_strcmp_by.simps) (simp flip: word_uint_eq_iff)
  qed
qed

lemma c_strcmp_cstr:
  "cstr h p s \<Longrightarrow> cstr h q t \<Longrightarrow> \<exists>r. c_strcmp h p q = Some r \<and> (r = 0 \<longleftrightarrow> s = t)"
  using c_strcmp_by_cstr [of h p s q t "\<lambda>c. c"] by (simp add: c_strcmp_def)

lemma c_strcasecmp_cstr:
  "cstr h p s \<Longrightarrow> cstr h q t \<Longrightarrow>
   \<exists>r. c_strcasecmp h p q = Some r \<and> (r = 0 \<longleftrightarrow> map c_tolower s = map c_tolower t)"
  unfolding c_strcasecmp_def by (rule c_strcmp_by_cstr) (auto dest: c_tolower_nonzero)

subsection \<open>Formatted output\<close>

text \<open>
  \<^verbatim>\<open>vsnprintf\<close> with a format and arguments that expand to \<open>txt\<close>: at most \<open>n - 1\<close> characters
  and a terminator are stored and the full length is returned, or a negative number
  when the conversion fails or the length is not an \<^verbatim>\<open>int\<close>.
\<close>

definition c_vsnprintf :: "heap \<Rightarrow> ptr \<Rightarrow> size_t \<Rightarrow> byte list \<Rightarrow> bool \<Rightarrow> (int \<times> heap) option" where
  "c_vsnprintf h p n txt failed = do {
     h \<leftarrow> (if n = 0 then Some h else store_list h p (take (n - 1) txt @ [0]));
     Some (if failed \<or> length txt \<ge> 2 ^ 31 then - 1 else int (length txt), h) }"

end
