(* ===== verification/Endian.thy ===== *)
theory Endian
  imports C_Memory
begin

text \<open>
  \<^verbatim>\<open>src/endian.h\<close>: reading and writing 8, 16, 32 and 64 bit unsigned integers in
  big-endian and little-endian order at an address. The sixteen functions are
  translated byte access by byte access; what they promise is one contract, the
  locale \<open>byte_codec\<close>, interpreted for all eight pairs.
\<close>

subsection \<open>The functions of endian.h\<close>

definition be_get8 :: "heap \<Rightarrow> ptr \<Rightarrow> 8 word option" where
  "be_get8 h p = load h p"

definition be_get16 :: "heap \<Rightarrow> ptr \<Rightarrow> 16 word option" where
  "be_get16 h p = do {
     b0 \<leftarrow> load h p; b1 \<leftarrow> load h (padd p 1);
     Some (push_bit 8 (ucast b0) OR ucast b1) }"

definition be_get32 :: "heap \<Rightarrow> ptr \<Rightarrow> 32 word option" where
  "be_get32 h p = do {
     b0 \<leftarrow> load h p; b1 \<leftarrow> load h (padd p 1); b2 \<leftarrow> load h (padd p 2); b3 \<leftarrow> load h (padd p 3);
     Some (push_bit 24 (ucast b0) OR push_bit 16 (ucast b1) OR
           push_bit 8 (ucast b2) OR ucast b3) }"

definition be_get64 :: "heap \<Rightarrow> ptr \<Rightarrow> 64 word option" where
  "be_get64 h p = do {
     b0 \<leftarrow> load h p; b1 \<leftarrow> load h (padd p 1); b2 \<leftarrow> load h (padd p 2); b3 \<leftarrow> load h (padd p 3);
     b4 \<leftarrow> load h (padd p 4); b5 \<leftarrow> load h (padd p 5); b6 \<leftarrow> load h (padd p 6); b7 \<leftarrow> load h (padd p 7);
     Some (push_bit 56 (ucast b0) OR push_bit 48 (ucast b1) OR
           push_bit 40 (ucast b2) OR push_bit 32 (ucast b3) OR
           push_bit 24 (ucast b4) OR push_bit 16 (ucast b5) OR
           push_bit 8 (ucast b6) OR ucast b7) }"

definition le_get8 :: "heap \<Rightarrow> ptr \<Rightarrow> 8 word option" where
  "le_get8 h p = load h p"

definition le_get16 :: "heap \<Rightarrow> ptr \<Rightarrow> 16 word option" where
  "le_get16 h p = do {
     b1 \<leftarrow> load h (padd p 1); b0 \<leftarrow> load h p;
     Some (push_bit 8 (ucast b1) OR ucast b0) }"

definition le_get32 :: "heap \<Rightarrow> ptr \<Rightarrow> 32 word option" where
  "le_get32 h p = do {
     b3 \<leftarrow> load h (padd p 3); b2 \<leftarrow> load h (padd p 2); b1 \<leftarrow> load h (padd p 1); b0 \<leftarrow> load h p;
     Some (push_bit 24 (ucast b3) OR push_bit 16 (ucast b2) OR
           push_bit 8 (ucast b1) OR ucast b0) }"

definition le_get64 :: "heap \<Rightarrow> ptr \<Rightarrow> 64 word option" where
  "le_get64 h p = do {
     b7 \<leftarrow> load h (padd p 7); b6 \<leftarrow> load h (padd p 6); b5 \<leftarrow> load h (padd p 5); b4 \<leftarrow> load h (padd p 4);
     b3 \<leftarrow> load h (padd p 3); b2 \<leftarrow> load h (padd p 2); b1 \<leftarrow> load h (padd p 1); b0 \<leftarrow> load h p;
     Some (push_bit 56 (ucast b7) OR push_bit 48 (ucast b6) OR
           push_bit 40 (ucast b5) OR push_bit 32 (ucast b4) OR
           push_bit 24 (ucast b3) OR push_bit 16 (ucast b2) OR
           push_bit 8 (ucast b1) OR ucast b0) }"

definition be_set8 :: "heap \<Rightarrow> ptr \<Rightarrow> 8 word \<Rightarrow> heap option" where
  "be_set8 h p v = store h p v"

definition be_set16 :: "heap \<Rightarrow> ptr \<Rightarrow> 16 word \<Rightarrow> heap option" where
  "be_set16 h p v = do {
     h \<leftarrow> store h p (ucast (drop_bit 8 (v AND 0xff00)));
     store h (padd p 1) (ucast (v AND 0xff)) }"

definition be_set32 :: "heap \<Rightarrow> ptr \<Rightarrow> 32 word \<Rightarrow> heap option" where
  "be_set32 h p v = do {
     h \<leftarrow> store h p (ucast (drop_bit 24 (v AND 0xff000000)));
     h \<leftarrow> store h (padd p 1) (ucast (drop_bit 16 (v AND 0x00ff0000)));
     h \<leftarrow> store h (padd p 2) (ucast (drop_bit 8 (v AND 0x0000ff00)));
     store h (padd p 3) (ucast (v AND 0xff)) }"

definition be_set64 :: "heap \<Rightarrow> ptr \<Rightarrow> 64 word \<Rightarrow> heap option" where
  "be_set64 h p v = do {
     h \<leftarrow> store h p (ucast (drop_bit 56 (v AND 0xff00000000000000)));
     h \<leftarrow> store h (padd p 1) (ucast (drop_bit 48 (v AND 0x00ff000000000000)));
     h \<leftarrow> store h (padd p 2) (ucast (drop_bit 40 (v AND 0x0000ff0000000000)));
     h \<leftarrow> store h (padd p 3) (ucast (drop_bit 32 (v AND 0x000000ff00000000)));
     h \<leftarrow> store h (padd p 4) (ucast (drop_bit 24 (v AND 0x00000000ff000000)));
     h \<leftarrow> store h (padd p 5) (ucast (drop_bit 16 (v AND 0x0000000000ff0000)));
     h \<leftarrow> store h (padd p 6) (ucast (drop_bit 8 (v AND 0x000000000000ff00)));
     store h (padd p 7) (ucast (v AND 0xff)) }"

definition le_set8 :: "heap \<Rightarrow> ptr \<Rightarrow> 8 word \<Rightarrow> heap option" where
  "le_set8 h p v = store h p v"

definition le_set16 :: "heap \<Rightarrow> ptr \<Rightarrow> 16 word \<Rightarrow> heap option" where
  "le_set16 h p v = do {
     h \<leftarrow> store h (padd p 1) (ucast (drop_bit 8 (v AND 0xff00)));
     store h p (ucast (v AND 0xff)) }"

definition le_set32 :: "heap \<Rightarrow> ptr \<Rightarrow> 32 word \<Rightarrow> heap option" where
  "le_set32 h p v = do {
     h \<leftarrow> store h (padd p 3) (ucast (drop_bit 24 (v AND 0xff000000)));
     h \<leftarrow> store h (padd p 2) (ucast (drop_bit 16 (v AND 0x00ff0000)));
     h \<leftarrow> store h (padd p 1) (ucast (drop_bit 8 (v AND 0x0000ff00)));
     store h p (ucast (v AND 0xff)) }"

definition le_set64 :: "heap \<Rightarrow> ptr \<Rightarrow> 64 word \<Rightarrow> heap option" where
  "le_set64 h p v = do {
     h \<leftarrow> store h (padd p 7) (ucast (drop_bit 56 (v AND 0xff00000000000000)));
     h \<leftarrow> store h (padd p 6) (ucast (drop_bit 48 (v AND 0x00ff000000000000)));
     h \<leftarrow> store h (padd p 5) (ucast (drop_bit 40 (v AND 0x0000ff0000000000)));
     h \<leftarrow> store h (padd p 4) (ucast (drop_bit 32 (v AND 0x000000ff00000000)));
     h \<leftarrow> store h (padd p 3) (ucast (drop_bit 24 (v AND 0x00000000ff000000)));
     h \<leftarrow> store h (padd p 2) (ucast (drop_bit 16 (v AND 0x0000000000ff0000)));
     h \<leftarrow> store h (padd p 1) (ucast (drop_bit 8 (v AND 0x000000000000ff00)));
     store h p (ucast (v AND 0xff)) }"

subsection \<open>Wire formats\<close>

text \<open>The i-th byte of the little-endian format is the i-th base-256 digit.\<close>

definition le_bytes :: "'w::len word \<Rightarrow> byte list" where
  "le_bytes v = map (\<lambda>i. ucast (drop_bit (8 * i) v)) [0..<LENGTH('w) div 8]"

definition be_bytes :: "'w::len word \<Rightarrow> byte list" where
  "be_bytes v = rev (le_bytes v)"

lemma mask_byte: "(255 :: 'a::len word) = mask 8"
  by (simp add: mask_eq_exp_minus_1)

lemma low_byte: "ucast (v AND 0xff) = (ucast v :: 8 word)" for v :: "'a::len word"
  by (rule bit_word_eqI) (auto simp: bit_simps mask_byte dest: bit_imp_le_length)

lemma byte_high_bit: "8 \<le> n \<Longrightarrow> \<not> bit (b :: 8 word) n"
  by (auto dest: bit_imp_le_length)

lemma bit_le_bytes:
  assumes "8 dvd LENGTH('w)" and "n < LENGTH('w)"
  shows "bit (le_bytes (v :: 'w::len word) ! (n div 8)) (n mod 8) = bit v n"
proof -
  have "n div 8 < LENGTH('w) div 8" using assms by (auto simp: less_mult_imp_div_less dvd_def)
  moreover have "8 * (n div 8) + n mod 8 = n" by simp
  ultimately show ?thesis using assms by (simp add: le_bytes_def bit_simps)
qed

lemma le_bytes_inj:
  assumes "8 dvd LENGTH('w)" and "le_bytes (v :: 'w::len word) = le_bytes w"
  shows "v = w"
  by (rule bit_word_eqI) (metis assms bit_le_bytes)

lemma length_le_bytes [simp]: "length (le_bytes (v :: 'w::len word)) = LENGTH('w) div 8"
  by (simp add: le_bytes_def)

lemma le_bytes_8: "le_bytes (v :: 8 word) = [v]"
  by (simp add: le_bytes_def)

lemma le_bytes_16: "le_bytes (v :: 16 word) = [ucast v, ucast (drop_bit 8 v)]"
  by (simp add: le_bytes_def upt_rec)

lemma le_bytes_32: "le_bytes (v :: 32 word) =
   [ucast v, ucast (drop_bit 8 v), ucast (drop_bit 16 v), ucast (drop_bit 24 v)]"
  by (simp add: le_bytes_def upt_rec)

lemma le_bytes_64: "le_bytes (v :: 64 word) =
   [ucast v, ucast (drop_bit 8 v), ucast (drop_bit 16 v), ucast (drop_bit 24 v),
    ucast (drop_bit 32 v), ucast (drop_bit 40 v), ucast (drop_bit 48 v), ucast (drop_bit 56 v)]"
  by (simp add: le_bytes_def upt_rec)

lemma le_bytes_or16:
  "le_bytes (push_bit 8 (ucast b0) OR ucast b1 :: 16 word) = [b1, b0 :: 8 word]"
  unfolding le_bytes_16
  by (auto intro!: bit_word_eqI simp: bit_simps byte_high_bit)

lemma le_bytes_or32: "le_bytes (push_bit 24 (ucast b0) OR push_bit 16 (ucast b1) OR
           push_bit 8 (ucast b2) OR ucast b3 :: 32 word) = [b3, b2, b1, b0 :: 8 word]"
  unfolding le_bytes_32
  by (auto intro!: bit_word_eqI simp: bit_simps byte_high_bit)

lemma le_bytes_or64: "le_bytes (push_bit 56 (ucast b0) OR push_bit 48 (ucast b1) OR
           push_bit 40 (ucast b2) OR push_bit 32 (ucast b3) OR
           push_bit 24 (ucast b4) OR push_bit 16 (ucast b5) OR
           push_bit 8 (ucast b6) OR ucast b7 :: 64 word) = [b7, b6, b5, b4, b3, b2, b1, b0 :: 8 word]"
  unfolding le_bytes_64
  by (auto intro!: bit_word_eqI simp: bit_simps byte_high_bit)
lemma le_bytes_onto8: "length bs = 1 \<Longrightarrow> \<exists>v :: 8 word. le_bytes v = bs"
  by (auto simp: le_bytes_8 length_Suc_conv)

lemma le_bytes_onto16: "length bs = 2 \<Longrightarrow> \<exists>v :: 16 word. le_bytes v = bs"
  using le_bytes_or16 by (fastforce simp: length_Suc_conv eval_nat_numeral)

lemma le_bytes_onto32: "length bs = 4 \<Longrightarrow> \<exists>v :: 32 word. le_bytes v = bs"
  using le_bytes_or32 by (fastforce simp: length_Suc_conv numeral_eq_Suc)

lemma le_bytes_onto64: "length bs = 8 \<Longrightarrow> \<exists>v :: 64 word. le_bytes v = bs"
  using le_bytes_or64 by (fastforce simp: length_Suc_conv numeral_eq_Suc)

lemmas le_bytes_eqs = le_bytes_8 le_bytes_16 le_bytes_32 le_bytes_64

subsection \<open>The contract of a codec\<close>

text \<open>
  A reader and a writer of \<open>'w\<close>-bit words at an address, against a wire format
  \<open>enc\<close> that is a bijection onto byte strings of the right length.
\<close>

locale byte_codec =
  fixes getw :: "heap \<Rightarrow> ptr \<Rightarrow> 'w::len word option"
    and setw :: "heap \<Rightarrow> ptr \<Rightarrow> 'w word \<Rightarrow> heap option"
    and enc :: "'w word \<Rightarrow> byte list"
  assumes enc_length: "length (enc v) = LENGTH('w) div 8"
    and enc_onto: "length bs = LENGTH('w) div 8 \<Longrightarrow> \<exists>v. enc v = bs"
    and setw_writes: "hblk h b = Some (pre @ old @ post) \<Longrightarrow> length old = LENGTH('w) div 8 \<Longrightarrow>
      setw h (Ptr b (length pre)) v = Some (put_block h b (pre @ enc v @ post))"
    and getw_reads: "hblk h b = Some (pre @ enc v @ post) \<Longrightarrow>
      getw h (Ptr b (length pre)) = Some v"
begin

lemma block_split:
  assumes "hblk h b = Some bs" and "k + LENGTH('w) div 8 \<le> length bs"
  obtains pre v post where "bs = pre @ enc v @ post" and "length pre = k"
proof -
  let ?n = "LENGTH('w) div 8"
  have "length (take ?n (drop k bs)) = ?n" using assms by simp
  then obtain v where "enc v = take ?n (drop k bs)" using enc_onto by blast
  then have "bs = take k bs @ enc v @ drop (k + ?n) bs"
    by (metis append_take_drop_id drop_drop add.commute)
  moreover have "length (take k bs) = k" using assms by simp
  ultimately show ?thesis using that by blast
qed

lemma get_after_set:
  assumes "hblk h b = Some bs" and "k + LENGTH('w) div 8 \<le> length bs"
  shows "\<exists>h'. setw h (Ptr b k) v = Some h' \<and> getw h' (Ptr b k) = Some v \<and>
    h' = put_block h b (take k bs @ enc v @ drop (k + LENGTH('w) div 8) bs)"
proof -
  obtain pre u post where bs: "bs = pre @ enc u @ post" and k: "length pre = k"
    using block_split [OF assms] .
  let ?h = "put_block h b (pre @ enc v @ post)"
  have "setw h (Ptr b k) v = Some ?h"
    using setw_writes [of h b pre "enc u" post v] assms(1) bs k enc_length by simp
  moreover have "getw ?h (Ptr b k) = Some v"
    using getw_reads [of ?h b pre v post] k by simp
  ultimately show ?thesis using bs k enc_length by simp
qed

lemma set_after_get:
  assumes "hblk h b = Some bs" and "k + LENGTH('w) div 8 \<le> length bs"
  shows "\<exists>v. getw h (Ptr b k) = Some v \<and> setw h (Ptr b k) v = Some h"
proof -
  obtain pre u post where bs: "bs = pre @ enc u @ post" and k: "length pre = k"
    using block_split [OF assms] .
  with assms(1) show ?thesis
    using getw_reads [of h b pre u post] setw_writes [of h b pre "enc u" post u] enc_length
    by simp
qed

lemma set_keeps_other_field:
  assumes "hblk h b = Some (pre @ enc u @ post)" and "setw h (Ptr b k) v = Some h'"
    and "k + LENGTH('w) div 8 \<le> length pre"
  shows "getw h' (Ptr b (length pre)) = Some u"
proof -
  let ?n = "LENGTH('w) div 8"
  let ?pre = "take k pre @ enc v @ drop (k + ?n) pre"
  have "h' = put_block h b (take k (pre @ enc u @ post) @ enc v @ drop (k + ?n) (pre @ enc u @ post))"
    using get_after_set [OF assms(1), of k v] assms(2,3) by auto
  also have "\<dots> = put_block h b (?pre @ enc u @ post)"
    using assms(3) by simp
  finally have h': "h' = put_block h b (?pre @ enc u @ post)" .
  have "length ?pre = length pre" using assms(3) enc_length by simp
  then show ?thesis using getw_reads [of h' b ?pre u post] by (simp add: h')
qed

end

subsection \<open>The eight codecs satisfy the contract\<close>

lemma length_2_conv: "length xs = 2 \<longleftrightarrow> (\<exists>a b. xs = [a, b])"
  by (auto simp: length_Suc_conv numeral_eq_Suc)

lemma length_4_conv: "length xs = 4 \<longleftrightarrow> (\<exists>a b c d. xs = [a, b, c, d])"
  by (auto simp: length_Suc_conv numeral_eq_Suc)

lemma length_8_conv: "length xs = 8 \<longleftrightarrow> (\<exists>a b c d e f g i. xs = [a, b, c, d, e, f, g, i])"
  by (auto simp: length_Suc_conv numeral_eq_Suc)

lemma join16:
  "push_bit 8 (ucast (ucast (drop_bit 8 v) :: byte)) OR ucast (ucast v :: byte) = (v :: 16 word)"
  by (rule le_bytes_inj) (simp_all add: le_bytes_or16, simp add: le_bytes_16)

lemma join32:
  "push_bit 24 (ucast (ucast (drop_bit 24 v) :: byte)) OR push_bit 16 (ucast (ucast (drop_bit 16 v) :: byte)) OR
   push_bit 8 (ucast (ucast (drop_bit 8 v) :: byte)) OR ucast (ucast v :: byte) = (v :: 32 word)"
  by (rule le_bytes_inj) (simp_all add: le_bytes_or32, simp add: le_bytes_32)

lemma join64:
  "push_bit 56 (ucast (ucast (drop_bit 56 v) :: byte)) OR push_bit 48 (ucast (ucast (drop_bit 48 v) :: byte)) OR
   push_bit 40 (ucast (ucast (drop_bit 40 v) :: byte)) OR push_bit 32 (ucast (ucast (drop_bit 32 v) :: byte)) OR
   push_bit 24 (ucast (ucast (drop_bit 24 v) :: byte)) OR push_bit 16 (ucast (ucast (drop_bit 16 v) :: byte)) OR
   push_bit 8 (ucast (ucast (drop_bit 8 v) :: byte)) OR ucast (ucast v :: byte) = (v :: 64 word)"
  by (rule le_bytes_inj) (simp_all add: le_bytes_or64, simp add: le_bytes_64)

lemma be_bytes_onto: "\<exists>v :: 'w::len word. le_bytes v = rev bs \<Longrightarrow> \<exists>v :: 'w word. be_bytes v = bs"
  by (auto simp: be_bytes_def rev_swap)

lemmas endian_defs =
  be_get8_def be_get16_def be_get32_def be_get64_def le_get8_def le_get16_def le_get32_def le_get64_def
  be_set8_def be_set16_def be_set32_def be_set64_def le_set8_def le_set16_def le_set32_def le_set64_def

lemma list_update_plus: "(xs @ ys)[length xs + i := v] = xs @ ys[i := v]"
  by (simp add: list_update_append)

lemma list_update_numeral: "(x # xs)[numeral n := v] = x # xs[pred_numeral n := v]"
  by (simp add: numeral_eq_Suc)

lemmas endian_simps =
  endian_defs be_bytes_def le_bytes_eqs low_byte mem_simps list_update_plus list_update_numeral
  list_update_plus [of _ _ "Suc 0", simplified] nth_append_length_plus [of _ _ "Suc 0", simplified]
  list_update_plus [of _ _ "2", simplified] nth_append_length_plus [of _ _ "2", simplified]

interpretation be8: byte_codec be_get8 be_set8 be_bytes
proof
  fix bs :: "byte list" assume "length bs = LENGTH(8) div 8"
  then show "\<exists>v :: 8 word. be_bytes v = bs" by (intro be_bytes_onto le_bytes_onto8) simp
qed (auto simp: endian_simps length_Suc_conv)

interpretation be16: byte_codec be_get16 be_set16 be_bytes
proof
  fix bs :: "byte list" assume "length bs = LENGTH(16) div 8"
  then show "\<exists>v :: 16 word. be_bytes v = bs" by (intro be_bytes_onto le_bytes_onto16) simp
qed (auto simp: endian_simps length_2_conv join16)

interpretation be32: byte_codec be_get32 be_set32 be_bytes
proof
  fix bs :: "byte list" assume "length bs = LENGTH(32) div 8"
  then show "\<exists>v :: 32 word. be_bytes v = bs" by (intro be_bytes_onto le_bytes_onto32) simp
qed (auto simp: endian_simps length_4_conv join32)

interpretation be64: byte_codec be_get64 be_set64 be_bytes
proof
  fix bs :: "byte list" assume "length bs = LENGTH(64) div 8"
  then show "\<exists>v :: 64 word. be_bytes v = bs" by (intro be_bytes_onto le_bytes_onto64) simp
qed (auto simp: endian_simps length_8_conv join64)

interpretation le8: byte_codec le_get8 le_set8 le_bytes
proof
  fix bs :: "byte list" assume "length bs = LENGTH(8) div 8"
  then show "\<exists>v :: 8 word. le_bytes v = bs" by (intro le_bytes_onto8) simp
qed (auto simp: endian_simps length_Suc_conv)

interpretation le16: byte_codec le_get16 le_set16 le_bytes
proof
  fix bs :: "byte list" assume "length bs = LENGTH(16) div 8"
  then show "\<exists>v :: 16 word. le_bytes v = bs" by (intro le_bytes_onto16) simp
qed (auto simp: endian_simps length_2_conv join16)

interpretation le32: byte_codec le_get32 le_set32 le_bytes
proof
  fix bs :: "byte list" assume "length bs = LENGTH(32) div 8"
  then show "\<exists>v :: 32 word. le_bytes v = bs" by (intro le_bytes_onto32) simp
qed (auto simp: endian_simps length_4_conv join32)

interpretation le64: byte_codec le_get64 le_set64 le_bytes
proof
  fix bs :: "byte list" assume "length bs = LENGTH(64) div 8"
  then show "\<exists>v :: 64 word. le_bytes v = bs" by (intro le_bytes_onto64) simp
qed (auto simp: endian_simps length_8_conv join64)

subsection \<open>Numeric value\<close>

lemma sum_below_8: "(\<Sum>i<8::nat. f i) = f 0 + f 1 + f 2 + f 3 + f 4 + f 5 + f 6 + (f 7 :: nat)"
  by (simp add: numeral_eq_Suc)

lemma sum_base_digits: "(\<Sum>i<k. n div 256 ^ i mod 256 * 256 ^ i) = n mod (256 :: nat) ^ k"
proof (induction k)
  case (Suc k)
  have "n mod 256 ^ Suc k = 256 ^ k * (n div 256 ^ k mod 256) + n mod 256 ^ k"
    by (simp add: mult.commute [of 256] mod_mult2_eq)
  with Suc show ?case by simp
qed simp

lemma unat_le_bytes_nth:
  "i < LENGTH('w) div 8 \<Longrightarrow> unat (le_bytes (v :: 'w::len word) ! i) = unat v div 256 ^ i mod 256"
  by (simp add: le_bytes_def unat_drop_bit_eq drop_bit_eq_div [of _ "unat v"]
      unsigned_ucast_eq take_bit_eq_mod power_mult)

lemma le_bytes_value:
  assumes "8 dvd LENGTH('w)"
  shows "(\<Sum>i<LENGTH('w) div 8. unat (le_bytes (v :: 'w::len word) ! i) * 256 ^ i) = unat v"
proof -
  have "(256 :: nat) ^ (LENGTH('w) div 8) = 2 ^ LENGTH('w)"
    using assms power_mult [of "2 :: nat" 8 "LENGTH('w) div 8"] by simp
  then have "unat v < 256 ^ (LENGTH('w) div 8)" using unsigned_less [of v] by simp
  then show ?thesis by (simp add: unat_le_bytes_nth sum_base_digits)
qed

subsection \<open>Properties\<close>

text \<open>
  C28. Writing an 8, 16, 32 or 64 bit value in network (big-endian) order anywhere
  inside an allocated object and reading it back returns the value; the object
  then holds exactly the big-endian bytes of the value at that place and is
  unchanged elsewhere, as is every other object.
\<close>

theorem be_set_get_roundtrip:
  assumes "hblk h b = Some bs"
  shows "(k + 1 \<le> length bs \<longrightarrow> (\<exists>h'. be_set8 h (Ptr b k) u = Some h' \<and>
           be_get8 h' (Ptr b k) = Some u \<and>
           h' = put_block h b (take k bs @ be_bytes u @ drop (k + 1) bs))) \<and>
    (k + 2 \<le> length bs \<longrightarrow> (\<exists>h'. be_set16 h (Ptr b k) x = Some h' \<and>
           be_get16 h' (Ptr b k) = Some x \<and>
           h' = put_block h b (take k bs @ be_bytes x @ drop (k + 2) bs))) \<and>
    (k + 4 \<le> length bs \<longrightarrow> (\<exists>h'. be_set32 h (Ptr b k) y = Some h' \<and>
           be_get32 h' (Ptr b k) = Some y \<and>
           h' = put_block h b (take k bs @ be_bytes y @ drop (k + 4) bs))) \<and>
    (k + 8 \<le> length bs \<longrightarrow> (\<exists>h'. be_set64 h (Ptr b k) z = Some h' \<and>
           be_get64 h' (Ptr b k) = Some z \<and>
           h' = put_block h b (take k bs @ be_bytes z @ drop (k + 8) bs)))"
  using be8.get_after_set [OF assms, of k u] be16.get_after_set [OF assms, of k x] be32.get_after_set [OF assms, of k y]
    be64.get_after_set [OF assms, of k z] by simp

theorem be_set_get_roundtrip_witness:
  "(\<exists>h'. be_set32 (heap_of [[1, 2, 3, 4, 5, 6, 7, 8]]) (Ptr 0 3) 0xDEADBEEF = Some h' \<and>
     be_get32 h' (Ptr 0 3) = Some 0xDEADBEEF \<and>
     hblk h' 0 = Some [1, 2, 3, 0xDE, 0xAD, 0xBE, 0xEF, 8]) \<and>
   (\<exists>h'. be_set8 (heap_of [[1, 2, 3, 4, 5, 6, 7, 8]]) (Ptr 0 3) 0xAB = Some h' \<and>
     be_get8 h' (Ptr 0 3) = Some 0xAB \<and> hblk h' 0 = Some [1, 2, 3, 0xAB, 5, 6, 7, 8])"
  using be_set_get_roundtrip [of "heap_of [[1, 2, 3, 4, 5, 6, 7, 8]]" 0 "[1, 2, 3, 4, 5, 6, 7, 8]" 3
      "0xAB" 0 "0xDEADBEEF" 0]
  by (auto simp: be_bytes_def le_bytes_8 le_bytes_32 unsigned_ucast_eq)

text \<open>
  The same round trip and the same frame for the little-endian functions.
\<close>

theorem le_set_get_roundtrip:
  assumes "hblk h b = Some bs"
  shows "(k + 2 \<le> length bs \<longrightarrow> (\<exists>h'. le_set16 h (Ptr b k) x = Some h' \<and>
           le_get16 h' (Ptr b k) = Some x \<and>
           h' = put_block h b (take k bs @ le_bytes x @ drop (k + 2) bs))) \<and>
    (k + 4 \<le> length bs \<longrightarrow> (\<exists>h'. le_set32 h (Ptr b k) y = Some h' \<and>
           le_get32 h' (Ptr b k) = Some y \<and>
           h' = put_block h b (take k bs @ le_bytes y @ drop (k + 4) bs))) \<and>
    (k + 8 \<le> length bs \<longrightarrow> (\<exists>h'. le_set64 h (Ptr b k) z = Some h' \<and>
           le_get64 h' (Ptr b k) = Some z \<and>
           h' = put_block h b (take k bs @ le_bytes z @ drop (k + 8) bs)))"
  using le16.get_after_set [OF assms, of k x] le32.get_after_set [OF assms, of k y]
    le64.get_after_set [OF assms, of k z] by simp

theorem le_set_get_roundtrip_witness:
  "\<exists>h'. le_set16 (heap_of [[1, 2, 3]]) (Ptr 0 1) 0x1234 = Some h' \<and>
     le_get16 h' (Ptr 0 1) = Some 0x1234 \<and> hblk h' 0 = Some [1, 0x34, 0x12]"
  using le_set_get_roundtrip [of "heap_of [[1, 2, 3]]" 0 "[1, 2, 3]" 1 "0x1234" 0 0]
  by (auto simp: le_bytes_16)

text \<open>
  Reading the same eight bytes: \<^verbatim>\<open>be_get64\<close> returns the number whose most
  significant base-256 digit comes first, \<^verbatim>\<open>le_get64\<close> the one whose least significant
  digit comes first, whatever the bytes are.
\<close>

theorem get64_value:
  assumes "hblk h b = Some bs" and "k + 8 \<le> length bs"
  shows "\<exists>v w. be_get64 h (Ptr b k) = Some v \<and> le_get64 h (Ptr b k) = Some w \<and>
    unat v = (\<Sum>i<8. unat (bs ! (k + (7 - i))) * 256 ^ i) \<and>
    unat w = (\<Sum>i<8. unat (bs ! (k + i)) * 256 ^ i)"
proof -
  obtain pre v post where v: "bs = pre @ be_bytes (v :: 64 word) @ post" "length pre = k"
    by (rule be64.block_split [OF assms(1), of k]) (use assms(2) in simp_all)
  obtain pre' w post' where w: "bs = pre' @ le_bytes (w :: 64 word) @ post'" "length pre' = k"
    by (rule le64.block_split [OF assms(1), of k]) (use assms(2) in simp_all)
  have "unat (bs ! (k + (7 - i))) = unat (le_bytes v ! i)" if "i < 8" for i
    using v that by (auto simp: be_bytes_def nth_append rev_nth)
  moreover have "unat (bs ! (k + i)) = unat (le_bytes w ! i)" if "i < 8" for i
    using w that by (simp add: nth_append)
  ultimately show ?thesis
    using assms(1) v w be64.getw_reads [of h b pre v post] le64.getw_reads [of h b pre' w post']
      le_bytes_value [of v] le_bytes_value [of w] by simp
qed

theorem get64_value_witness:
  "\<exists>v w. be_get64 (heap_of [[9, 0, 0, 0, 0, 0, 0, 1, 2]]) (Ptr 0 1) = Some v \<and>
     le_get64 (heap_of [[9, 0, 0, 0, 0, 0, 0, 1, 2]]) (Ptr 0 1) = Some w \<and>
     unat v = 258 \<and> unat w = 2 * 256 ^ 7 + 256 ^ 6"
  using get64_value [of "heap_of [[9, 0, 0, 0, 0, 0, 0, 1, 2]]" 0 "[9, 0, 0, 0, 0, 0, 0, 1, 2]" 1]
  by (simp add: sum_below_8)

end
