(* ===== verification/Memory.thy ===== *)
theory Memory
  imports Endian
begin

text \<open>
  \<^verbatim>\<open>src/memory.h\<close> and \<^verbatim>\<open>src/memory.c\<close>: bounded copying and filling, hexadecimal
  encoding, allocation through a pointer variable, and reference counted objects.
  A \<^verbatim>\<open>void **\<close> parameter is the value of the pointer variable going in and its new
  value coming out. The counter of a shared object is the 32-bit integer in its
  first four bytes; the atomic read-modify-write operations are single steps.
\<close>

subsection \<open>Filling and copying\<close>

primrec memset_loop :: "heap \<Rightarrow> ptr \<Rightarrow> byte \<Rightarrow> nat \<Rightarrow> heap option" where
  "memset_loop h p v 0 = Some h"
| "memset_loop h p v (Suc n) = do { h \<leftarrow> store h p v; memset_loop h (padd p 1) v n }"

definition cpr_memset :: "heap \<Rightarrow> ptr \<Rightarrow> int \<Rightarrow> size_t \<Rightarrow> (ptr \<times> heap) option" where
  "cpr_memset h p v n =
     (if p = Null then Some (Null, h)
      else do { h \<leftarrow> memset_loop h p (word_of_int v) n; Some (p, h) })"

definition cpr_memcpy :: "heap \<Rightarrow> ptr \<Rightarrow> size_t \<Rightarrow> ptr \<Rightarrow> size_t \<Rightarrow> (bool \<times> heap) option" where
  "cpr_memcpy h dst dst_size src src_size =
     (if dst = Null \<or> src = Null then Some (False, h)
      else if src_size > dst_size then Some (False, h)
      else do { h \<leftarrow> c_memcpy h dst src src_size; Some (True, h) })"

subsection \<open>Hexadecimal\<close>

definition hex_table :: "byte list" where
  "hex_table = str_bytes ''0123456789abcdef''"

text \<open>
  \<^verbatim>\<open>strchr(hex, c) - hex\<close> on the literal table. \<^verbatim>\<open>strchr\<close> also finds the terminator,
  at index 16.
\<close>

definition hex_find :: "byte \<Rightarrow> nat option" where
  "hex_find c = (if c \<in> set (hex_table @ [0])
     then Some (length (takeWhile (\<lambda>d. d \<noteq> c) (hex_table @ [0]))) else None)"

function hexload_loop :: "heap \<Rightarrow> ptr \<Rightarrow> ptr \<Rightarrow> size_t \<Rightarrow> size_t \<Rightarrow> (size_t \<times> heap) option" where
  "hexload_loop h out str sz count =
     (if count < sz then
        (case load h str of None \<Rightarrow> None | Some c0 \<Rightarrow>
           if c0 = 0 then Some (count, h)
           else (case load h (padd str 1) of None \<Rightarrow> None | Some c1 \<Rightarrow>
             (case (hex_find (c_tolower c0), hex_find (c_tolower c1)) of
                (Some i, Some j) \<Rightarrow>
                  (case store h (padd out count)
                          (push_bit 4 (of_nat i) OR of_nat j) of
                     None \<Rightarrow> None
                   | Some h' \<Rightarrow> hexload_loop h' out (padd str 2) sz (count + 1))
              | _ \<Rightarrow> Some (count, h))))
      else Some (count, h))"
  by pat_completeness auto
termination
  by (relation "measure (\<lambda>(h, out, str, sz, count). sz - count)") auto

declare hexload_loop.simps [simp del]

definition cpr_hexload :: "heap \<Rightarrow> ptr \<Rightarrow> ptr \<Rightarrow> size_t \<Rightarrow> (size_t \<times> heap) option" where
  "cpr_hexload h out str sz =
     (if out = Null \<or> sz = 0 \<or> str = Null then Some (0, h)
      else hexload_loop h out str sz 0)"

primrec hexdup_loop :: "heap \<Rightarrow> ptr \<Rightarrow> ptr \<Rightarrow> nat \<Rightarrow> (ptr \<times> heap) option" where
  "hexdup_loop h put bin 0 = Some (put, h)"
| "hexdup_loop h put bin (Suc n) = do {
     c \<leftarrow> load h bin;
     h \<leftarrow> store h put (hex_table ! unat (drop_bit 4 c));
     c \<leftarrow> load h bin;
     h \<leftarrow> store h (padd put 1) (hex_table ! unat (c AND 0x0f));
     hexdup_loop h (padd put 2) (padd bin 1) n }"

definition cpr_hexdup :: "heap \<Rightarrow> ptr \<Rightarrow> size_t \<Rightarrow> (ptr \<times> heap) option" where
  "cpr_hexdup h bin sz =
     (if bin = Null then Some (Null, h)
      else (let (out, h) = c_malloc h (sz_add (sz_mul sz 2) 1) in
        if out = Null then Some (Null, h)
        else do { (put, h) \<leftarrow> hexdup_loop h out bin sz; h \<leftarrow> store h put 0; Some (out, h) }))"

subsection \<open>Pointer variables\<close>

definition cpr_new :: "heap \<Rightarrow> ptr \<Rightarrow> size_t \<Rightarrow> (ptr \<times> heap) option" where
  "cpr_new h var sz = do {
     h \<leftarrow> (if var \<noteq> Null then c_free h var else Some h);
     Some (c_malloc h sz) }"

definition cpr_free :: "heap \<Rightarrow> ptr \<Rightarrow> (ptr \<times> heap) option" where
  "cpr_free h var =
     (if var = Null then Some (var, h) else do { h \<leftarrow> c_free h var; Some (Null, h) })"

subsection \<open>Reference counted objects\<close>

definition cpr_makeref :: "heap \<Rightarrow> size_t \<Rightarrow> (ptr \<times> heap) option" where
  "cpr_makeref h sz =
     (let (p, h) = c_malloc h (sz_add 4 sz) in
        if p = Null then Some (Null, h) else do { h \<leftarrow> le_set32 h p 1; Some (p, h) })"

definition cpr_ref :: "ptr \<Rightarrow> ptr option" where
  "cpr_ref p = (if p = Null then None else Some (padd p 4))"

definition cpr_count :: "heap \<Rightarrow> ptr \<Rightarrow> 32 word option" where
  "cpr_count h p = le_get32 h p"

definition cpr_retain :: "heap \<Rightarrow> ptr \<Rightarrow> (ptr \<times> heap) option" where
  "cpr_retain h p = do { n \<leftarrow> le_get32 h p; h \<leftarrow> le_set32 h p (n + 1); Some (p, h) }"

definition cpr_release :: "heap \<Rightarrow> ptr \<Rightarrow> (ptr \<times> heap) option" where
  "cpr_release h p = do {
     n \<leftarrow> le_get32 h p;
     h \<leftarrow> le_set32 h p (n - 1);
     if n = 1 then do { h \<leftarrow> c_free h p; Some (Null, h) } else Some (p, h) }"

text \<open>The macros \<^verbatim>\<open>MAKE_REF\<close> and \<^verbatim>\<open>RELEASE_REF\<close> on a reference variable.\<close>

definition MAKE_REF :: "heap \<Rightarrow> ptr \<Rightarrow> size_t \<Rightarrow> (ptr \<times> heap) option" where
  "MAKE_REF h var sz = (if var = Null then cpr_makeref h sz else cpr_retain h var)"

definition RELEASE_REF :: "heap \<Rightarrow> ptr \<Rightarrow> (ptr \<times> heap) option" where
  "RELEASE_REF h var = cpr_release h var"

subsection \<open>Facts about filling and copying\<close>

lemma memset_loop_store_list: "memset_loop h p v n = store_list h p (replicate n v)"
  by (induction n arbitrary: h p) auto

lemma cpr_memset_mid:
  "hblk h b = Some (pre @ old @ post) \<Longrightarrow>
   cpr_memset h (Ptr b (length pre)) v (length old) =
     Some (Ptr b (length pre), put_block h b (pre @ replicate (length old) (word_of_int v) @ post))"
  by (simp add: cpr_memset_def memset_loop_store_list store_list_mid [of h b pre old post])

lemma cpr_memset_whole:
  "hblk h b = Some bs \<Longrightarrow> cpr_memset h (Ptr b 0) v (length bs) =
     Some (Ptr b 0, put_block h b (replicate (length bs) (word_of_int v)))"
  using cpr_memset_mid [of h b "[]" bs "[]" v] by simp

lemma c_memcpy_mid:
  assumes "load_list h s n = Some cs" and "hblk h b = Some (pre @ old @ post)"
    and "length old = n" and "length pre = k" and "\<not> ranges_overlap (Ptr b k) s n"
  shows "c_memcpy h (Ptr b k) s n = Some (put_block h b (pre @ cs @ post))"
  using assms load_list_length [OF assms(1)]
  by (simp add: c_memcpy_def c_memmove_def store_list_mid [of h b pre old post])

lemma cpr_memcpy_mid:
  assumes "load_list h s n = Some cs" and "hblk h b = Some (pre @ old @ post)"
    and "length old = n" and "n \<le> m" and "length pre = k" and "\<not> ranges_overlap (Ptr b k) s n"
    and "s \<noteq> Null"
  shows "cpr_memcpy h (Ptr b k) m s n = Some (True, put_block h b (pre @ cs @ post))"
  using assms c_memcpy_mid [OF assms(1,2)] by (simp add: cpr_memcpy_def)

subsection \<open>Facts about hexadecimal\<close>

definition hex_encode :: "byte list \<Rightarrow> byte list" where
  "hex_encode bs = concat (map (\<lambda>c. [hex_table ! unat (drop_bit 4 c), hex_table ! unat (c AND 0x0f)]) bs)"

lemma hex_table_eq: "hex_table = [48, 49, 50, 51, 52, 53, 54, 55, 56, 57, 97, 98, 99, 100, 101, 102]"
  by (simp add: hex_table_def str_bytes_def char_byte_def)

lemma hex_find_table:
  assumes "i < 16"
  shows "hex_find (c_tolower (hex_table ! i)) = Some i \<and> hex_table ! i \<noteq> 0"
proof -
  have "list_all (\<lambda>i. hex_find (c_tolower (hex_table ! i)) = Some i \<and> hex_table ! i \<noteq> 0) [0..<16]"
    by code_simp
  with assms show ?thesis by (simp add: list_all_iff)
qed

lemma high_nibble: "unat (drop_bit 4 (c :: byte)) < 16"
proof -
  have "unat c < 2 ^ 8" using unsigned_less [of c] by simp
  then show ?thesis by (simp add: unat_drop_bit_eq drop_bit_eq_div [of _ "unat c"])
qed

lemma low_nibble: "unat (c AND 0x0f :: byte) < 16"
proof -
  have "unat (c AND 0x0f) \<le> unat (15 :: byte)"
    by (rule word_and_le1 [THEN word_le_nat_alt [THEN iffD1]])
  then show ?thesis by simp
qed

lemma mask_nibble: "(15 :: byte) = mask 4"
  by (simp add: mask_eq_exp_minus_1)

lemma join_nibbles: "push_bit 4 (drop_bit 4 c) OR (c AND 0x0f) = (c :: byte)"
  by (rule bit_word_eqI) (auto simp: bit_simps mask_nibble)


lemma hexdup_loop_mid:
  assumes "hblk h c = Some (pre @ old @ post)" and "length old = 2 * length bin" and "c \<noteq> b"
    and "hblk h b = Some (bpre @ bin @ bpost)"
  shows "hexdup_loop h (Ptr c (length pre)) (Ptr b (length bpre)) (length bin) =
    Some (Ptr c (length pre + 2 * length bin), put_block h c (pre @ hex_encode bin @ post))"
  using assms
proof (induction bin arbitrary: h pre old bpre)
  case Nil
  then show ?case by (simp add: hex_encode_def)
next
  case (Cons x bin)
  obtain y z old' where old: "old = y # z # old'" and len: "length old' = 2 * length bin"
    using Cons.prems(2) by (cases old; cases "tl old") auto
  let ?d = "[hex_table ! unat (drop_bit 4 x), hex_table ! unat (x AND 0x0f)]"
  let ?h = "put_block h c ((pre @ ?d) @ old' @ post)"
  have "hexdup_loop ?h (Ptr c (length (pre @ ?d))) (Ptr b (length (bpre @ [x]))) (length bin) =
    Some (Ptr c (length (pre @ ?d) + 2 * length bin), put_block ?h c ((pre @ ?d) @ hex_encode bin @ post))"
    using Cons.prems len by (intro Cons.IH [where old = old']) auto
  moreover have "store h (Ptr c (length pre)) (?d ! 0) = Some (put_block h c (pre @ ?d ! 0 # z # old' @ post))"
    using Cons.prems(1) old by (simp add: mem_simps)
  ultimately show ?case
    using Cons.prems old by (simp add: mem_simps hex_encode_def list_update_append)
qed

lemma hexload_loop_mid:
  assumes "hblk h c = Some (opre @ old @ opost)" and "length old = length bin" and "c \<noteq> b"
    and "hblk h b = Some (pre @ hex_encode bin @ post)"
    and "length opre = k + count" and "count + length bin \<le> n"
  shows "hexload_loop h (Ptr c k) (Ptr b (length pre)) n count =
    hexload_loop (put_block h c (opre @ bin @ opost)) (Ptr c k)
      (Ptr b (length pre + 2 * length bin)) n (count + length bin)"
  using assms
proof (induction bin arbitrary: h opre old pre count)
  case Nil
  then show ?case by simp
next
  case (Cons x bin)
  obtain y old' where old: "old = y # old'" and len: "length old' = length bin"
    using Cons.prems(2) by (cases old) auto
  let ?d = "[hex_table ! unat (drop_bit 4 x), hex_table ! unat (x AND 0x0f)]"
  let ?h = "put_block h c ((opre @ [x]) @ old' @ opost)"
  have enc: "hex_encode (x # bin) = ?d @ hex_encode bin" by (simp add: hex_encode_def)
  have "hexload_loop ?h (Ptr c k) (Ptr b (length (pre @ ?d))) n (Suc count) =
    hexload_loop (put_block ?h c ((opre @ [x]) @ bin @ opost)) (Ptr c k)
      (Ptr b (length (pre @ ?d) + 2 * length bin)) n (Suc count + length bin)"
    using Cons.prems len enc by (intro Cons.IH [where old = old']) auto
  moreover have "load h (Ptr b (length pre)) = Some (?d ! 0)"
    and "load h (Ptr b (Suc (length pre))) = Some (?d ! 1)"
    using Cons.prems(4) enc by (simp_all add: mem_simps nth_append)
  moreover have "store h (Ptr c (k + count)) x = Some ?h"
    using Cons.prems(1,5) old by (simp add: mem_simps flip: Cons.prems(5))
  ultimately show ?case
    using Cons.prems(6) hex_find_table [OF high_nibble [of x]] hex_find_table [OF low_nibble [of x]]
    by (subst hexload_loop.simps) (simp add: join_nibbles)
qed


lemma hex_encode_nonzero: "0 \<notin> set (hex_encode bin)"
  using hex_find_table [OF high_nibble] hex_find_table [OF low_nibble]
  by (fastforce simp: hex_encode_def)

lemma length_hex_encode [simp]: "length (hex_encode bin) = 2 * length bin"
  by (induction bin) (auto simp: hex_encode_def)

lemma cpr_hexdup_encodes:
  assumes "heap_ok h" and "hgrant h (hseq h) (2 * length bin + 1)" and "2 * length bin + 1 < 2 ^ 64"
    and "hblk h b = Some (pre @ bin @ post)"
  obtains h' where "cpr_hexdup h (Ptr b (length pre)) (length bin) = Some (Ptr (hseq h) 0, h')"
    and "hblk h' = (hblk h)(hseq h \<mapsto> hex_encode bin @ [0])"
proof -
  have sz: "sz_add (sz_mul (length bin) 2) 1 = 2 * length bin + 1"
    using assms(3) by (simp add: size_simps)
  obtain h1 junk where m: "c_malloc h (2 * length bin + 1) = (Ptr (hseq h) 0, h1)"
    and j: "length junk = 2 * length bin + 1" "hblk h1 = (hblk h)(hseq h \<mapsto> junk)"
    and fresh: "\<And>b bs. hblk h b = Some bs \<Longrightarrow> b \<noteq> hseq h"
    using c_malloc_granted [OF assms(1,2)] by metis
  obtain old x where old: "junk = old @ [x]" "length old = 2 * length bin"
    using j(1) by (cases junk rule: rev_cases) auto
  have "hexdup_loop h1 (Ptr (hseq h) 0) (Ptr b (length pre)) (length bin) =
    Some (Ptr (hseq h) (2 * length bin), put_block h1 (hseq h) (hex_encode bin @ [x]))"
    using hexdup_loop_mid [of h1 "hseq h" "[]" old "[x]" bin b pre post]
      j(2) old fresh [OF assms(4)] assms(4) by simp
  then show ?thesis
    using that m sz j(2) by (simp add: cpr_hexdup_def mem_simps list_update_append)
qed

subsection \<open>The hexadecimal round trip\<close>

text \<open>
  C9. Encoding a non-empty byte string with \<^verbatim>\<open>cpr_hexdup\<close> and decoding the result
  with \<^verbatim>\<open>cpr_hexload\<close> gives the bytes back: the fresh object holds the lower-case
  hexadecimal digits, NUL-terminated, the decoder reports the number of bytes and
  writes exactly them into the output object, and nothing else changes.
\<close>

theorem hex_roundtrip:
  assumes "heap_ok h" and "hgrant h (hseq h) (2 * length bin + 1)" and "2 * length bin + 1 < 2 ^ 64"
    and "hblk h b = Some (pre @ bin @ post)" and "hblk h c = Some (opre @ old @ opost)"
    and "length old = length bin" and "bin \<noteq> []"
  shows "\<exists>p h1 h2. cpr_hexdup h (Ptr b (length pre)) (length bin) = Some (p, h1) \<and>
    cstr h1 p (hex_encode bin) \<and>
    cpr_hexload h1 (Ptr c (length opre)) p (length bin) = Some (length bin, h2) \<and>
    hblk h2 = (hblk h1)(c \<mapsto> opre @ bin @ opost)"
proof -
  obtain h1 where dup: "cpr_hexdup h (Ptr b (length pre)) (length bin) = Some (Ptr (hseq h) 0, h1)"
    and h1: "hblk h1 = (hblk h)(hseq h \<mapsto> hex_encode bin @ [0])"
    using cpr_hexdup_encodes [OF assms(1-4)] .
  have c: "c \<noteq> hseq h" using assms(1,5) by (auto dest: heap_ok_live)
  have "cstr h1 (Ptr (hseq h) 0) (hex_encode bin)"
    by (rule cstr_mid [where pre = "[]" and post = "[]"]) (simp_all add: h1 hex_encode_nonzero)
  moreover have "hexload_loop h1 (Ptr c (length opre)) (Ptr (hseq h) 0) (length bin) 0 =
      Some (length bin, put_block h1 c (opre @ bin @ opost))"
    using hexload_loop_mid [of h1 c opre old opost bin "hseq h" "[]" "[0]" "length opre" 0 "length bin"]
      c assms(5,6) by (simp add: h1 hexload_loop.simps)
  ultimately show ?thesis using dup assms(7) by (auto simp: cpr_hexload_def)
qed

theorem hex_roundtrip_witness:
  "\<exists>p h1 h2. cpr_hexdup (heap_of [[0x3f, 0xa0], [0, 0]]) (Ptr 0 0) 2 = Some (p, h1) \<and>
    cstr h1 p (str_bytes ''3fa0'') \<and>
    cpr_hexload h1 (Ptr 1 0) p 2 = Some (2, h2) \<and> hblk h2 1 = Some [0x3f, 0xa0]"
proof -
  let ?h = "heap_of [[0x3f, 0xa0], [0, 0]]"
  have enc: "hex_encode [0x3f, 0xa0] = str_bytes ''3fa0''" by code_simp
  obtain p h1 h2 where "cpr_hexdup ?h (Ptr 0 0) 2 = Some (p, h1)"
    and "cstr h1 p (str_bytes ''3fa0'')" and "cpr_hexload h1 (Ptr 1 0) p 2 = Some (2, h2)"
    and "hblk h2 = (hblk h1)(1 \<mapsto> [0x3f, 0xa0])"
    using hex_roundtrip [of ?h "[0x3f, 0xa0]" 0 "[]" "[]" 1 "[]" "[0, 0]" "[]"]
    by (auto simp: enc simp flip: numeral_2_eq_2)
  then show ?thesis by auto
qed

subsection \<open>Strings with an odd number of digits\<close>

definition is_hex :: "byte \<Rightarrow> bool" where
  "is_hex c \<longleftrightarrow> c \<noteq> 0 \<and> hex_find (c_tolower c) \<noteq> None"

lemma hex_find_nul: "hex_find (c_tolower 0) = Some 16"
  by code_simp

lemma hexload_loop_odd:
  assumes "hblk h b = Some (pre @ s @ [0])" and "list_all is_hex s" and "odd (length s)"
    and "count + length s div 2 + 2 \<le> n" and "c \<noteq> b"
  shows "hexload_loop h (Ptr c k) (Ptr b (length pre)) n count = None"
  using assms
proof (induction s arbitrary: h pre count rule: induct_list012)
  case 1
  then show ?case by simp
next
  case (2 d)
  then obtain i where i: "hex_find (c_tolower d) = Some i" "d \<noteq> 0" by (auto simp: is_hex_def)
  let ?v = "push_bit 4 (of_nat i) OR of_nat 16 :: byte"
  have "hexload_loop h' (Ptr c k) (Ptr b (length pre + 2)) n (Suc count) = None"
    if "store h (Ptr c (k + count)) ?v = Some h'" for h'
    using that 2 by (subst hexload_loop.simps) (auto simp: mem_simps elim!: store_SomeE)
  with i 2 show ?case
    by (subst hexload_loop.simps) (auto simp: mem_simps hex_find_nul nth_append split: option.splits)
next
  case (3 d e s)
  then obtain i j where i: "hex_find (c_tolower d) = Some i" "d \<noteq> 0" "hex_find (c_tolower e) = Some j"
    by (auto simp: is_hex_def)
  let ?v = "push_bit 4 (of_nat i) OR of_nat j :: byte"
  have "hexload_loop h' (Ptr c k) (Ptr b (length (pre @ [d, e]))) n (Suc count) = None"
    if "store h (Ptr c (k + count)) ?v = Some h'" for h'
    using that 3 by (intro 3(1)) (auto elim!: store_SomeE)
  with i 3 show ?case
    by (subst hexload_loop.simps) (auto simp: mem_simps nth_append split: option.splits)
qed

text \<open>
  \<^verbatim>\<open>cpr_hexload\<close> on a string with an odd number of hexadecimal digits, asked for
  at least two more bytes than it has complete pairs, accepts the terminating NUL
  as the second digit of the last pair and then reads past the end of the string.
\<close>

theorem cpr_hexload_odd_overread:
  assumes "hblk h b = Some (s @ [0])" and "list_all is_hex s" and "odd (length s)"
    and "length s div 2 + 2 \<le> n" and "c \<noteq> b"
  shows "cpr_hexload h (Ptr c k) (Ptr b 0) n = None"
  using hexload_loop_odd [of h b "[]" s 0 n c k] assms by (simp add: cpr_hexload_def)

theorem cpr_hexload_odd_overread_witness:
  "cpr_hexload (heap_of [str_bytes ''abc'' @ [0], [0, 0, 0, 0]]) (Ptr 1 0) (Ptr 0 0) 4 = None"
proof -
  have "list_all is_hex (str_bytes ''abc'')" by code_simp
  then show ?thesis
    using cpr_hexload_odd_overread [of "heap_of [str_bytes ''abc'' @ [0], [0, 0, 0, 0]]" 0 "str_bytes ''abc''" 4 1 0]
    by (simp add: str_bytes_def)
qed

subsection \<open>Bounded copying\<close>

text \<open>
  \<^verbatim>\<open>cpr_memcpy\<close> copies exactly the source bytes when they fit into the declared
  size of the destination and otherwise reports failure and writes nothing; with a
  declared size inside the destination object it never faults.
\<close>

theorem cpr_memcpy_bounded:
  assumes "hblk h b = Some bs" and "k + dst_size \<le> length bs"
    and "load_list h src n = Some cs" and "src \<noteq> Null"
    and "\<not> ranges_overlap (Ptr b k) src n"
  shows "cpr_memcpy h (Ptr b k) dst_size src n = Some (n \<le> dst_size,
    if n \<le> dst_size then put_block h b (take k bs @ cs @ drop (k + n) bs) else h)"
proof (cases "n \<le> dst_size")
  case True
  have "bs = take k bs @ take n (drop k bs) @ drop (k + n) bs"
    by (metis append_take_drop_id drop_drop add.commute)
  with True assms show ?thesis
    using cpr_memcpy_mid [OF assms(3), of b "take k bs" "take n (drop k bs)" "drop (k + n) bs" dst_size k]
    by simp
qed (use assms in \<open>simp add: cpr_memcpy_def\<close>)

theorem cpr_memcpy_bounded_witness:
  "cpr_memcpy (heap_of [[1, 2, 3, 4], [7, 8, 9]]) (Ptr 0 1) 3 (Ptr 1 1) 2 =
     Some (True, put_block (heap_of [[1, 2, 3, 4], [7, 8, 9]]) 0 [1, 8, 9, 4])"
  using cpr_memcpy_bounded [of "heap_of [[1, 2, 3, 4], [7, 8, 9]]" 0 "[1, 2, 3, 4]" 1 3 "Ptr 1 1" 2 "[8, 9]"]
  by (simp add: numeral_2_eq_2 mem_simps)

subsection \<open>Reference counts\<close>

text \<open>
  A program that uses one reference variable, and what it should do: count.
\<close>

datatype ref_op = Retain | Release

fun ref_run :: "heap \<Rightarrow> ptr \<Rightarrow> ref_op list \<Rightarrow> (ptr \<times> heap) option" where
  "ref_run h var [] = Some (var, h)"
| "ref_run h var (Retain # ops) = do { (var, h) \<leftarrow> cpr_retain h var; ref_run h var ops }"
| "ref_run h var (Release # ops) = do { (var, h) \<leftarrow> RELEASE_REF h var; ref_run h var ops }"

fun ref_balance :: "nat \<Rightarrow> ref_op list \<Rightarrow> nat option" where
  "ref_balance n [] = Some n"
| "ref_balance n (Retain # ops) = (if n = 0 then None else ref_balance (Suc n) ops)"
| "ref_balance n (Release # ops) = (if n = 0 then None else ref_balance (n - 1) ops)"

definition shared :: "heap \<Rightarrow> nat \<Rightarrow> nat \<Rightarrow> byte list \<Rightarrow> bool" where
  "shared h b n payload \<longleftrightarrow> 0 < n \<and> n < 2 ^ 32 \<and>
     hblk h b = Some (le_bytes (of_nat n :: 32 word) @ payload)"

lemma drop_put_block [simp]:
  "(put_block h b bs)\<lparr>hblk := (hblk h)(b := x)\<rparr> = h\<lparr>hblk := (hblk h)(b := x)\<rparr>"
  by (simp add: put_block_def)

lemma shared_get: "shared h b n payload \<Longrightarrow> le_get32 h (Ptr b 0) = Some (of_nat n)"
  using le32.getw_reads [of h b "[]" "of_nat n" payload] by (simp add: shared_def)

lemma shared_set:
  "shared h b n payload \<Longrightarrow>
   le_set32 h (Ptr b 0) v = Some (put_block h b (le_bytes v @ payload))"
  using le32.setw_writes [of h b "[]" "le_bytes (of_nat n :: 32 word)" payload v]
  by (simp add: shared_def)

lemma cpr_retain_shared:
  "shared h b n payload \<Longrightarrow>
   cpr_retain h (Ptr b 0) = Some (Ptr b 0, put_block h b (le_bytes (of_nat (Suc n) :: 32 word) @ payload))"
  by (simp add: cpr_retain_def shared_get shared_set add.commute)

lemma of_nat_eq_1_iff: "n < 2 ^ 32 \<Longrightarrow> (of_nat n :: 32 word) = 1 \<longleftrightarrow> n = 1"
  by (auto simp: word_unat_eq_iff unsigned_of_nat take_bit_nat_eq_self)

lemma cpr_release_shared:
  assumes "shared h b n payload"
  shows "RELEASE_REF h (Ptr b 0) =
    (if n = 1 then Some (Null, h\<lparr>hblk := (hblk h)(b := None)\<rparr>)
     else Some (Ptr b 0, put_block h b (le_bytes (of_nat (n - 1) :: 32 word) @ payload)))"
proof -
  have n: "0 < n" "n < 2 ^ 32" using assms by (simp_all add: shared_def)
  then have "(of_nat (n - 1) :: 32 word) = of_nat n - 1" by simp
  with assms n show ?thesis
    by (simp add: RELEASE_REF_def cpr_release_def shared_get shared_set of_nat_eq_1_iff c_free_def)
qed

lemma ref_run_Null: "ops \<noteq> [] \<Longrightarrow> ref_run h Null ops = None"
  by (cases ops; cases "hd ops") (auto simp: cpr_retain_def RELEASE_REF_def cpr_release_def le_get32_def)

lemma ref_run_refines:
  assumes "shared h b n payload" and "n + length ops < 2 ^ 32"
  shows "ref_run h (Ptr b 0) ops = (case ref_balance n ops of None \<Rightarrow> None
    | Some m \<Rightarrow> Some (if m = 0 then (Null, h\<lparr>hblk := (hblk h)(b := None)\<rparr>)
        else (Ptr b 0, put_block h b (le_bytes (of_nat m :: 32 word) @ payload))))"
  using assms
proof (induction ops arbitrary: h n)
  case Nil
  then show ?case by (auto simp: shared_def)
next
  case (Cons x ops)
  have n: "0 < n" "n < 2 ^ 32" using Cons.prems by (simp_all add: shared_def)
  let ?h = "\<lambda>m. put_block h b (le_bytes (of_nat m :: 32 word) @ payload)"
  show ?case
  proof (cases x)
    case Retain
    have "shared (?h (Suc n)) b (Suc n) payload" using Cons.prems by (simp add: shared_def)
    with Cons.IH [of "?h (Suc n)" "Suc n"] Cons.prems Retain n show ?thesis
      by (simp add: cpr_retain_shared [OF Cons.prems(1)] split: option.split)
  next
    case Release
    show ?thesis
    proof (cases "n = 1")
      case True
      then show ?thesis
        using Release ref_run_Null [of ops] cpr_release_shared [OF Cons.prems(1)]
        by (cases ops; cases "hd ops") auto
    next
      case False
      with n Cons.prems have "shared (?h (n - 1)) b (n - 1) payload" by (simp add: shared_def)
      with Cons.IH [of "?h (n - 1)" "n - 1"] Cons.prems Release n False show ?thesis
        by (simp add: cpr_release_shared [OF Cons.prems(1)] split: option.split)
    qed
  qed
qed


lemma cpr_makeref_shared:
  assumes "heap_ok h" and "hgrant h (hseq h) (4 + sz)" and "4 + sz < 2 ^ 64"
  obtains h' payload where "cpr_makeref h sz = Some (Ptr (hseq h) 0, h')"
    and "shared h' (hseq h) 1 payload" and "length payload = sz"
    and "hblk h' = (hblk h)(hseq h \<mapsto> le_bytes (1 :: 32 word) @ payload)"
proof -
  obtain h1 junk where m: "c_malloc h (4 + sz) = (Ptr (hseq h) 0, h1)" "length junk = 4 + sz"
      "hblk h1 = (hblk h)(hseq h \<mapsto> junk)"
    using c_malloc_granted [OF assms(1,2)] by metis
  have "le_set32 h1 (Ptr (hseq h) 0) 1 =
      Some (put_block h1 (hseq h) (le_bytes (1 :: 32 word) @ drop 4 junk))"
    using le32.setw_writes [of h1 "hseq h" "[]" "take 4 junk" "drop 4 junk" 1] m by simp
  then show ?thesis
    using m assms(3) that [of "put_block h1 (hseq h) (le_bytes (1 :: 32 word) @ drop 4 junk)" "drop 4 junk"]
    by (simp add: cpr_makeref_def size_simps shared_def)
qed

text \<open>
  C19. Reference counting refines an abstract counter: after \<^verbatim>\<open>cpr_makeref\<close>, any
  sequence of retains and releases through a reference variable behaves like
  counting from one. As long as the count stays positive the object stays
  allocated and \<^verbatim>\<open>cpr_count\<close> reports the balance; the release that takes it to zero
  frees the object, sets the variable to null and leaves the heap as it was before
  the object was made; any use of the variable after that is a fault.
\<close>

theorem refcount_lifecycle:
  assumes "heap_ok h" and "hgrant h (hseq h) (4 + sz)" and "4 + sz < 2 ^ 64"
    and "length ops + 1 < 2 ^ 32"
  shows "\<exists>p h1. MAKE_REF h Null sz = Some (p, h1) \<and> p \<noteq> Null \<and>
    (case ref_balance 1 ops of
       None \<Rightarrow> ref_run h1 p ops = None
     | Some m \<Rightarrow> \<exists>h2. ref_run h1 p ops = Some (if m = 0 then Null else p, h2) \<and>
         (if m = 0 then hblk h2 = hblk h else cpr_count h2 p = Some (of_nat m)))"
proof -
  obtain h1 payload where mk: "cpr_makeref h sz = Some (Ptr (hseq h) 0, h1)"
    and sh: "shared h1 (hseq h) 1 payload"
    and h1: "hblk h1 = (hblk h)(hseq h \<mapsto> le_bytes (1 :: 32 word) @ payload)"
    using cpr_makeref_shared [OF assms(1-3)] by metis
  have none: "hblk h (hseq h) = None" using assms(1) by (simp add: heap_ok_def)
  have count: "cpr_count (put_block h1 b (le_bytes v @ payload)) (Ptr b 0) = Some v" for b v
    using le32.getw_reads [of "put_block h1 b (le_bytes v @ payload)" b "[]" v payload]
    by (simp add: cpr_count_def)
  show ?thesis
    using ref_run_refines [OF sh, of ops] assms(4) mk h1 none count
    by (auto simp: MAKE_REF_def fun_upd_idem split: option.split)
qed

theorem refcount_lifecycle_witness:
  "\<exists>p h1 h2. MAKE_REF (heap_of []) Null 4 = Some (p, h1) \<and>
     ref_run h1 p [Retain, Release, Release] = Some (Null, h2) \<and> hblk h2 = hblk (heap_of [])"
  using refcount_lifecycle [of "heap_of []" 4 "[Retain, Release, Release]"] by auto

text \<open>
  \<^verbatim>\<open>cpr_new\<close> through a pointer variable releases the object the variable held and
  leaves it holding a fresh object of the requested size, or null when the
  allocator refuses; \<^verbatim>\<open>cpr_free\<close> releases it, and freeing the variable again does
  nothing, so neither leaks nor frees twice.
\<close>

theorem cpr_new_free_ownership:
  assumes "heap_ok h" and "hblk h b \<noteq> None"
  shows "\<exists>p h1. cpr_new h (Ptr b 0) sz = Some (p, h1) \<and>
    (if hgrant h (hseq h) sz
     then \<exists>bs. length bs = sz \<and> p = Ptr (hseq h) 0 \<and> hblk h1 = (hblk h)(b := None, hseq h \<mapsto> bs)
     else p = Null \<and> hblk h1 = (hblk h)(b := None)) \<and>
    (\<exists>h2. cpr_free h1 p = Some (Null, h2) \<and> hblk h2 = (hblk h)(b := None) \<and>
       cpr_free h2 Null = Some (Null, h2))"
proof -
  have "hblk h (hseq h) = None" and "b \<noteq> hseq h"
    using assms by (auto simp: heap_ok_def)
  then have upd: "((hblk h)(b := None))(hseq h := None) = (hblk h)(b := None)"
    by (intro fun_upd_idem) simp
  have len: "length (map (hjunk h (hseq h)) [0..<sz]) = sz" by simp
  show ?thesis
    using assms(2) upd len
    by (auto simp: cpr_new_def cpr_free_def c_free_def c_malloc_def simp del: length_map)
qed

theorem cpr_new_free_ownership_witness:
  "\<exists>p h1 h2. cpr_new (heap_of [[1, 2]]) (Ptr 0 0) 5 = Some (p, h1) \<and> p = Ptr 1 0 \<and>
     hblk h1 0 = None \<and> cpr_free h1 p = Some (Null, h2) \<and> hblk h2 0 = None \<and> hblk h2 1 = None"
  using cpr_new_free_ownership [of "heap_of [[1, 2]]" 0 5] by auto

end
