(* ===== verification/Bitset.thy ===== *)
theory Bitset
  imports Memory
begin

text \<open>
  \<^verbatim>\<open>src/bitset.h\<close> and \<^verbatim>\<open>src/bitset.c\<close>: bit arrays in allocated memory, bit \<open>i\<close> being
  bit \<open>i mod 8\<close> of byte \<open>i div 8\<close>. A bit array implements a set of offsets; the
  interface is the locale \<open>bit_store\<close>, and the searching and counting functions
  are related to the set. No expression here can wrap: a byte index is below
  \<open>2 ^ 61\<close>.
\<close>

subsection \<open>The functions of bitset.c\<close>

definition bytemask :: "size_t \<Rightarrow> byte" where
  "bytemask bits = push_bit (bits mod 8) 1"

function count_bits_loop :: "byte \<Rightarrow> nat \<Rightarrow> nat" where
  "count_bits_loop n count =
     (if 0 < n then count_bits_loop (n AND (n - 1)) (count + 1) else count)"
  by pat_completeness auto
termination
  by (relation "measure (\<lambda>(n, count). unat n)") (auto intro: unat_mono and_pred_less)

declare count_bits_loop.simps [simp del]

definition count_bits :: "byte \<Rightarrow> nat" where
  "count_bits n = count_bits_loop n 0"

definition cpr_bitsize :: "size_t \<Rightarrow> size_t" where
  "cpr_bitsize bits = (let result = bits div 8 in if bits mod 8 \<noteq> 0 then result + 1 else result)"

definition cpr_makebits :: "heap \<Rightarrow> size_t \<Rightarrow> (ptr \<times> heap) option" where
  "cpr_makebits h bitsize =
     (let sz = cpr_bitsize bitsize; (bits, h) = c_malloc h sz in
      if bits = Null then Some (Null, h)
      else do { (_, h) \<leftarrow> cpr_memset h bits 0 sz; Some (bits, h) })"

text \<open>The loops of \<^verbatim>\<open>cpr_makemask\<close> and \<^verbatim>\<open>cpr_foldmask\<close>, from \<open>pos\<close> for \<open>n\<close> rounds.\<close>

primrec makemask_loop :: "heap \<Rightarrow> ptr \<Rightarrow> ptr \<Rightarrow> ptr \<Rightarrow> size_t \<Rightarrow> nat \<Rightarrow> heap option" where
  "makemask_loop h out bits msk pos 0 = Some h"
| "makemask_loop h out bits msk pos (Suc n) = do {
     x \<leftarrow> load h (padd bits pos);
     y \<leftarrow> load h (padd msk pos);
     h \<leftarrow> store h (padd out pos) (x AND y);
     makemask_loop h out bits msk (pos + 1) n }"

definition cpr_makemask :: "heap \<Rightarrow> ptr \<Rightarrow> ptr \<Rightarrow> size_t \<Rightarrow> (ptr \<times> heap) option" where
  "cpr_makemask h bits msk bitsize =
     (if bitsize = 0 \<or> bits = Null \<or> msk = Null then Some (Null, h)
      else do {
        (out, h) \<leftarrow> cpr_makebits h bitsize;
        if out = Null then Some (Null, h)
        else do {
          h \<leftarrow> makemask_loop h out bits msk 0 (cpr_bitsize bitsize);
          Some (out, h) } })"

primrec foldmask_loop :: "heap \<Rightarrow> ptr \<Rightarrow> ptr \<Rightarrow> size_t \<Rightarrow> nat \<Rightarrow> heap option" where
  "foldmask_loop h bits msk pos 0 = Some h"
| "foldmask_loop h bits msk pos (Suc n) = do {
     x \<leftarrow> load h (padd bits pos);
     y \<leftarrow> load h (padd msk pos);
     h \<leftarrow> store h (padd bits pos) (x AND NOT y);
     foldmask_loop h bits msk (pos + 1) n }"

definition cpr_foldmask :: "heap \<Rightarrow> ptr \<Rightarrow> ptr \<Rightarrow> size_t \<Rightarrow> heap option" where
  "cpr_foldmask h bits msk bitsize =
     (if msk = Null \<or> bitsize = 0 then Some h
      else if bits = Null then c_free h msk
      else do { h \<leftarrow> foldmask_loop h bits msk 0 (cpr_bitsize bitsize); c_free h msk })"

definition cpr_freebits :: "heap \<Rightarrow> ptr \<Rightarrow> heap option" where
  "cpr_freebits h bits = (if bits \<noteq> Null then c_free h bits else Some h)"

definition cpr_bitget :: "heap \<Rightarrow> ptr \<Rightarrow> size_t \<Rightarrow> bool option" where
  "cpr_bitget h bits offset =
     (if bits = Null then Some False
      else do { x \<leftarrow> load h (padd bits (offset div 8)); Some (x AND bytemask offset \<noteq> 0) })"

definition cpr_bitset :: "heap \<Rightarrow> ptr \<Rightarrow> size_t \<Rightarrow> heap option" where
  "cpr_bitset h bits offset =
     (if bits = Null then Some h
      else do { x \<leftarrow> load h (padd bits (offset div 8));
                store h (padd bits (offset div 8)) (x OR bytemask offset) })"

definition cpr_bitclr :: "heap \<Rightarrow> ptr \<Rightarrow> size_t \<Rightarrow> heap option" where
  "cpr_bitclr h bits offset =
     (if bits = Null then Some h
      else do { x \<leftarrow> load h (padd bits (offset div 8));
                store h (padd bits (offset div 8)) (x AND NOT (bytemask offset)) })"

primrec anybits_loop :: "heap \<Rightarrow> ptr \<Rightarrow> nat \<Rightarrow> bool option" where
  "anybits_loop h bits 0 = Some False"
| "anybits_loop h bits (Suc n) = do {
     x \<leftarrow> load h bits; if x \<noteq> 0 then Some True else anybits_loop h (padd bits 1) n }"

definition cpr_anybits :: "heap \<Rightarrow> ptr \<Rightarrow> size_t \<Rightarrow> bool option" where
  "cpr_anybits h bits bitsize =
     (if bits = Null then Some False else anybits_loop h bits (cpr_bitsize bitsize))"

primrec bitcount_loop :: "heap \<Rightarrow> ptr \<Rightarrow> size_t \<Rightarrow> nat \<Rightarrow> size_t \<Rightarrow> size_t option" where
  "bitcount_loop h bits i 0 tot = Some tot"
| "bitcount_loop h bits i (Suc n) tot = do {
     x \<leftarrow> load h (padd bits i); bitcount_loop h bits (i + 1) n (tot + count_bits x) }"

definition cpr_bitcount :: "heap \<Rightarrow> ptr \<Rightarrow> size_t \<Rightarrow> size_t option" where
  "cpr_bitcount h bits bitsize =
     (if bits = Null \<or> bitsize = 0 then Some 0
      else bitcount_loop h bits 0 (cpr_bitsize bitsize) 0)"

definition cpr_allbits :: "heap \<Rightarrow> ptr \<Rightarrow> size_t \<Rightarrow> bool option" where
  "cpr_allbits h bits bitsize = do { n \<leftarrow> cpr_bitcount h bits bitsize; Some (n = bitsize) }"

text \<open>\<^verbatim>\<open>__builtin_ffs\<close>: one plus the index of the least set bit of an \<^verbatim>\<open>int\<close>, or zero.\<close>

definition c_ffs :: "32 word \<Rightarrow> nat" where
  "c_ffs x = (if x = 0 then 0 else Suc (length (takeWhile (\<lambda>i. \<not> bit x i) [0..<32])))"

primrec lowestclr_loop :: "heap \<Rightarrow> ptr \<Rightarrow> size_t \<Rightarrow> size_t \<Rightarrow> nat \<Rightarrow> size_t option" where
  "lowestclr_loop h bits bitsize i 0 = Some bitsize"
| "lowestclr_loop h bits bitsize i (Suc n) = do {
     x \<leftarrow> load h (padd bits i);
     if x \<noteq> 0xFF then
       (let pos = i * 8 + (c_ffs (NOT (ucast x)) - 1) in
        if pos < bitsize then Some pos else Some bitsize)
     else lowestclr_loop h bits bitsize (i + 1) n }"

definition cpr_lowestclr :: "heap \<Rightarrow> ptr \<Rightarrow> size_t \<Rightarrow> size_t option" where
  "cpr_lowestclr h bits bitsize =
     (if bits = Null then Some bitsize
      else lowestclr_loop h bits bitsize 0 (cpr_bitsize bitsize))"

primrec lowestset_loop :: "heap \<Rightarrow> ptr \<Rightarrow> size_t \<Rightarrow> size_t \<Rightarrow> nat \<Rightarrow> size_t option" where
  "lowestset_loop h bits bitsize i 0 = Some bitsize"
| "lowestset_loop h bits bitsize i (Suc n) = do {
     x \<leftarrow> load h (padd bits i);
     if x \<noteq> 0x00 then
       (let pos = i * 8 + (c_ffs (ucast x) - 1) in
        if pos < bitsize then Some pos else Some bitsize)
     else lowestset_loop h bits bitsize (i + 1) n }"

definition cpr_lowestset :: "heap \<Rightarrow> ptr \<Rightarrow> size_t \<Rightarrow> size_t option" where
  "cpr_lowestset h bits bitsize =
     (if bits = Null then Some bitsize
      else lowestset_loop h bits bitsize 0 (cpr_bitsize bitsize))"

subsection \<open>Bytes and bits\<close>

lemma count_bits_loop_card: "count_bits_loop n count = count + card {i. bit n i}"
proof (induction n count rule: count_bits_loop.induct)
  case (1 n count)
  show ?case
  proof (cases "0 < n")
    case True
    then obtain k where k: "bit n k" "\<And>i. bit (n AND (n - 1)) i \<longleftrightarrow> bit n i \<and> i \<noteq> k"
      using clear_lowest_bit by blast
    have "{i. bit n i} = insert k {i. bit (n AND (n - 1)) i}" using k by auto
    moreover have "k \<notin> {i. bit (n AND (n - 1)) i}" using k by simp
    ultimately have "card {i. bit n i} = Suc (card {i. bit (n AND (n - 1)) i})"
      by (simp add: finite_bits)
    with 1 True show ?thesis by (subst count_bits_loop.simps) simp
  next
    case False
    then have "{i. bit n i} = {}" by (auto simp: word_gt_0)
    with False show ?thesis by (subst count_bits_loop.simps) simp
  qed
qed

lemma ffs_ucast:
  assumes "x AND mask 8 = ucast c" and "c \<noteq> (0 :: byte)"
  shows "c_ffs x = Suc (length (takeWhile (\<lambda>i. \<not> bit c i) [0..<8]))"
proof -
  have bit: "bit x i \<longleftrightarrow> bit c i" if "i < 8" for i
    using arg_cong [OF assms(1), of "\<lambda>w. bit w i"] that by (simp add: bit_simps)
  obtain i where i: "i < 8" "bit c i"
    using assms(2) bit_imp_le_length [of c] by (auto simp: bit_eq_iff)
  with bit have "bit x i" by simp
  then have "x \<noteq> 0" by auto
  have "[0..<32] = [0..<8] @ [8..<32]" using upt_add_eq_append [of 0 8 24] by simp
  then have "takeWhile (\<lambda>i. \<not> bit x i) [0..<32] = takeWhile (\<lambda>i. \<not> bit x i) [0..<8]"
    using i \<open>bit x i\<close> by (simp add: takeWhile_append1 [of i])
  also have "\<dots> = takeWhile (\<lambda>i. \<not> bit c i) [0..<8]"
    by (rule takeWhile_cong) (simp_all add: bit)
  finally show ?thesis using \<open>x \<noteq> 0\<close> by (simp add: c_ffs_def)
qed

lemma and_bytemask: "x AND bytemask i \<noteq> 0 \<longleftrightarrow> bit x (i mod 8)"
  by (simp add: bytemask_def push_bit_eq_mult and_exp_eq_0_iff_not_bit)

lemma bit_bytemask: "bit (bytemask i) j \<longleftrightarrow> j = i mod 8"
  by (auto simp: bytemask_def bit_simps)

lemma cpr_bitsize_bound: "i < n \<Longrightarrow> i div 8 < cpr_bitsize n"
  by (auto simp: cpr_bitsize_def Let_def)

lemma cpr_bitsize_alt: "cpr_bitsize n = (n + 7) div 8"
  by (auto simp: cpr_bitsize_def Let_def) presburger+

subsection \<open>The interface: a set of offsets\<close>

locale bit_store =
  fixes getb :: "'s \<Rightarrow> nat \<Rightarrow> bool option"
    and setb :: "'s \<Rightarrow> nat \<Rightarrow> 's option"
    and clrb :: "'s \<Rightarrow> nat \<Rightarrow> 's option"
  assumes set_law: "getb s i \<noteq> None \<Longrightarrow> \<exists>s'. setb s i = Some s' \<and> getb s' = (getb s)(i \<mapsto> True)"
    and clr_law: "getb s i \<noteq> None \<Longrightarrow> \<exists>s'. clrb s i = Some s' \<and> getb s' = (getb s)(i \<mapsto> False)"

datatype bit_op = Set_Bit nat | Clear_Bit nat

primrec bit_index :: "bit_op \<Rightarrow> nat" where
  "bit_index (Set_Bit i) = i"
| "bit_index (Clear_Bit i) = i"

fun bit_run :: "('s \<Rightarrow> nat \<Rightarrow> 's option) \<Rightarrow> ('s \<Rightarrow> nat \<Rightarrow> 's option) \<Rightarrow> 's \<Rightarrow> bit_op list \<Rightarrow> 's option" where
  "bit_run setb clrb s [] = Some s"
| "bit_run setb clrb s (Set_Bit i # ops) = do { s \<leftarrow> setb s i; bit_run setb clrb s ops }"
| "bit_run setb clrb s (Clear_Bit i # ops) = do { s \<leftarrow> clrb s i; bit_run setb clrb s ops }"

fun set_run :: "nat set \<Rightarrow> bit_op list \<Rightarrow> nat set" where
  "set_run A [] = A"
| "set_run A (Set_Bit i # ops) = set_run (insert i A) ops"
| "set_run A (Clear_Bit i # ops) = set_run (A - {i}) ops"

context bit_store
begin

lemma run_refines:
  assumes "\<forall>op \<in> set ops. getb s (bit_index op) \<noteq> None"
    and "\<forall>i. getb s i = None \<or> getb s i = Some (i \<in> A)"
  shows "\<exists>s'. bit_run setb clrb s ops = Some s' \<and>
    (\<forall>i. getb s' i = (if getb s i = None then None else Some (i \<in> set_run A ops)))"
  using assms
proof (induction ops arbitrary: s A)
  case Nil
  then show ?case by force
next
  case (Cons x ops)
  show ?case
  proof (cases x)
    case (Set_Bit i)
    with Cons.prems obtain s' where s': "setb s i = Some s'" "getb s' = (getb s)(i \<mapsto> True)"
      using set_law [of s i] by auto
    have "\<exists>s''. bit_run setb clrb s' ops = Some s'' \<and>
      (\<forall>j. getb s'' j = (if getb s' j = None then None else Some (j \<in> set_run (insert i A) ops)))"
      using Cons.prems s'(2) by (intro Cons.IH) auto
    then show ?thesis using Set_Bit s' Cons.prems(1) by auto
  next
    case (Clear_Bit i)
    with Cons.prems obtain s' where s': "clrb s i = Some s'" "getb s' = (getb s)(i \<mapsto> False)"
      using clr_law [of s i] by auto
    have "\<exists>s''. bit_run setb clrb s' ops = Some s'' \<and>
      (\<forall>j. getb s'' j = (if getb s' j = None then None else Some (j \<in> set_run (A - {i}) ops)))"
      using Cons.prems s'(2) by (intro Cons.IH) auto
    then show ?thesis using Clear_Bit s' Cons.prems(1) by auto
  qed
qed

end

lemma same_byte_other_bit: "i \<noteq> j \<Longrightarrow> i div 8 = j div 8 \<Longrightarrow> i mod 8 \<noteq> j mod (8 :: nat)"
  by (metis div_mult_mod_eq)

interpretation bits: bit_store "\<lambda>h. cpr_bitget h (Ptr b k)" "\<lambda>h. cpr_bitset h (Ptr b k)"
  "\<lambda>h. cpr_bitclr h (Ptr b k)" for b k
proof
  fix h i
  assume "cpr_bitget h (Ptr b k) i \<noteq> None"
  then obtain x where x: "load h (Ptr b (k + i div 8)) = Some x" by (auto simp: cpr_bitget_def bind_eq_Some_conv)
  have st: "\<exists>h'. store h (Ptr b (k + i div 8)) v = Some h'" for v
    using x store_defined [of h "Ptr b (k + i div 8)" v] by simp
  from st [of "x OR bytemask i"] obtain h1 where h1: "store h (Ptr b (k + i div 8)) (x OR bytemask i) = Some h1" ..
  then have "cpr_bitget h1 (Ptr b k) = (cpr_bitget h (Ptr b k))(i \<mapsto> True)"
    using x by (intro ext)
      (auto simp: cpr_bitget_def load_store [OF h1] and_bytemask bit_or_iff bit_bytemask dest: same_byte_other_bit)
  with h1 x show "\<exists>h'. cpr_bitset h (Ptr b k) i = Some h' \<and>
      cpr_bitget h' (Ptr b k) = (cpr_bitget h (Ptr b k))(i \<mapsto> True)"
    by (simp add: cpr_bitset_def)
  from st [of "x AND NOT (bytemask i)"] obtain h2
    where h2: "store h (Ptr b (k + i div 8)) (x AND NOT (bytemask i)) = Some h2" ..
  then have "cpr_bitget h2 (Ptr b k) = (cpr_bitget h (Ptr b k))(i \<mapsto> False)"
    using x by (intro ext)
      (auto simp: cpr_bitget_def load_store [OF h2] and_bytemask bit_and_iff bit_not_iff bit_bytemask
        dest: same_byte_other_bit)
  with h2 x show "\<exists>h'. cpr_bitclr h (Ptr b k) i = Some h' \<and>
      cpr_bitget h' (Ptr b k) = (cpr_bitget h (Ptr b k))(i \<mapsto> False)"
    by (simp add: cpr_bitclr_def)
qed

lemma cpr_bitget_block:
  "hblk h b = Some bs \<Longrightarrow> k + i div 8 < length bs \<Longrightarrow>
   cpr_bitget h (Ptr b k) i = Some (bit (bs ! (k + i div 8)) (i mod 8))"
  by (simp add: cpr_bitget_def mem_simps and_bytemask)

lemma cpr_makebits_zero:
  assumes "heap_ok h" and "hgrant h (hseq h) (cpr_bitsize n)"
  obtains h' where "cpr_makebits h n = Some (Ptr (hseq h) 0, h')"
    and "hblk h' = (hblk h)(hseq h \<mapsto> replicate (cpr_bitsize n) 0)" and "heap_ok h'"
proof -
  obtain h1 junk where m: "c_malloc h (cpr_bitsize n) = (Ptr (hseq h) 0, h1)"
      "length junk = cpr_bitsize n" "hblk h1 = (hblk h)(hseq h \<mapsto> junk)" "heap_ok h1"
    using c_malloc_granted [OF assms] by metis
  let ?h = "put_block h1 (hseq h) (replicate (cpr_bitsize n) 0)"
  have "hseq h < hseq h1" using m(3,4) by (auto intro: heap_ok_live)
  then have "heap_ok ?h" by (rule heap_ok_put_block [OF m(4)])
  moreover have "cpr_makebits h n = Some (Ptr (hseq h) 0, ?h)"
    using m cpr_memset_whole [of h1 "hseq h" junk 0] by (simp add: cpr_makebits_def)
  ultimately show ?thesis using m(3) that by simp
qed

subsection \<open>Counting\<close>

lemma card_bits_blocks:
  "card {i. i < 8 * m \<and> bit (f (i div 8) :: byte) (i mod 8)} = (\<Sum>j<m. card {i. bit (f j) i})"
proof (induction m)
  case (Suc m)
  let ?A = "{i. i < 8 * m \<and> bit (f (i div 8)) (i mod 8)}"
  let ?B = "(\<lambda>i. 8 * m + i) ` {i. bit (f m) i}"
  have lt: "i < 8" if "bit (f j) i" for i j using bit_imp_le_length [OF that] by simp
  have "{i. i < 8 * Suc m \<and> bit (f (i div 8)) (i mod 8)} = ?A \<union> ?B" (is "?L = _")
  proof
    show "?L \<subseteq> ?A \<union> ?B"
    proof
      fix i assume i: "i \<in> ?L"
      show "i \<in> ?A \<union> ?B"
      proof (cases "i < 8 * m")
        case False
        with i have "i div 8 = m" by auto
        with i have "i = 8 * m + i mod 8" "bit (f m) (i mod 8)" by auto
        then show ?thesis by blast
      qed (use i in simp)
    qed
    show "?A \<union> ?B \<subseteq> ?L" using lt by (auto dest: lt)
  qed
  moreover have "?A \<inter> ?B = {}" by auto
  moreover have "finite ?A" by (rule finite_subset [of _ "{..<8 * m}"]) auto
  moreover have "card ?B = card {i. bit (f m) i}" by (intro card_image inj_onI) simp
  ultimately show ?case using Suc by (simp add: card_Un_disjoint finite_bits)
qed simp

lemma bitcount_loop_sum:
  "hblk h b = Some bs \<Longrightarrow> k + i + m \<le> length bs \<Longrightarrow>
   bitcount_loop h (Ptr b k) i m tot = Some (tot + (\<Sum>j<m. card {x. bit (bs ! (k + i + j)) x}))"
proof (induction m arbitrary: i tot)
  case (Suc m)
  then have "bitcount_loop h (Ptr b k) (i + 1) m (tot + count_bits (bs ! (k + i))) =
      Some (tot + count_bits (bs ! (k + i)) + (\<Sum>j<m. card {x. bit (bs ! (k + (i + 1) + j)) x}))"
    by (intro Suc.IH) auto
  with Suc.prems show ?case
    by (simp add: mem_simps count_bits_def count_bits_loop_card sum.lessThan_Suc_shift
        del: sum.lessThan_Suc)
qed simp

subsection \<open>Searching\<close>

lemma first_bit:
  assumes "(x :: byte) \<noteq> 0"
  shows "length (takeWhile (\<lambda>i. \<not> bit x i) [0..<8]) < 8"
    and "bit x (length (takeWhile (\<lambda>i. \<not> bit x i) [0..<8]))"
    and "j < length (takeWhile (\<lambda>i. \<not> bit x i) [0..<8]) \<Longrightarrow> \<not> bit x j"
proof -
  let ?n = "length (takeWhile (\<lambda>i. \<not> bit x i) [0..<8])"
  obtain i where "i < 8" "bit x i"
    using assms bit_imp_le_length [of x] by (auto simp: bit_eq_iff)
  then have "takeWhile (\<lambda>i. \<not> bit x i) [0..<8] \<noteq> [0..<8]"
    by (metis set_takeWhileD atLeastLessThan_iff le0 set_upt)
  then show n: "?n < 8"
    by (metis length_takeWhile_le length_upt diff_zero le_neq_implies_less takeWhile_eq_take take_all_iff)
  then show "bit x ?n" using nth_length_takeWhile [of "\<lambda>i. \<not> bit x i" "[0..<8]"] by simp
  show "\<not> bit x j" if "j < ?n"
    using that n takeWhile_nth [of j "\<lambda>i. \<not> bit x i" "[0..<8]"]
      nth_mem [of j "takeWhile (\<lambda>i. \<not> bit x i) [0..<8]"] by (auto dest: set_takeWhileD)
qed

lemma max_byte: "(0xFF :: byte) = - 1"
  by simp

lemma byte_bit_less: "bit (x :: byte) n \<Longrightarrow> n < 8"
  by (metis byte_high_bit not_less)

lemma byte_of_word32: "ucast (x :: byte) AND mask 8 = (ucast x :: 32 word)"
  "NOT (ucast x) AND mask 8 = (ucast (NOT x) :: 32 word)"
  by (auto intro!: bit_word_eqI simp: bit_simps dest: byte_bit_less)

definition lowest_spec :: "(nat \<Rightarrow> bool) \<Rightarrow> nat \<Rightarrow> nat \<Rightarrow> bool" where
  "lowest_spec P n r \<longleftrightarrow> r \<le> n \<and> (\<forall>j<r. \<not> P j) \<and> (r < n \<longrightarrow> P r)"

lemma lowestset_loop_spec:
  assumes "hblk h b = Some bs" and "k + i + m \<le> length bs" and "n \<le> 8 * (i + m)"
    and "\<forall>j < 8 * i. \<not> bit (bs ! (k + j div 8)) (j mod 8)"
  shows "\<exists>r. lowestset_loop h (Ptr b k) n i m = Some r \<and>
    lowest_spec (\<lambda>j. bit (bs ! (k + j div 8)) (j mod 8)) n r"
  using assms(2-)
proof (induction m arbitrary: i)
  case 0
  then show ?case by (auto simp: lowest_spec_def)
next
  case (Suc m)
  let ?x = "bs ! (k + i)"
  have ld: "load h (Ptr b (k + i)) = Some ?x" using Suc.prems(1) assms(1) by (simp add: mem_simps)
  show ?case
  proof (cases "?x = 0")
    case True
    have clr: "\<forall>j < 8 * (i + 1). \<not> bit (bs ! (k + j div 8)) (j mod 8)"
    proof (intro allI impI)
      fix j assume "j < 8 * (i + 1)"
      then consider "j < 8 * i" | "j div 8 = i" by fastforce
      then show "\<not> bit (bs ! (k + j div 8)) (j mod 8)" using Suc.prems(3) True by cases auto
    qed
    with Suc.IH [of "i + 1"] Suc.prems ld True show ?thesis by simp
  next
    case False
    let ?f = "length (takeWhile (\<lambda>i. \<not> bit ?x i) [0..<8])"
    note first = first_bit [OF False]
    have ffs: "c_ffs (ucast ?x) - 1 = ?f"
      using ffs_ucast [of "ucast ?x" ?x] False by (simp add: byte_of_word32)
    have below: "\<not> bit (bs ! (k + j div 8)) (j mod 8)" if "j < 8 * i + ?f" for j
    proof (cases "j < 8 * i")
      case True
      with Suc.prems(3) show ?thesis by simp
    next
      case False
      then obtain d where d: "j = 8 * i + d" by (metis le_iff_add not_less)
      with that have "d < ?f" by simp
      with first(1) first(3) [of d] d show ?thesis by simp
    qed
    have "bit (bs ! (k + (8 * i + ?f) div 8)) ((8 * i + ?f) mod 8)"
      using first(1,2) by simp
    with below ld False ffs show ?thesis
      by (auto simp: lowest_spec_def Let_def mult.commute)
  qed
qed

lemma lowestclr_loop_complement:
  "hblk h b = Some bs \<Longrightarrow> k + i + m \<le> length bs \<Longrightarrow>
   lowestclr_loop h (Ptr b k) n i m =
   lowestset_loop (put_block h b (map (\<lambda>x. NOT x) bs)) (Ptr b k) n i m"
proof (induction m arbitrary: i)
  case (Suc m)
  let ?x = "bs ! (k + i)"
  have eq: "?x = 0xFF \<longleftrightarrow> NOT ?x = 0"
    by (metis bit.compl_zero bit.double_compl max_byte)
  have "c_ffs (NOT (ucast ?x)) = c_ffs (ucast (NOT ?x))" if "NOT ?x \<noteq> 0"
    using that ffs_ucast [of "NOT (ucast ?x)" "NOT ?x"] ffs_ucast [of "ucast (NOT ?x)" "NOT ?x"]
    by (simp add: byte_of_word32)
  with Suc eq show ?case by (simp add: mem_simps)
qed simp


lemma any_nonzero:
  "hblk h b = Some bs \<Longrightarrow> k + m \<le> length bs \<Longrightarrow>
   anybits_loop h (Ptr b k) m = Some (\<exists>i<m. bs ! (k + i) \<noteq> 0)"
proof (induction m arbitrary: k)
  case (Suc m)
  then show ?case
    using Suc.IH [of "k + 1"] by (auto simp: mem_simps less_Suc_eq_0_disj)
qed simp

text \<open>
  C7. A fresh bit array of \<open>n\<close> bits implements the empty set of offsets below \<open>n\<close>:
  after any sequence of \<^verbatim>\<open>cpr_bitset\<close> and \<^verbatim>\<open>cpr_bitclr\<close> calls on offsets below \<open>n\<close>
  (none of which faults), \<^verbatim>\<open>cpr_bitget\<close> answers membership in the set that the same
  sequence of insertions and deletions gives.
\<close>

theorem bitset_implements_set:
  assumes "heap_ok h" and "hgrant h (hseq h) (cpr_bitsize n)"
    and "\<forall>op \<in> set ops. bit_index op < n"
  shows "\<exists>p h1 h2. cpr_makebits h n = Some (p, h1) \<and>
    bit_run (\<lambda>h. cpr_bitset h p) (\<lambda>h. cpr_bitclr h p) h1 ops = Some h2 \<and>
    (\<forall>i<n. cpr_bitget h2 p i = Some (i \<in> set_run {} ops))"
proof -
  let ?p = "Ptr (hseq h) 0"
  obtain h1 where h1: "cpr_makebits h n = Some (?p, h1)"
    and blk: "hblk h1 = (hblk h)(hseq h \<mapsto> replicate (cpr_bitsize n) 0)"
    using cpr_makebits_zero [OF assms(1,2)] by metis
  have get: "cpr_bitget h1 ?p i = Some False" if "i < n" for i
    using cpr_bitget_block [of h1 "hseq h" "replicate (cpr_bitsize n) 0" 0 i] blk
      cpr_bitsize_bound [OF that] by simp
  have "\<forall>i. cpr_bitget h1 ?p i = None \<or> cpr_bitget h1 ?p i = Some (i \<in> {})"
    using blk by (simp add: cpr_bitget_def load_def and_bytemask)
  moreover have "\<forall>op \<in> set ops. cpr_bitget h1 ?p (bit_index op) \<noteq> None"
    using get assms(3) by auto
  ultimately obtain h2 where "bit_run (\<lambda>h. cpr_bitset h ?p) (\<lambda>h. cpr_bitclr h ?p) h1 ops = Some h2"
    and "\<forall>i. cpr_bitget h2 ?p i =
      (if cpr_bitget h1 ?p i = None then None else Some (i \<in> set_run {} ops))"
    using bits.run_refines [of ops h1 "hseq h" 0 "{}"] by blast
  with h1 get show ?thesis by auto
qed

theorem bitset_implements_set_witness:
  "\<exists>p h1 h2. cpr_makebits (heap_of []) 80 = Some (p, h1) \<and>
     bit_run (\<lambda>h. cpr_bitset h p) (\<lambda>h. cpr_bitclr h p) h1 [Set_Bit 13, Set_Bit 3, Clear_Bit 13] = Some h2 \<and>
     cpr_bitget h2 p 3 = Some True \<and> cpr_bitget h2 p 13 = Some False"
proof -
  obtain p h1 h2 where r: "cpr_makebits (heap_of []) 80 = Some (p, h1)"
    "bit_run (\<lambda>h. cpr_bitset h p) (\<lambda>h. cpr_bitclr h p) h1 [Set_Bit 13, Set_Bit 3, Clear_Bit 13] = Some h2"
    "\<forall>i<80. cpr_bitget h2 p i = Some (i \<in> set_run {} [Set_Bit 13, Set_Bit 3, Clear_Bit 13])"
    using bitset_implements_set [of "heap_of []" 80 "[Set_Bit 13, Set_Bit 3, Clear_Bit 13]"] by auto
  then have "cpr_bitget h2 p 3 = Some True \<and> cpr_bitget h2 p 13 = Some False" by simp
  with r show ?thesis by blast
qed

text \<open>
  \<^verbatim>\<open>cpr_bitcount\<close> returns the number of set bits in the bytes of the array, that is
  the number of set offsets including the padding bits of the last byte;
  \<^verbatim>\<open>cpr_anybits\<close> tells whether there is one.
\<close>

theorem cpr_bitcount_card:
  assumes "hblk h b = Some bs" and "k + cpr_bitsize n \<le> length bs"
  shows "cpr_bitcount h (Ptr b k) n =
      Some (card {i. i < 8 * cpr_bitsize n \<and> cpr_bitget h (Ptr b k) i = Some True}) \<and>
    cpr_anybits h (Ptr b k) n =
      Some (\<exists>i < 8 * cpr_bitsize n. cpr_bitget h (Ptr b k) i = Some True)"
proof -
  let ?P = "\<lambda>i. bit (bs ! (k + i div 8)) (i mod 8)"
  have get: "cpr_bitget h (Ptr b k) i = Some (?P i)" if "i < 8 * cpr_bitsize n" for i
    using cpr_bitget_block [OF assms(1), of k i] that assms(2) by (simp add: less_mult_imp_div_less mult.commute)
  then have set: "{i. i < 8 * cpr_bitsize n \<and> cpr_bitget h (Ptr b k) i = Some True} =
      {i. i < 8 * cpr_bitsize n \<and> ?P i}" by auto
  have "cpr_bitcount h (Ptr b k) n = Some (card {i. i < 8 * cpr_bitsize n \<and> ?P i})"
    using bitcount_loop_sum [OF assms(1), of k 0 "cpr_bitsize n" 0] assms(2)
      card_bits_blocks [of "cpr_bitsize n" "\<lambda>j. bs ! (k + j)"]
    by (auto simp: cpr_bitcount_def cpr_bitsize_def)
  moreover have "(\<exists>i < cpr_bitsize n. bs ! (k + i) \<noteq> 0) \<longleftrightarrow> (\<exists>i < 8 * cpr_bitsize n. ?P i)"
  proof
    assume "\<exists>i < cpr_bitsize n. bs ! (k + i) \<noteq> 0"
    then obtain i where i: "i < cpr_bitsize n" "bs ! (k + i) \<noteq> 0" by blast
    then obtain j where j: "j < 8" "bit (bs ! (k + i)) j"
      using first_bit(1,2) by blast
    then have "8 * i + j < 8 * cpr_bitsize n" "?P (8 * i + j)" using i by simp_all
    then show "\<exists>i < 8 * cpr_bitsize n. ?P i" by blast
  next
    assume "\<exists>i < 8 * cpr_bitsize n. ?P i"
    then obtain i where "i < 8 * cpr_bitsize n" "?P i" by blast
    then have "i div 8 < cpr_bitsize n" "bs ! (k + i div 8) \<noteq> 0"
      by (auto simp: less_mult_imp_div_less mult.commute)
    then show "\<exists>i < cpr_bitsize n. bs ! (k + i) \<noteq> 0" by blast
  qed
  ultimately show ?thesis
    using any_nonzero [OF assms] get set by (auto simp: cpr_anybits_def)
qed

theorem cpr_bitcount_card_witness:
  "cpr_bitcount (heap_of [[0x07, 0x80]]) (Ptr 0 0) 10 =
     Some (card {i. i < 8 * cpr_bitsize 10 \<and> cpr_bitget (heap_of [[0x07, 0x80]]) (Ptr 0 0) i = Some True})"
  using cpr_bitcount_card [of "heap_of [[0x07, 0x80]]" 0 "[0x07, 0x80]" 0 10] by (simp add: cpr_bitsize_def)

text \<open>
  C33. \<^verbatim>\<open>cpr_lowestset\<close> and \<^verbatim>\<open>cpr_lowestclr\<close> return the least set, respectively clear,
  offset below \<open>n\<close>, and \<open>n\<close> when there is none: every smaller offset fails the test
  and a result below \<open>n\<close> passes it, padding bits never being reported.
\<close>

theorem cpr_lowest_least:
  assumes "hblk h b = Some bs" and "k + cpr_bitsize n \<le> length bs"
  shows "\<exists>r q. cpr_lowestset h (Ptr b k) n = Some r \<and>
      lowest_spec (\<lambda>i. cpr_bitget h (Ptr b k) i = Some True) n r \<and>
    cpr_lowestclr h (Ptr b k) n = Some q \<and>
      lowest_spec (\<lambda>i. cpr_bitget h (Ptr b k) i = Some False) n q"
proof -
  let ?P = "\<lambda>cs i. bit (cs ! (k + i div 8)) (i mod 8)"
  let ?cs = "map (\<lambda>x. NOT x) bs" let ?h = "put_block h b ?cs"
  have in_range: "k + i div 8 < length bs" if "i < n" for i
    using cpr_bitsize_bound [OF that] assms(2) by simp
  have get: "cpr_bitget h (Ptr b k) i = Some (?P bs i)" if "i < n" for i
    using cpr_bitget_block [OF assms(1)] in_range [OF that] by simp
  have n: "n \<le> 8 * (0 + cpr_bitsize n)" unfolding cpr_bitsize_alt by presburger
  obtain r where r: "lowestset_loop h (Ptr b k) n 0 (cpr_bitsize n) = Some r" "lowest_spec (?P bs) n r"
    using lowestset_loop_spec [OF assms(1), of k 0 "cpr_bitsize n" n] assms(2) n by auto
  obtain q where q: "lowestset_loop ?h (Ptr b k) n 0 (cpr_bitsize n) = Some q" "lowest_spec (?P ?cs) n q"
    using lowestset_loop_spec [of ?h b ?cs k 0 "cpr_bitsize n" n] assms(2) n by auto
  have "?P ?cs i \<longleftrightarrow> \<not> ?P bs i" if "i < n" for i
    using in_range [OF that] by (simp add: bit_not_iff)
  with r q get have "lowest_spec (\<lambda>i. cpr_bitget h (Ptr b k) i = Some True) n r"
    and "lowest_spec (\<lambda>i. cpr_bitget h (Ptr b k) i = Some False) n q"
    by (auto simp: lowest_spec_def)
  with r q show ?thesis
    using lowestclr_loop_complement [OF assms(1), of k 0 "cpr_bitsize n" n] assms(2)
    by (simp add: cpr_lowestset_def cpr_lowestclr_def)
qed

theorem cpr_lowest_least_witness:
  "\<exists>r. cpr_lowestset (heap_of [[0x00, 0x08]]) (Ptr 0 0) 12 = Some r \<and>
     lowest_spec (\<lambda>i. cpr_bitget (heap_of [[0x00, 0x08]]) (Ptr 0 0) i = Some True) 12 r"
  using cpr_lowest_least [of "heap_of [[0x00, 0x08]]" 0 "[0x00, 0x08]" 0 12] by (auto simp: cpr_bitsize_def)

subsection \<open>Masks\<close>

lemma makemask_loop_block:
  assumes "hblk h out = Some (pre @ rest)" and "length pre = pos" and "length rest = m"
    and "out \<noteq> b" and "out \<noteq> c"
    and "hblk h b = Some bs" and "k + pos + m \<le> length bs"
    and "hblk h c = Some ms" and "l + pos + m \<le> length ms"
  shows "makemask_loop h (Ptr out 0) (Ptr b k) (Ptr c l) pos m =
    Some (put_block h out (pre @ map (\<lambda>i. bs ! (k + pos + i) AND ms ! (l + pos + i)) [0..<m]))"
  using assms
proof (induction m arbitrary: h pre rest pos)
  case (Suc m)
  then obtain y rest' where rest: "rest = y # rest'" "length rest' = m" by (cases rest) auto
  let ?v = "bs ! (k + pos) AND ms ! (l + pos)"
  let ?h = "put_block h out ((pre @ [?v]) @ rest')"
  have "makemask_loop ?h (Ptr out 0) (Ptr b k) (Ptr c l) (pos + 1) m =
    Some (put_block ?h out ((pre @ [?v]) @
      map (\<lambda>i. bs ! (k + (pos + 1) + i) AND ms ! (l + (pos + 1) + i)) [0..<m]))"
    using Suc.prems rest by (intro Suc.IH) auto
  moreover have "store h (Ptr out pos) ?v = Some ?h"
    using Suc.prems rest by (auto simp: mem_simps)
  ultimately show ?case
    using Suc.prems by (simp add: mem_simps map_upt_Suc del: upt_Suc)
qed simp

lemma foldmask_loop_block:
  assumes "hblk h b = Some (pre @ rest @ post)" and "length pre = k + pos" and "length rest = m"
    and "b \<noteq> c" and "hblk h c = Some ms" and "pos + m \<le> length ms"
  shows "foldmask_loop h (Ptr b k) (Ptr c 0) pos m =
    Some (put_block h b (pre @ map (\<lambda>i. rest ! i AND NOT (ms ! (pos + i))) [0..<m] @ post))"
  using assms
proof (induction m arbitrary: h pre rest pos)
  case (Suc m)
  then obtain y rest' where rest: "rest = y # rest'" "length rest' = m" by (cases rest) auto
  let ?v = "y AND NOT (ms ! pos)"
  let ?h = "put_block h b ((pre @ [?v]) @ rest' @ post)"
  have "foldmask_loop ?h (Ptr b k) (Ptr c 0) (pos + 1) m =
    Some (put_block ?h b ((pre @ [?v]) @
      map (\<lambda>i. rest' ! i AND NOT (ms ! (pos + 1 + i))) [0..<m] @ post))"
    using Suc.prems rest by (intro Suc.IH) auto
  moreover have "load h (Ptr b (k + pos)) = Some y" and "store h (Ptr b (k + pos)) ?v = Some ?h"
    using Suc.prems rest by (auto simp: mem_simps simp flip: Suc.prems(2))
  ultimately show ?case
    using Suc.prems rest by (simp add: mem_simps map_upt_Suc del: upt_Suc)
qed simp

text \<open>
  \<^verbatim>\<open>cpr_makemask\<close> returns a fresh bit array that holds exactly the offsets set in
  both arrays and changes nothing else; \<^verbatim>\<open>cpr_foldmask\<close> removes from the first array
  the offsets set in the second, frees the second and changes nothing else.
\<close>

theorem bitset_masks:
  assumes "heap_ok h" and "hgrant h (hseq h) (cpr_bitsize n)" and "0 < n" and "b \<noteq> c"
    and "hblk h b = Some bs" and "k + cpr_bitsize n \<le> length bs"
    and "hblk h c = Some ms" and "cpr_bitsize n \<le> length ms"
  shows "\<exists>p h1 h2. cpr_makemask h (Ptr b k) (Ptr c 0) n = Some (p, h1) \<and>
      (\<forall>i<n. cpr_bitget h1 p i = Some (cpr_bitget h (Ptr b k) i = Some True \<and>
                                     cpr_bitget h (Ptr c 0) i = Some True)) \<and>
      (\<forall>d. d \<noteq> hseq h \<longrightarrow> hblk h1 d = hblk h d) \<and>
    cpr_foldmask h (Ptr b k) (Ptr c 0) n = Some h2 \<and>
      (\<forall>i<n. cpr_bitget h2 (Ptr b k) i = Some (cpr_bitget h (Ptr b k) i = Some True \<and>
                                             cpr_bitget h (Ptr c 0) i \<noteq> Some True)) \<and>
      hblk h2 c = None \<and> (\<forall>d. d \<noteq> b \<longrightarrow> d \<noteq> c \<longrightarrow> hblk h2 d = hblk h d)"
proof -
  let ?m = "cpr_bitsize n"
  obtain h1 where h1: "cpr_makebits h n = Some (Ptr (hseq h) 0, h1)"
    and blk: "hblk h1 = (hblk h)(hseq h \<mapsto> replicate ?m 0)"
    using cpr_makebits_zero [OF assms(1,2)] by metis
  have ne: "b \<noteq> hseq h" "c \<noteq> hseq h"
    using heap_ok_live [OF assms(1)] assms(5,7) by blast+
  let ?and = "map (\<lambda>i. bs ! (k + i) AND ms ! i) [0..<?m]"
  have "makemask_loop h1 (Ptr (hseq h) 0) (Ptr b k) (Ptr c 0) 0 ?m = Some (put_block h1 (hseq h) ?and)"
    using makemask_loop_block [of h1 "hseq h" "[]" "replicate ?m 0" 0 ?m b c bs k ms 0] blk ne assms
    by simp
  with h1 assms(3) have mm: "cpr_makemask h (Ptr b k) (Ptr c 0) n =
      Some (Ptr (hseq h) 0, put_block h1 (hseq h) ?and)"
    by (simp add: cpr_makemask_def)
  let ?fold = "take k bs @ map (\<lambda>i. take ?m (drop k bs) ! i AND NOT (ms ! i)) [0..<?m] @ drop (k + ?m) bs"
  have "bs = take k bs @ take ?m (drop k bs) @ drop (k + ?m) bs"
    by (metis append_take_drop_id drop_drop add.commute)
  then have "foldmask_loop h (Ptr b k) (Ptr c 0) 0 ?m = Some (put_block h b ?fold)"
    using foldmask_loop_block [of h b "take k bs" "take ?m (drop k bs)" "drop (k + ?m) bs" k 0 ?m c ms] assms
    by simp
  with assms have fm: "cpr_foldmask h (Ptr b k) (Ptr c 0) n =
      Some ((put_block h b ?fold)\<lparr>hblk := ((hblk h)(b \<mapsto> ?fold))(c := None)\<rparr>)"
    by (simp add: cpr_foldmask_def c_free_def)
  let ?h1 = "put_block h1 (hseq h) ?and"
  let ?h2 = "(put_block h b ?fold)\<lparr>hblk := ((hblk h)(b \<mapsto> ?fold))(c := None)\<rparr>"
  let ?B = "\<lambda>i. bit (bs ! (k + i div 8)) (i mod 8)" let ?C = "\<lambda>i. bit (ms ! (i div 8)) (i mod 8)"
  have get: "cpr_bitget h (Ptr b k) i = Some (?B i)" "cpr_bitget h (Ptr c 0) i = Some (?C i)"
    "cpr_bitget ?h1 (Ptr (hseq h) 0) i = Some (?B i \<and> ?C i)"
    "cpr_bitget ?h2 (Ptr b k) i = Some (?B i \<and> \<not> ?C i)" if "i < n" for i
  proof -
    have i: "i div 8 < ?m" by (rule cpr_bitsize_bound [OF that])
    show "cpr_bitget h (Ptr b k) i = Some (?B i)" "cpr_bitget h (Ptr c 0) i = Some (?C i)"
      using cpr_bitget_block [OF assms(5), of k i] cpr_bitget_block [OF assms(7), of 0 i] assms(6,8) i
      by simp_all
    show "cpr_bitget ?h1 (Ptr (hseq h) 0) i = Some (?B i \<and> ?C i)"
      using cpr_bitget_block [of ?h1 "hseq h" ?and 0 i] i by (simp add: bit_and_iff)
    have "?fold ! (k + i div 8) = bs ! (k + i div 8) AND NOT (ms ! (i div 8))"
      using i assms(6) by (simp add: nth_append)
    then show "cpr_bitget ?h2 (Ptr b k) i = Some (?B i \<and> \<not> ?C i)"
      using cpr_bitget_block [of ?h2 b ?fold k i] i assms(4,6) by (simp add: bit_and_iff bit_not_iff)
  qed
  have "\<forall>d. d \<noteq> hseq h \<longrightarrow> hblk ?h1 d = hblk h d" "hblk ?h2 c = None"
    "\<forall>d. d \<noteq> b \<longrightarrow> d \<noteq> c \<longrightarrow> hblk ?h2 d = hblk h d"
    using blk by simp_all
  moreover have "\<forall>i<n. cpr_bitget ?h1 (Ptr (hseq h) 0) i = Some (cpr_bitget h (Ptr b k) i = Some True \<and>
      cpr_bitget h (Ptr c 0) i = Some True)"
    "\<forall>i<n. cpr_bitget ?h2 (Ptr b k) i = Some (cpr_bitget h (Ptr b k) i = Some True \<and>
      cpr_bitget h (Ptr c 0) i \<noteq> Some True)"
    by (intro allI impI, simp only: get option.inject simp_thms)+
  ultimately show ?thesis using mm fm by blast
qed

theorem bitset_masks_witness:
  "\<exists>p h1 h2. cpr_makemask (heap_of [[0x0C], [0x06]]) (Ptr 0 0) (Ptr 1 0) 6 = Some (p, h1) \<and>
    (\<forall>i<6. cpr_bitget h1 p i = Some (cpr_bitget (heap_of [[0x0C], [0x06]]) (Ptr 0 0) i = Some True \<and>
                                     cpr_bitget (heap_of [[0x0C], [0x06]]) (Ptr 1 0) i = Some True)) \<and>
    cpr_foldmask (heap_of [[0x0C], [0x06]]) (Ptr 0 0) (Ptr 1 0) 6 = Some h2 \<and> hblk h2 1 = None"
proof -
  have "cpr_bitsize 6 = 1" by (simp add: cpr_bitsize_def)
  then show ?thesis
    using bitset_masks [of "heap_of [[0x0C], [0x06]]" 6 0 1 "[0x0C]" 0 "[0x06]"] by auto
qed

end
