(* ===== verification/Strchar.thy ===== *)
theory Strchar
  imports Memory
begin

text \<open>
  \<^verbatim>\<open>src/strchar.c\<close> and \<^verbatim>\<open>src/strchar.h\<close>: length-limited string operations on
  NUL-terminated strings in the store. Characters are bytes and the character
  classes and the collation are those of the C locale, where \<^verbatim>\<open>strcoll\<close> is
  \<^verbatim>\<open>strcmp\<close>. Functions that edit a string in place return the new heap, and the
  pointers the loops of the source move are the arguments of the loops here.
\<close>

subsection \<open>Length and copying\<close>

function strlen_loop :: "heap \<Rightarrow> ptr \<Rightarrow> size_t \<Rightarrow> size_t \<Rightarrow> size_t option" where
  "strlen_loop h s lim count = (case load h s of None \<Rightarrow> None
     | Some c \<Rightarrow> if c = 0 then Some count
                 else if count + 1 < lim then strlen_loop h (padd s 1) lim (count + 1)
                 else Some (count + 1))"
  by pat_completeness auto
termination
  by (relation "measure (\<lambda>(h, s, lim, count). block_rest h s)") (auto intro: block_rest_step)

declare strlen_loop.simps [simp del]

definition cpr_strlen :: "heap \<Rightarrow> ptr \<Rightarrow> size_t \<Rightarrow> size_t option" where
  "cpr_strlen h s lim = (if s = Null then Some 0 else strlen_loop h s lim 0)"

definition cpr_strcpy :: "heap \<Rightarrow> ptr \<Rightarrow> ptr \<Rightarrow> size_t \<Rightarrow> (ptr \<times> heap) option" where
  "cpr_strcpy h m s lim = do {
     sz \<leftarrow> cpr_strlen h s lim;
     if m = Null \<or> s = Null then Some (Null, h)
     else do {
       let sz = (if sz \<ge> lim then lim else sz);
       (_, h) \<leftarrow> cpr_memcpy h m lim s sz;
       h \<leftarrow> (if sz > 0 then store h (padd m (sz - 1)) 0 else Some h);
       Some (m, h) } }"

definition cpr_strcat :: "heap \<Rightarrow> ptr \<Rightarrow> ptr \<Rightarrow> size_t \<Rightarrow> (ptr \<times> heap) option" where
  "cpr_strcat h m s lim =
     (if m = Null \<or> s = Null then Some (Null, h)
      else do {
        offset \<leftarrow> cpr_strlen h m lim;
        if offset \<ge> lim then Some (Null, h)
        else cpr_strcpy h (padd m offset) s (lim - offset) })"

definition cpr_strdup :: "heap \<Rightarrow> ptr \<Rightarrow> size_t \<Rightarrow> (ptr \<times> heap) option" where
  "cpr_strdup h str lim =
     (if str = Null then Some (Null, h)
      else do {
        len \<leftarrow> cpr_strlen h str lim;
        let (out, h) = c_malloc h (sz_add len 1);
        if out = Null then Some (Null, h)
        else do {
          h \<leftarrow> (if len > 0 then c_memcpy h out str len else Some h);
          h \<leftarrow> store h (padd out len) 0;
          Some (out, h) } })"

text \<open>The copying loop of \<^verbatim>\<open>cpr_upper\<close> and \<^verbatim>\<open>cpr_lower\<close>, with the final terminator.\<close>

primrec case_loop :: "(byte \<Rightarrow> byte) \<Rightarrow> heap \<Rightarrow> ptr \<Rightarrow> ptr \<Rightarrow> nat \<Rightarrow> heap option" where
  "case_loop f h t s 0 = store h t 0"
| "case_loop f h t s (Suc n) = do {
     c \<leftarrow> load h s;
     h \<leftarrow> store h t (f c);
     case_loop f h (padd t 1) (padd s 1) n }"

definition cpr_upper :: "heap \<Rightarrow> ptr \<Rightarrow> size_t \<Rightarrow> (ptr \<times> heap) option" where
  "cpr_upper h s lim =
     (if s = Null then Some (Null, h)
      else do {
        sz \<leftarrow> cpr_strlen h s lim;
        let (t, h) = c_malloc h (sz_add sz 1);
        if t = Null then Some (Null, h)
        else do { h \<leftarrow> case_loop c_toupper h t s sz; Some (t, h) } })"

definition cpr_lower :: "heap \<Rightarrow> ptr \<Rightarrow> size_t \<Rightarrow> (ptr \<times> heap) option" where
  "cpr_lower h s lim =
     (if s = Null then Some (Null, h)
      else do {
        sz \<leftarrow> cpr_strlen h s lim;
        let (t, h) = c_malloc h (sz_add sz 1);
        if t = Null then Some (Null, h)
        else do { h \<leftarrow> case_loop c_tolower h t s sz; Some (t, h) } })"

text \<open>\<open>getenv\<close> is the process environment: the string a name is bound to, or null.\<close>

definition cpr_getenv :: "(heap \<Rightarrow> ptr \<Rightarrow> ptr) \<Rightarrow> heap \<Rightarrow> ptr \<Rightarrow> size_t \<Rightarrow> (ptr \<times> heap) option" where
  "cpr_getenv getenv h s lim = cpr_strdup h (getenv h s) lim"

subsection \<open>Comparison\<close>

definition cpr_equal :: "heap \<Rightarrow> ptr \<Rightarrow> ptr \<Rightarrow> bool option" where
  "cpr_equal h s1 s2 =
     (if s1 = s2 then Some True
      else if s1 = Null \<or> s2 = Null then Some False
      else do { r \<leftarrow> c_strcmp h s1 s2; Some (r = 0) })"

definition cpr_match :: "heap \<Rightarrow> ptr \<Rightarrow> ptr \<Rightarrow> bool option" where
  "cpr_match h s1 s2 =
     (if s1 = s2 then Some True
      else if s1 = Null \<or> s2 = Null then Some False
      else do { r \<leftarrow> c_strcasecmp h s1 s2; Some (r = 0) })"

definition cpr_order :: "heap \<Rightarrow> ptr \<Rightarrow> ptr \<Rightarrow> int option" where
  "cpr_order h s1 s2 =
     (if s1 = s2 then Some 0
      else if s1 = Null then Some (- 1)
      else if s2 = Null then Some 1
      else c_strcmp h s1 s2)"

definition eq :: "heap \<Rightarrow> ptr \<Rightarrow> ptr \<Rightarrow> bool option" where
  "eq h s1 s2 = cpr_equal h s1 s2"

definition match :: "heap \<Rightarrow> ptr \<Rightarrow> ptr \<Rightarrow> bool option" where
  "match h s1 s2 = cpr_match h s1 s2"

definition is_empty :: "heap \<Rightarrow> ptr \<Rightarrow> bool option" where
  "is_empty h str =
     (if str = Null then Some True else do { c \<leftarrow> load h str; Some (c = 0) })"

subsection \<open>Editing in place\<close>

text \<open>
  \<open>strhead_loop\<close> reads at \<open>tmp\<close>, ahead of where it writes, so the distance to the
  end of the block shrinks with every step.
\<close>

lemma block_rest_store: "store h p v = Some h' \<Longrightarrow> block_rest h' q = block_rest h q"
  by (elim store_SomeE) (auto simp: block_rest_def split: ptr.split)

function strhead_loop :: "heap \<Rightarrow> ptr \<Rightarrow> ptr \<Rightarrow> heap option" where
  "strhead_loop h str tmp = (case load h tmp of None \<Rightarrow> None
     | Some c \<Rightarrow> if c = 0 then store h str 0
                 else (case store h str c of None \<Rightarrow> None
                       | Some h' \<Rightarrow> strhead_loop h' (padd str 1) (padd tmp 1)))"
  by pat_completeness auto
termination
  by (relation "measure (\<lambda>(h, str, tmp). block_rest h tmp)")
    (auto simp: block_rest_store intro: block_rest_step)

declare strhead_loop.simps [simp del]

definition cpr_strhead :: "heap \<Rightarrow> ptr \<Rightarrow> size_t \<Rightarrow> size_t \<Rightarrow> (size_t \<times> heap) option" where
  "cpr_strhead h str lim count = do {
     len \<leftarrow> cpr_strlen h str lim;
     if str = Null then Some (0, h)
     else if count \<ge> len then do { h \<leftarrow> store h str 0; Some (0, h) }
     else do { h \<leftarrow> strhead_loop h str (padd str count); Some (len - count, h) } }"

definition cpr_strtail :: "heap \<Rightarrow> ptr \<Rightarrow> size_t \<Rightarrow> size_t \<Rightarrow> (size_t \<times> heap) option" where
  "cpr_strtail h str lim count = do {
     len \<leftarrow> cpr_strlen h str lim;
     if str = Null then Some (0, h)
     else if count \<ge> lim then Some (0, h)
     else if count \<ge> len then do { h \<leftarrow> store h str 0; Some (len, h) }
     else do { h \<leftarrow> store h (padd str count) 0; Some (count, h) } }"

text \<open>\<^verbatim>\<open>*p ^= *q\<close>\<close>

definition xor_assign :: "heap \<Rightarrow> ptr \<Rightarrow> ptr \<Rightarrow> heap option" where
  "xor_assign h p q = do { x \<leftarrow> load h p; y \<leftarrow> load h q; store h p (x XOR y) }"

text \<open>The two pointers of \<^verbatim>\<open>cpr_reverse\<close> are offsets \<open>i\<close> and \<open>j\<close> from \<^verbatim>\<open>str\<close>.\<close>

function reverse_loop :: "heap \<Rightarrow> ptr \<Rightarrow> nat \<Rightarrow> nat \<Rightarrow> heap option" where
  "reverse_loop h str i j =
     (if j > i then do {
        h \<leftarrow> xor_assign h (padd str i) (padd str j);
        h \<leftarrow> xor_assign h (padd str j) (padd str i);
        h \<leftarrow> xor_assign h (padd str i) (padd str j);
        reverse_loop h str (i + 1) (j - 1) }
      else Some h)"
  by pat_completeness auto
termination
  by (relation "measure (\<lambda>(h, str, i, j). j)") auto

declare reverse_loop.simps [simp del]

definition cpr_reverse :: "heap \<Rightarrow> ptr \<Rightarrow> (ptr \<times> heap) option" where
  "cpr_reverse h str =
     (if str = Null then Some (str, h)
      else do {
        c \<leftarrow> load h str;
        if c = 0 then Some (str, h)
        else do {
          n \<leftarrow> c_strlen h str;
          h \<leftarrow> reverse_loop h str 0 (n - 1);
          Some (str, h) } })"

text \<open>A \<^verbatim>\<open>long\<close> is an integer in its 64-bit range; negating its minimum overflows.\<close>

definition long_min :: int where
  "long_min = - (2 ^ 63)"

function strlong_loop :: "heap \<Rightarrow> ptr \<Rightarrow> ptr \<Rightarrow> int \<Rightarrow> (ptr \<times> heap) option" where
  "strlong_loop h r e v =
     (if v > 0 \<and> r < e
      then (case store h r (word_of_int (v mod 10 + 48)) of None \<Rightarrow> None
            | Some h' \<Rightarrow> strlong_loop h' (padd r 1) e (v div 10))
      else Some (r, h))"
  by pat_completeness auto
termination
  by (relation "measure (\<lambda>(h, r, e, v). nat v)") auto

declare strlong_loop.simps [simp del]

definition cpr_strlong :: "heap \<Rightarrow> int \<Rightarrow> ptr \<Rightarrow> size_t \<Rightarrow> (ptr \<times> heap) option" where
  "cpr_strlong h v p s =
     (if s < 2 then Some (Null, h)
      else do {
        let e = padd p (s - 1);
        let out = p;
        if v = 0 then do {
          h \<leftarrow> store h p 48;
          h \<leftarrow> store h (padd p 1) 0;
          Some (out, h) }
        else do {
          (p, v, h) \<leftarrow>
            (if v < 0 then do {
               h \<leftarrow> store h p 45;
               if v = long_min then None else Some (padd p 1, - v, h) }
             else Some (p, v, h));
          (r, h) \<leftarrow> strlong_loop h p e v;
          if r = e then Some (Null, h)
          else do {
            h \<leftarrow> store h r 0;
            (_, h) \<leftarrow> cpr_reverse h p;
            Some (out, h) } } })"

primrec strtrim_loop :: "heap \<Rightarrow> ptr \<Rightarrow> ptr \<Rightarrow> nat \<Rightarrow> ptr option" where
  "strtrim_loop h str ls 0 = do { c \<leftarrow> load h str; Some str }"
| "strtrim_loop h str ls (Suc n) = do {
     c \<leftarrow> load h str;
     if c = 0 then Some str
     else do {
       q \<leftarrow> c_strchr h ls c;
       if q = Null then Some str else strtrim_loop h (padd str 1) ls n } }"

definition cpr_strtrim :: "heap \<Rightarrow> ptr \<Rightarrow> ptr \<Rightarrow> size_t \<Rightarrow> ptr option" where
  "cpr_strtrim h str ls lim =
     (if str = Null then Some Null
      else if ls = Null then Some str
      else do {
        l0 \<leftarrow> load h ls;
        if l0 = 0 then Some str
        else do {
          len \<leftarrow> cpr_strlen h str (sz_sub lim 1);
          strtrim_loop h str ls len } })"

text \<open>
  \<open>strchop_loop h str ls n\<close> is the loop with \<^verbatim>\<open>end = str + n\<close>. The decrement that
  leaves the string only feeds the comparison \<^verbatim>\<open>end >= str\<close>, which then fails.
\<close>

primrec strchop_loop :: "heap \<Rightarrow> ptr \<Rightarrow> ptr \<Rightarrow> nat \<Rightarrow> heap option" where
  "strchop_loop h str ls 0 = Some h"
| "strchop_loop h str ls (Suc n) = do {
     c \<leftarrow> load h (padd str n);
     q \<leftarrow> c_strchr h ls c;
     if q = Null then Some h
     else do { h \<leftarrow> store h (padd str n) 0; strchop_loop h str ls n } }"

definition cpr_strchop :: "heap \<Rightarrow> ptr \<Rightarrow> ptr \<Rightarrow> size_t \<Rightarrow> (ptr \<times> heap) option" where
  "cpr_strchop h str ls lim =
     (if str = Null then Some (Null, h)
      else if ls = Null then Some (str, h)
      else do {
        l0 \<leftarrow> load h ls;
        if l0 = 0 then Some (str, h)
        else do {
          n \<leftarrow> cpr_strlen h str (sz_sub lim 1);
          h \<leftarrow> strchop_loop h str ls n;
          Some (str, h) } })"

subsection \<open>Length\<close>

text \<open>
  The part of a string a call with limit \<open>lim\<close> looks at. The loop counts a byte
  before it compares, so a limit of 0 acts as 1.
\<close>

definition clip :: "size_t \<Rightarrow> byte list \<Rightarrow> byte list" where
  "clip lim s = take (max 1 lim) s"

lemma clip_all [simp]: "length s \<le> lim \<Longrightarrow> clip lim s = s"
  by (simp add: clip_def)

lemma length_clip: "length (clip lim s) = min (length s) (max 1 lim)"
  by (simp add: clip_def)

lemma clip_nonzero: "0 \<notin> set s \<Longrightarrow> 0 \<notin> set (clip lim s)"
  by (auto simp: clip_def dest: in_set_takeD)

lemma clip_split: "s = clip lim s @ drop (max 1 lim) s"
  by (simp add: clip_def)

lemma strlen_loop_block:
  assumes "hblk h b = Some (pre @ bs)" and "length pre = k" and "count < max 1 lim"
    and "max 1 lim \<le> count + length bs \<or> 0 \<in> set bs"
  shows "strlen_loop h (Ptr b k) lim count =
    Some (count + length (takeWhile (\<lambda>c. c \<noteq> 0) (take (max 1 lim - count) bs)))"
  using assms
proof (induction bs arbitrary: pre k count)
  case Nil
  then show ?case by (auto simp: max_def split: if_splits)
next
  case (Cons c bs)
  have ld: "load h (Ptr b k) = Some c" using Cons.prems by (auto simp: mem_simps)
  obtain m where m: "max 1 lim - count = Suc m" using Cons.prems(3) by (cases "max 1 lim - count") auto
  show ?case
  proof (cases "c \<noteq> 0 \<and> count + 1 < lim")
    case True
    have "strlen_loop h (Ptr b (k + 1)) lim (count + 1) =
        Some (count + 1 + length (takeWhile (\<lambda>c. c \<noteq> 0) (take (max 1 lim - (count + 1)) bs)))"
      using Cons.prems True by (intro Cons.IH [of "pre @ [c]"]) auto
    moreover have "max 1 lim - (count + 1) = m" using m by simp
    ultimately show ?thesis using ld True m by (subst strlen_loop.simps) simp
  next
    case False
    then have "c = 0 \<or> m = 0" using m by auto
    with False ld m show ?thesis by (subst strlen_loop.simps) auto
  qed
qed

lemma cpr_strlen_cstr:
  assumes "cstr h p s"
  shows "cpr_strlen h p lim = Some (length (clip lim s))"
proof -
  from assms obtain b k where p: "p = Ptr b k" by (cases p) (auto dest: cstr_not_Null)
  with assms obtain pre post where b: "hblk h b = Some (pre @ s @ 0 # post)" "length pre = k"
    by (auto elim: cstr_block)
  have "takeWhile (\<lambda>c. c \<noteq> 0) (take n (s @ 0 # post)) = take n s" for n
    using cstr_nonzero [OF assms]
    by (cases "n \<le> length s") (auto simp: takeWhile_eq_all_conv dest: in_set_takeD
        intro: take_while_nonzero split: if_splits simp: take_Cons')
  with b p show ?thesis
    using strlen_loop_block [OF b(1) b(2), of 0 lim] by (simp add: cpr_strlen_def clip_def)
qed


subsection \<open>Duplication\<close>

text \<open>
  The contract of the functions that return a fresh copy of a string, with \<open>f\<close>
  applied to every character: null and a refused allocation give null, and a
  granted one gives a new block that holds the copy and its terminator, every
  other block untouched.
\<close>

locale str_dup =
  fixes dup :: "heap \<Rightarrow> ptr \<Rightarrow> size_t \<Rightarrow> (ptr \<times> heap) option"
    and f :: "byte \<Rightarrow> byte"
  assumes dup_null: "dup h Null lim = Some (Null, h)"
    and dup_denied: "cstr h p s \<Longrightarrow> length s + 1 < 2 ^ 64 \<Longrightarrow>
      \<not> hgrant h (hseq h) (length (clip lim s) + 1) \<Longrightarrow>
      dup h p lim = Some (Null, h\<lparr>hseq := Suc (hseq h)\<rparr>)"
    and dup_granted: "heap_ok h \<Longrightarrow> cstr h p s \<Longrightarrow> length s + 1 < 2 ^ 64 \<Longrightarrow>
      hgrant h (hseq h) (length (clip lim s) + 1) \<Longrightarrow>
      \<exists>h'. dup h p lim = Some (Ptr (hseq h) 0, h') \<and> heap_ok h' \<and> hgrant h' = hgrant h \<and>
        hblk h' = (hblk h)(hseq h \<mapsto> map f (clip lim s) @ [0])"
    and f_nonzero: "c \<noteq> 0 \<Longrightarrow> f c \<noteq> 0"
begin

lemma dup_string:
  assumes "heap_ok h" and "cstr h p s" and "length s + 1 < 2 ^ 64"
    and "hgrant h (hseq h) (length (clip lim s) + 1)"
  obtains q h' where "dup h p lim = Some (q, h')" and "heap_ok h'" and "hgrant h' = hgrant h"
    and "cstr h' q (map f (clip lim s))" and "\<And>r t. cstr h r t \<Longrightarrow> cstr h' r t \<and> r \<noteq> q"
    and "\<exists>h''. c_free h' q = Some h'' \<and> hblk h'' = hblk h"
proof -
  from dup_granted [OF assms] obtain h' where h': "dup h p lim = Some (Ptr (hseq h) 0, h')" "heap_ok h'" "hgrant h' = hgrant h"
    and blk: "hblk h' = (hblk h)(hseq h \<mapsto> map f (clip lim s) @ [0])" by blast
  have "0 \<notin> set (map f (clip lim s))"
    using clip_nonzero [OF cstr_nonzero [OF assms(2)], of lim] by (auto simp: image_iff) (metis f_nonzero)
  with blk have "cstr h' (Ptr (hseq h) 0) (map f (clip lim s))"
    by (intro cstr_mid [where pre = "[]" and post = "[]"]) auto
  moreover have "cstr h' r t \<and> r \<noteq> Ptr (hseq h) 0" if r: "cstr h r t" for r t
  proof -
    obtain b k where bk: "r = Ptr b k" using cstr_not_Null [OF r] by (cases r) auto
    with r obtain pre post where b: "hblk h b = Some (pre @ t @ 0 # post)" "length pre = k"
      by (auto elim: cstr_block)
    from b(1) have "b \<noteq> hseq h" using heap_ok_live [OF assms(1)] by blast
    with b blk bk cstr_nonzero [OF r] show ?thesis by (auto intro: cstr_mid)
  qed
  moreover have "c_free h' (Ptr (hseq h) 0) = Some (h'\<lparr>hblk := hblk h\<rparr>)"
    using blk assms(1) by (simp add: c_free_def heap_ok_def fun_upd_idem)
  ultimately show ?thesis using h' that by auto
qed

end

text \<open>Two such functions run one after the other.\<close>

locale str_dup_twice = one: str_dup dup f + two: str_dup dup' g
  for dup f dup' g
begin

lemma dup_dup:
  assumes "heap_ok h" and "cstr h p s" and "length s + 1 < 2 ^ 64" and "\<forall>n m. hgrant h n m"
  shows "\<exists>q h1 r h2. dup h p lim = Some (q, h1) \<and> dup' h1 q lim' = Some (r, h2) \<and>
    cstr h2 p s \<and> cstr h2 r (map (g \<circ> f) (clip lim' (clip lim s)))"
proof -
  obtain q h1 where d1: "dup h p lim = Some (q, h1)" "heap_ok h1" "cstr h1 q (map f (clip lim s))"
      "cstr h1 p s" "hgrant h1 = hgrant h"
    using one.dup_string [OF assms(1-3), of lim] assms(2,4) by metis
  then have "hgrant h1 n m" for n m using assms(4) by simp
  moreover have "length (map f (clip lim s)) + 1 < 2 ^ 64" using assms(3) by (simp add: length_clip)
  ultimately obtain r h2 where "dup' h1 q lim' = Some (r, h2)" "cstr h2 p s"
      "cstr h2 r (map g (clip lim' (map f (clip lim s))))"
    using two.dup_string [OF d1(2,3), of lim'] d1(4) by metis
  with d1(1) show ?thesis by (auto simp: clip_def take_map)
qed

end


lemma c_malloc_denied: "\<not> hgrant h (hseq h) n \<Longrightarrow> c_malloc h n = (Null, h\<lparr>hseq := Suc (hseq h)\<rparr>)"
  by (simp add: c_malloc_def)

lemma hgrant_malloc [simp]: "hgrant (snd (c_malloc h n)) = hgrant h"
  by (simp add: c_malloc_def)

lemma clip_range: "length s + 1 < 2 ^ 64 \<Longrightarrow> sz_add (length (clip lim s)) (Suc 0) = Suc (length (clip lim s))"
  by (simp add: size_simps length_clip)

text \<open>A clipped string in its block, and a fresh block for its copy.\<close>

lemma dup_setup:
  assumes "heap_ok h" and "cstr h p s" and "hgrant h (hseq h) (length (clip lim s) + 1)"
  obtains b k pre post h' junk x where "p = Ptr b k" and "length pre = k" and "b \<noteq> hseq h"
    and "c_malloc h (length (clip lim s) + 1) = (Ptr (hseq h) 0, h')" and "heap_ok h'"
    and "hgrant h' = hgrant h" and "hseq h' = Suc (hseq h)" and "length junk = length (clip lim s)"
    and "hblk h b = Some (pre @ clip lim s @ post)"
    and "hblk h' = (hblk h)(hseq h \<mapsto> junk @ [x])"
proof -
  obtain b k where p: "p = Ptr b k" using cstr_not_Null [OF assms(2)] by (cases p) auto
  with assms(2) obtain pre post where b: "hblk h b = Some (pre @ s @ 0 # post)" "length pre = k"
    by (auto elim: cstr_block)
  obtain h' bs where m: "c_malloc h (length (clip lim s) + 1) = (Ptr (hseq h) 0, h')"
      "length bs = length (clip lim s) + 1" "hblk h' = (hblk h)(hseq h \<mapsto> bs)" "heap_ok h'"
      "b \<noteq> hseq h"
    using c_malloc_granted [OF assms(1,3)] b(1) by metis
  from m(2) obtain junk x where "bs = junk @ [x]" "length junk = length (clip lim s)"
    by (cases bs rule: rev_cases) auto
  moreover have "hseq h' = Suc (hseq h)" "hgrant h' = hgrant h"
    using m(1) assms(3) by (auto simp: c_malloc_def)
  ultimately show ?thesis
    using that [of b k pre h' junk "drop (max 1 lim) s @ 0 # post" x] m b p clip_split [of s lim]
    by (metis append_assoc)
qed

interpretation sdup: str_dup cpr_strdup "\<lambda>c. c"
proof
  fix h p s lim
  assume s: "cstr h p s" "length s + 1 < 2 ^ 64"
  show "cpr_strdup h p lim = Some (Null, h\<lparr>hseq := Suc (hseq h)\<rparr>)"
    if "\<not> hgrant h (hseq h) (length (clip lim s) + 1)"
    using s that cstr_not_Null [OF s(1)]
    by (simp add: cpr_strdup_def cpr_strlen_cstr [OF s(1)] clip_range c_malloc_denied)
  assume h: "heap_ok h" and g: "hgrant h (hseq h) (length (clip lim s) + 1)"
  obtain b k pre post h' junk x where a: "p = Ptr b k" "length pre = k" "b \<noteq> hseq h"
    "c_malloc h (length (clip lim s) + 1) = (Ptr (hseq h) 0, h')" "heap_ok h'"
    "hgrant h' = hgrant h" "hseq h' = Suc (hseq h)" "length junk = length (clip lim s)"
    "hblk h b = Some (pre @ clip lim s @ post)" "hblk h' = (hblk h)(hseq h \<mapsto> junk @ [x])"
    using dup_setup [OF h s(1) g] by metis
  let ?h = "put_block h' (hseq h) (clip lim s @ [x])"
  have "c_memcpy h' (Ptr (hseq h) 0) p (length (clip lim s)) = Some ?h"
    using a by (simp add: c_memcpy_def c_memmove_def load_list_mid [of h' b pre _ post]
        store_list_mid [of h' "hseq h" "[]" junk "[x]"])
  then have "(if 0 < length (clip lim s) then c_memcpy h' (Ptr (hseq h) 0) p (length (clip lim s))
      else Some h') = Some ?h"
    using a by (auto simp: put_block_def)
  then have "cpr_strdup h p lim = Some (Ptr (hseq h) 0, put_block h' (hseq h) (clip lim s @ [0]))"
    using a(2-) s cstr_not_Null [OF s(1)] cpr_strlen_cstr [OF s(1), of lim]
    by (simp add: cpr_strdup_def clip_range store_Ptr del: length_greater_0_conv)
  with a show "\<exists>h'. cpr_strdup h p lim = Some (Ptr (hseq h) 0, h') \<and> heap_ok h' \<and>
      hgrant h' = hgrant h \<and> hblk h' = (hblk h)(hseq h \<mapsto> map (\<lambda>c. c) (clip lim s) @ [0])"
    by (auto intro: heap_ok_put_block)
qed (simp_all add: cpr_strdup_def)

lemma case_loop_mid:
  assumes "hblk h b = Some (pre @ cs @ post)" and "length pre = k" and "b \<noteq> d"
    and "hblk h d = Some (pre' @ old @ [x])" and "length pre' = l" and "length old = length cs"
  shows "case_loop f h (Ptr d l) (Ptr b k) (length cs) = Some (put_block h d (pre' @ map f cs @ [0]))"
  using assms
proof (induction cs arbitrary: h pre k pre' l old)
  case Nil
  then show ?case by (auto simp: mem_simps)
next
  case (Cons c cs)
  then obtain y old' where old: "old = y # old'" "length old' = length cs" by (cases old) auto
  let ?h = "put_block h d ((pre' @ [f c]) @ old' @ [x])"
  have "case_loop f ?h (Ptr d (l + 1)) (Ptr b (k + 1)) (length cs) =
      Some (put_block ?h d ((pre' @ [f c]) @ map f cs @ [0]))"
    using Cons.prems old by (intro Cons.IH [of _ "pre @ [c]" _ _ old']) auto
  moreover have "store h (Ptr d l) (f c) = Some ?h" "load h (Ptr b k) = Some c"
    using Cons.prems old by (auto simp: mem_simps)
  ultimately show ?case by simp
qed

text \<open>\<^verbatim>\<open>cpr_upper\<close> and \<^verbatim>\<open>cpr_lower\<close> differ in the character function only.\<close>

lemma case_dup:
  assumes "\<And>h p lim. dup h p lim = (if p = Null then Some (Null, h) else do {
        sz \<leftarrow> cpr_strlen h p lim;
        let (t, h) = c_malloc h (sz_add sz 1);
        if t = Null then Some (Null, h)
        else do { h \<leftarrow> case_loop f h t p sz; Some (t, h) } })"
    and "\<And>c. c \<noteq> 0 \<Longrightarrow> f c \<noteq> 0"
  shows "str_dup dup f"
proof
  fix h p s lim
  assume s: "cstr h p s" "length s + 1 < 2 ^ 64"
  show "dup h p lim = Some (Null, h\<lparr>hseq := Suc (hseq h)\<rparr>)"
    if "\<not> hgrant h (hseq h) (length (clip lim s) + 1)"
    using s that cstr_not_Null [OF s(1)]
    by (simp add: assms(1) cpr_strlen_cstr [OF s(1)] clip_range c_malloc_denied)
  assume h: "heap_ok h" and g: "hgrant h (hseq h) (length (clip lim s) + 1)"
  obtain b k pre post h' junk x where a: "p = Ptr b k" "length pre = k" "b \<noteq> hseq h"
    "c_malloc h (length (clip lim s) + 1) = (Ptr (hseq h) 0, h')" "heap_ok h'"
    "hgrant h' = hgrant h" "hseq h' = Suc (hseq h)" "length junk = length (clip lim s)"
    "hblk h b = Some (pre @ clip lim s @ post)" "hblk h' = (hblk h)(hseq h \<mapsto> junk @ [x])"
    using dup_setup [OF h s(1) g] by metis
  have "dup h p lim = Some (Ptr (hseq h) 0, put_block h' (hseq h) (map f (clip lim s) @ [0]))"
    using a s case_loop_mid [of h' b pre "clip lim s" post k "hseq h" "[]" junk x 0 f]
      cpr_strlen_cstr [OF s(1), of lim]
    by (simp add: assms(1) clip_range)
  with a show "\<exists>h'. dup h p lim = Some (Ptr (hseq h) 0, h') \<and> heap_ok h' \<and>
      hgrant h' = hgrant h \<and> hblk h' = (hblk h)(hseq h \<mapsto> map f (clip lim s) @ [0])"
    by (auto intro: heap_ok_put_block)
qed (simp_all add: assms)

lemma c_toupper_nonzero: "c \<noteq> 0 \<Longrightarrow> c_toupper c \<noteq> 0"
  by (auto simp: word_unat_eq_iff unat_c_toupper c_islower_def word_le_nat_alt)

interpretation updup: str_dup cpr_upper c_toupper
  by (rule case_dup) (simp_all add: cpr_upper_def c_toupper_nonzero)

interpretation lowdup: str_dup cpr_lower c_tolower
  by (rule case_dup) (use c_tolower_nonzero in \<open>auto simp: cpr_lower_def c_tolower_def c_isupper_def\<close>)

interpretation uplow: str_dup_twice cpr_upper c_toupper cpr_lower c_tolower
  by unfold_locales

lemma c_tolower_toupper: "c_tolower (c_toupper c) = c_tolower c"
  by (auto simp: word_unat_eq_iff unat_c_tolower unat_c_toupper c_isupper_def c_islower_def word_le_nat_alt)

lemma c_tolower_idem: "c_tolower (c_tolower c) = c_tolower c"
  by (auto simp: word_unat_eq_iff unat_c_tolower c_isupper_def word_le_nat_alt)

lemma cpr_match_cstr:
  assumes "cstr h p s" and "cstr h q t"
  shows "cpr_match h p q = Some (map c_tolower s = map c_tolower t)"
proof (cases "p = q")
  case True
  with assms cstr_unique have "s = t" by blast
  with True show ?thesis by (simp add: cpr_match_def)
next
  case False
  with assms c_strcasecmp_cstr [OF assms] show ?thesis
    by (auto simp: cpr_match_def dest: cstr_not_Null)
qed

lemma cpr_equal_cstr:
  assumes "cstr h p s" and "cstr h q t"
  shows "cpr_equal h p q = Some (s = t)"
proof (cases "p = q")
  case True
  with assms cstr_unique have "s = t" by blast
  with True show ?thesis by (simp add: cpr_equal_def)
next
  case False
  with assms c_strcmp_cstr [OF assms] show ?thesis
    by (auto simp: cpr_equal_def dest: cstr_not_Null)
qed

subsection \<open>Collation\<close>

lemma uint_pos: "a \<noteq> 0 \<Longrightarrow> 0 < uint (a :: byte)"
  by (simp add: less_le unsigned_eq_0_iff)

lemma c_strcmp_lex:
  "cstr h p s \<Longrightarrow> cstr h q t \<Longrightarrow>
   \<exists>r. c_strcmp h p q = Some r \<and> (r = 0 \<longleftrightarrow> s = t) \<and> (r < 0 \<longleftrightarrow> ord.lexordp (<) s t)"
  unfolding c_strcmp_def
proof (induction s arbitrary: p q t)
  case Nil
  then show ?case
    by (cases t; subst c_strcmp_by.simps)
      (auto simp: uint_pos dest: uint_pos)
next
  case (Cons c s)
  show ?case
  proof (cases t)
    case Nil
    with Cons.prems show ?thesis
      by (subst c_strcmp_by.simps) (auto dest: uint_pos)
  next
    case (Cons d t')
    with Cons.prems Cons.IH [of "padd p 1" "padd q 1" t'] show ?thesis
      by (subst c_strcmp_by.simps) (auto simp: not_less_iff_gr_or_eq simp flip: word_uint_eq_iff word_less_def)
  qed
qed


text \<open>
  \<^verbatim>\<open>cpr_strdup\<close>, \<^verbatim>\<open>cpr_upper\<close> and \<^verbatim>\<open>cpr_lower\<close> on a string of at most \<open>lim\<close>
  characters: the duplicate is a different object that \<^verbatim>\<open>cpr_equal\<close> finds equal to
  the original, and a lowered copy of a raised copy is the lowered original, which
  \<^verbatim>\<open>cpr_match\<close> finds equal to the original whatever its case was.
\<close>

theorem strdup_upper_lower:
  assumes "heap_ok h" and "cstr h p s" and "length s + 1 < 2 ^ 64" and "\<forall>n m. hgrant h n m"
    and "length s \<le> lim"
  shows "\<exists>d h0 q h1 r h2. cpr_strdup h p lim = Some (d, h0) \<and> d \<noteq> p \<and> cpr_equal h0 p d = Some True \<and>
    cpr_upper h p lim = Some (q, h1) \<and> cpr_lower h1 q lim = Some (r, h2) \<and>
    cstr h2 r (map c_tolower s) \<and> cpr_match h2 p r = Some True"
proof -
  obtain d h0 where d: "cpr_strdup h p lim = Some (d, h0)" "cstr h0 d s" "cstr h0 p s" "d \<noteq> p"
    using sdup.dup_string [OF assms(1-3), of lim] assms(2,4,5) by (metis clip_all list.map_ident)
  obtain q h1 r h2 where u: "cpr_upper h p lim = Some (q, h1)" "cpr_lower h1 q lim = Some (r, h2)"
      "cstr h2 p s" "cstr h2 r (map (c_tolower \<circ> c_toupper) s)"
    using uplow.dup_dup [OF assms(1-4), of lim lim] assms(5) by auto
  moreover have low: "map (c_tolower \<circ> c_toupper) s = map c_tolower s"
    and low2: "map c_tolower (map c_tolower s) = map c_tolower s" for s
    by (auto simp: c_tolower_toupper c_tolower_idem)
  ultimately show ?thesis
    using d cpr_equal_cstr [OF d(3,2)] cpr_match_cstr [OF u(3,4)]
    by (simp add: low low2)
qed

theorem strdup_upper_lower_witness:
  "\<exists>d h0. cpr_strdup (heap_of [str_bytes ''aB'' @ [0]]) (Ptr 0 0) 9 = Some (d, h0) \<and> d \<noteq> Ptr 0 0 \<and>
     cpr_equal h0 (Ptr 0 0) d = Some True"
proof -
  have "cstr (heap_of [str_bytes ''aB'' @ [0]]) (Ptr 0 0) (str_bytes ''aB'')"
    by (rule cstr_mid [of _ _ "[]" _ "[]"]) (auto simp: str_bytes_def char_byte_def)
  moreover have "length (str_bytes ''aB'') = 2" by (simp add: str_bytes_def)
  ultimately show ?thesis
    using strdup_upper_lower [of "heap_of [str_bytes ''aB'' @ [0]]" "Ptr 0 0" "str_bytes ''aB''" 9]
    by auto
qed

text \<open>
  \<^verbatim>\<open>cpr_order\<close> is a total order on strings: it is zero exactly on equal strings,
  negative exactly when the first comes first in the dictionary order of the bytes,
  and a null pointer comes before every string.
\<close>

theorem cpr_order_lex:
  assumes "cstr h p s" and "cstr h q t"
  shows "(\<exists>r. cpr_order h p q = Some r \<and> (r = 0 \<longleftrightarrow> s = t) \<and> (r < 0 \<longleftrightarrow> ord.lexordp (<) s t)) \<and>
    cpr_order h Null q = Some (- 1) \<and> cpr_order h p Null = Some 1 \<and> cpr_order h Null Null = Some 0"
proof -
  have n: "p \<noteq> Null" "q \<noteq> Null" using assms cstr_not_Null by blast+
  have "\<not> ord.lexordp (<) s s" for s :: "byte list" by (induction s) auto
  then have "\<exists>r. cpr_order h p q = Some r \<and> (r = 0 \<longleftrightarrow> s = t) \<and> (r < 0 \<longleftrightarrow> ord.lexordp (<) s t)"
    using n c_strcmp_lex [OF assms] cstr_unique [OF assms(1)] assms(2)
    by (cases "p = q") (auto simp: cpr_order_def)
  with n show ?thesis by (simp add: cpr_order_def)
qed

theorem cpr_order_lex_witness:
  "\<exists>r. cpr_order (heap_of [str_bytes ''ab'' @ [0], str_bytes ''b'' @ [0]]) (Ptr 0 0) (Ptr 1 0) = Some r \<and> r < 0"
proof -
  let ?h = "heap_of [str_bytes ''ab'' @ [0], str_bytes ''b'' @ [0]]"
  have "cstr ?h (Ptr 0 0) (str_bytes ''ab'')" "cstr ?h (Ptr 1 0) (str_bytes ''b'')"
    by (rule cstr_mid [of _ _ "[]" _ "[]"]; auto simp: str_bytes_def char_byte_def)+
  from cpr_order_lex [OF this] show ?thesis by (auto simp: str_bytes_def char_byte_def)
qed

subsection \<open>Copying and concatenation\<close>

lemma load_list_cstr: "cstr h p s \<Longrightarrow> n \<le> length s \<Longrightarrow> load_list h p n = Some (take n s)"
proof (induction s arbitrary: p n)
  case (Cons c s)
  then show ?case by (cases n) auto
qed simp

lemma cstr_nonempty: "cstr h p s \<Longrightarrow> s \<noteq> [] \<Longrightarrow> \<exists>c. c \<noteq> 0 \<and> load h p = Some c"
  by (cases s) auto

lemma cpr_strcpy_block:
  assumes "cstr h p s" and "s \<noteq> []" and "0 < lim"
    and "hblk h d = Some (pre @ old @ post)" and "length pre = l" and "length old = min (length s) lim"
    and "ptr_block p \<noteq> d"
  shows "cpr_strcpy h (Ptr d l) p lim =
    Some (Ptr d l, put_block h d (pre @ butlast (take lim s) @ 0 # post))"
proof -
  let ?n = "min (length s) lim"
  have p: "p \<noteq> Null" by (rule cstr_not_Null [OF assms(1)])
  have n: "length (clip lim s) = ?n" "0 < ?n" using assms(2,3) by (auto simp: length_clip max_def)
  have "load_list h p ?n = Some (take lim s)"
    using load_list_cstr [OF assms(1), of ?n] by (simp add: min_def)
  moreover have "\<not> ranges_overlap (Ptr d l) p ?n" using assms(7) p by (cases p) auto
  ultimately have cp: "cpr_memcpy h (Ptr d l) lim p ?n = Some (True, put_block h d (pre @ take lim s @ post))"
    using assms p by (intro cpr_memcpy_mid [where old = old]) auto
  have "take lim s \<noteq> []" using assms(2,3) by simp
  then obtain us u where us: "take lim s = us @ [u]" by (metis rev_exhaust)
  then have n': "?n = Suc (length us)" by (metis length_append_singleton length_take min.commute)
  have "store (put_block h d (pre @ take lim s @ post)) (Ptr d (l + length us)) 0 =
      Some (put_block h d (pre @ us @ 0 # post))"
    using us assms(5) by (simp add: store_Ptr list_update_append)
  moreover have "(if lim \<le> length (clip lim s) then lim else length (clip lim s)) = ?n" using n by auto
  ultimately show ?thesis
    using cp n' us p by (simp add: cpr_strcpy_def cpr_strlen_cstr [OF assms(1)] del: clip_all)
qed

text \<open>
  \<^verbatim>\<open>cpr_strcpy\<close> stays inside the first \<open>lim\<close> bytes of the target and leaves a
  terminated string there, but its terminator replaces the last character it copied:
  the target holds the first \<open>lim\<close> characters of a non-empty source without the last
  of them (\<^verbatim>\<open>hello\<close> arrives as \<^verbatim>\<open>hell\<close> in a large buffer), and an empty source leaves
  the target as it was. \<^verbatim>\<open>cpr_strcat\<close> appends the same shortened text, and returns null
  when the target is already full.
\<close>

theorem cpr_strcpy_strcat_effect:
  assumes "cstr h p s" and "hblk h d = Some (pre @ t @ 0 # old @ post)" and "0 \<notin> set t"
    and "length t + 1 + length old = lim" and "ptr_block p \<noteq> d"
  shows "(s = [] \<longrightarrow> cpr_strcpy h (Ptr d (length pre)) p lim = Some (Ptr d (length pre), h)) \<and>
    (s \<noteq> [] \<longrightarrow> (\<exists>h' buf. cpr_strcpy h (Ptr d (length pre)) p lim = Some (Ptr d (length pre), h') \<and>
       h' = put_block h d (pre @ buf @ post) \<and> length buf = lim \<and>
       cstr h' (Ptr d (length pre)) (butlast (take lim s)))) \<and>
    (s \<noteq> [] \<longrightarrow> (\<exists>h' buf. cpr_strcat h (Ptr d (length pre)) p lim = Some (Ptr d (length pre + length t), h') \<and>
       h' = put_block h d (pre @ buf @ post) \<and> length buf = lim \<and>
       cstr h' (Ptr d (length pre)) (t @ butlast (take (lim - length t) s)))) \<and>
    (\<forall>full \<le> length t. 0 < full \<longrightarrow> cpr_strcat h (Ptr d (length pre)) p full = Some (Null, h))"
proof (intro conjI impI allI)
  let ?m = "Ptr d (length pre)"
  have p: "p \<noteq> Null" by (rule cstr_not_Null [OF assms(1)])
  have m: "cstr h ?m t" using assms(2,3) by (intro cstr_mid [where post = "old @ post"]) auto
  have nz: "0 \<notin> set (butlast (take n s))" for n
    using cstr_nonzero [OF assms(1)] by (meson in_set_butlastD in_set_takeD)
  show "cpr_strcpy h ?m p lim = Some (?m, h)" if "s = []"
    using that p cpr_strlen_cstr [OF assms(1), of lim] load_list_cstr [OF assms(1), of 0]
    by (cases p) (auto simp: cpr_strcpy_def clip_def cpr_memcpy_def c_memcpy_def c_memmove_def)
  let ?n = "min (length s) lim" let ?bs = "t @ 0 # old"
  let ?buf = "butlast (take lim s) @ 0 # drop ?n ?bs"
  show "\<exists>h' buf. cpr_strcpy h ?m p lim = Some (?m, h') \<and> h' = put_block h d (pre @ buf @ post) \<and>
      length buf = lim \<and> cstr h' ?m (butlast (take lim s))" if "s \<noteq> []"
  proof (intro exI conjI)
    have len: "length ?bs = lim" "0 < lim" using assms(4) by auto
    have "hblk h d = Some (pre @ take ?n ?bs @ drop ?n ?bs @ post)"
      using assms(2) by (metis append_assoc append_Cons append_take_drop_id)
    from cpr_strcpy_block [OF assms(1) that len(2) this refl] len(1) assms(5)
    show "cpr_strcpy h ?m p lim = Some (?m, put_block h d (pre @ ?buf @ post))" by simp
    show "length ?buf = lim" using that len by (cases s) (auto simp: min_def)
    show "cstr (put_block h d (pre @ ?buf @ post)) ?m (butlast (take lim s))"
      by (rule cstr_mid [where post = "drop ?n ?bs @ post"]) (use nz in auto)
  qed simp
  let ?lim = "lim - length t" let ?k = "min (length s) ?lim" let ?cs = "0 # old"
  let ?buf' = "t @ butlast (take ?lim s) @ 0 # drop ?k ?cs"
  show "\<exists>h' buf. cpr_strcat h ?m p lim = Some (Ptr d (length pre + length t), h') \<and>
      h' = put_block h d (pre @ buf @ post) \<and> length buf = lim \<and>
      cstr h' ?m (t @ butlast (take ?lim s))" if "s \<noteq> []"
  proof (intro exI conjI)
    have len: "length ?cs = ?lim" "0 < ?lim" "clip lim t = t" "length t < lim" using assms(4) by auto
    have "hblk h d = Some ((pre @ t) @ take ?k ?cs @ drop ?k ?cs @ post)"
      using assms(2) by (metis append_assoc append_Cons append_take_drop_id)
    from cpr_strcpy_block [OF assms(1) that len(2) this refl] len(1) assms(5)
    have "cpr_strcpy h (Ptr d (length pre + length t)) p ?lim =
        Some (Ptr d (length pre + length t), put_block h d (pre @ ?buf' @ post))" by simp
    then show "cpr_strcat h ?m p lim =
        Some (Ptr d (length pre + length t), put_block h d (pre @ ?buf' @ post))"
      using p len cpr_strlen_cstr [OF m, of lim] by (simp add: cpr_strcat_def)
    show "length ?buf' = lim" using that len by (cases s) (auto simp: min_def)
    show "cstr (put_block h d (pre @ ?buf' @ post)) ?m (t @ butlast (take ?lim s))"
      by (rule cstr_mid [where post = "drop ?k ?cs @ post"]) (use nz assms(3) in auto)
  qed simp
  show "cpr_strcat h ?m p full = Some (Null, h)" if "full \<le> length t" "0 < full" for full
    using that p cpr_strlen_cstr [OF m, of full] by (simp add: cpr_strcat_def length_clip)
qed

theorem cpr_strcpy_strcat_effect_witness:
  "\<exists>h' buf. cpr_strcpy (heap_of [str_bytes ''hello'' @ [0], replicate 8 0]) (Ptr 1 0) (Ptr 0 0) 8 = Some (Ptr 1 0, h') \<and>
     h' = put_block (heap_of [str_bytes ''hello'' @ [0], replicate 8 0]) 1 buf \<and> cstr h' (Ptr 1 0) (str_bytes ''hell'')"
proof -
  let ?h = "heap_of [str_bytes ''hello'' @ [0], replicate 8 0]"
  have "cstr ?h (Ptr 0 0) (str_bytes ''hello'')"
    by (rule cstr_mid [of _ _ "[]" _ "[]"]) (auto simp: str_bytes_def char_byte_def)
  moreover have "butlast (take 8 (str_bytes ''hello'')) = str_bytes ''hell''" "str_bytes ''hello'' \<noteq> []"
    by (auto simp: str_bytes_def)
  ultimately show ?thesis
    using cpr_strcpy_strcat_effect [of ?h "Ptr 0 0" "str_bytes ''hello''" 1 "[]" "[]" "replicate 7 0" "[]" 8]
    by (auto simp: numeral_nat)
qed

subsection \<open>Reversal\<close>

lemma xor_assign_block:
  "hblk h b = Some bs \<Longrightarrow> i < length bs \<Longrightarrow> j < length bs \<Longrightarrow>
   xor_assign h (Ptr b i) (Ptr b j) = Some (put_block h b (bs[i := bs ! i XOR bs ! j]))"
  by (simp add: xor_assign_def mem_simps)

lemma xor_swap:
  fixes x y :: "'a::len word"
  shows "y XOR (x XOR y) = x" "(x XOR y) XOR x = y"
  by (auto intro!: bit_word_eqI simp: bit_xor_iff)

lemma reverse_loop_mid:
  assumes "hblk h b = Some (pre @ cs @ post)" and "length pre = k + i" and "length cs = Suc j - i"
  shows "reverse_loop h (Ptr b k) i j = Some (put_block h b (pre @ rev cs @ post))"
  using assms
proof (induction "length cs" arbitrary: h pre cs post i j rule: less_induct)
  case less
  show ?case
  proof (cases "i < j")
    case False
    with less.prems(3) have "length cs \<le> 1" by auto
    then have "rev cs = cs" by (cases cs) auto
    with False less.prems(1) show ?thesis by (subst reverse_loop.simps) simp
  next
    case True
    with less.prems(3) obtain x cs' where "cs = x # cs'" "cs' \<noteq> []" by (cases cs) (auto, fastforce)
    then obtain ds y where cs: "cs = x # ds @ [y]" by (metis rev_exhaust)
    have len: "length pre + Suc (length ds) = k + j" "length ds = Suc (j - 1) - (i + 1)"
      using less.prems(2,3) True by (auto simp: cs)
    let ?bs = "\<lambda>u v. pre @ u # ds @ v # post"
    have at: "?bs u v ! (k + i) = u" "?bs u v ! (k + j) = v"
      "(?bs u v)[k + i := w] = ?bs w v" "(?bs u v)[k + j := w] = ?bs u w"
      "k + i < length (?bs u v)" "k + j < length (?bs u v)" for u v w
      using less.prems(2) len(1)
      by (auto simp: nth_append list_update_append simp flip: less.prems(2) len(1))
    have h0: "hblk h b = Some (?bs x y)" using less.prems(1) cs by simp
    let ?h = "\<lambda>u v. put_block h b (?bs u v)"
    have xor: "xor_assign h (Ptr b (k + i)) (Ptr b (k + j)) = Some (?h (x XOR y) y)"
      "xor_assign (?h (x XOR y) y) (Ptr b (k + j)) (Ptr b (k + i)) = Some (?h (x XOR y) x)"
      "xor_assign (?h (x XOR y) x) (Ptr b (k + i)) (Ptr b (k + j)) = Some (?h y x)"
      using xor_assign_block [OF h0 at(5,6)] 
        xor_assign_block [of "?h (x XOR y) y" b "?bs (x XOR y) y", OF _ at(6,5)]
        xor_assign_block [of "?h (x XOR y) x" b "?bs (x XOR y) x", OF _ at(5,6)]
      by (simp_all only: at xor_swap hblk_put_block fun_upd_same put_block_twice)
    have "reverse_loop (?h y x) (Ptr b k) (i + 1) (j - 1) =
        Some (put_block (?h y x) b ((pre @ [y]) @ rev ds @ x # post))"
      using len less.prems(2) by (intro less.hyps) (auto simp: cs)
    with xor True show ?thesis by (subst reverse_loop.simps) (simp add: cs)
  qed
qed

lemma cpr_reverse_mid:
  assumes "hblk h b = Some (pre @ s @ 0 # post)" and "length pre = k" and "0 \<notin> set s"
  shows "cpr_reverse h (Ptr b k) = Some (Ptr b k, put_block h b (pre @ rev s @ 0 # post))"
proof (cases s)
  case Nil
  with assms show ?thesis by (auto simp: cpr_reverse_def mem_simps)
next
  case (Cons c t)
  have s: "cstr h (Ptr b k) s" using assms by (rule cstr_mid)
  have "reverse_loop h (Ptr b k) 0 (length s - 1) = Some (put_block h b (pre @ rev s @ 0 # post))"
    using assms(1,2) Cons by (intro reverse_loop_mid) auto
  with Cons s c_strlen_cstr [OF s] show ?thesis by (simp add: cpr_reverse_def)
qed

text \<open>
  \<^verbatim>\<open>cpr_reverse\<close> reverses any string in place, through exclusive-or swaps, touching
  nothing else; a second call restores it.
\<close>

theorem cpr_reverse_involutive:
  assumes "hblk h b = Some (pre @ s @ 0 # post)" and "0 \<notin> set s"
  shows "\<exists>h'. cpr_reverse h (Ptr b (length pre)) = Some (Ptr b (length pre), h') \<and>
    h' = put_block h b (pre @ rev s @ 0 # post) \<and> cstr h' (Ptr b (length pre)) (rev s) \<and>
    cpr_reverse h' (Ptr b (length pre)) = Some (Ptr b (length pre), h)"
proof -
  let ?h = "put_block h b (pre @ rev s @ 0 # post)"
  have "cstr ?h (Ptr b (length pre)) (rev s)" using assms(2) by (intro cstr_mid) auto
  moreover have "cpr_reverse ?h (Ptr b (length pre)) = Some (Ptr b (length pre), h)"
    using cpr_reverse_mid [of ?h b pre "rev s" post "length pre"] assms by simp
  ultimately show ?thesis using cpr_reverse_mid [OF assms(1) refl assms(2)] by blast
qed

theorem cpr_reverse_involutive_witness:
  "\<exists>h'. cpr_reverse (heap_of [str_bytes ''abc'' @ [0]]) (Ptr 0 0) = Some (Ptr 0 0, h') \<and>
     cstr h' (Ptr 0 0) (str_bytes ''cba'')"
  using cpr_reverse_involutive [of "heap_of [str_bytes ''abc'' @ [0]]" 0 "[]" "str_bytes ''abc''" "[]"]
  by (auto simp: str_bytes_def char_byte_def)

subsection \<open>Decimal numbers\<close>

text \<open>The digits of a positive number, least significant first, and its decimal notation.\<close>

function dec_rev :: "int \<Rightarrow> byte list" where
  "dec_rev v = (if v \<le> 0 then [] else word_of_int (v mod 10 + 48) # dec_rev (v div 10))"
  by pat_completeness auto
termination by (relation "measure nat") auto

declare dec_rev.simps [simp del]

definition decimal :: "int \<Rightarrow> byte list" where
  "decimal v = (if v = 0 then [48] else if v < 0 then 45 # rev (dec_rev (- v)) else rev (dec_rev v))"

definition digits_value :: "byte list \<Rightarrow> int" where
  "digits_value = foldl (\<lambda>a c. 10 * a + (uint c - 48)) 0"

definition decimal_value :: "byte list \<Rightarrow> int" where
  "decimal_value s = (if s \<noteq> [] \<and> hd s = 45 then - digits_value (tl s) else digits_value s)"

lemma dec_rev_nonpos [simp]: "v \<le> 0 \<Longrightarrow> dec_rev v = []"
  by (simp add: dec_rev.simps)

lemma digit_word: "0 \<le> d \<Longrightarrow> d < 10 \<Longrightarrow> uint (word_of_int d + 48 :: byte) = d + 48"
  by (simp add: uint_word_ariths uint_word_of_int)

lemma digit_range: "c \<in> set (dec_rev v) \<Longrightarrow> 48 \<le> uint c \<and> uint c \<le> 57"
proof (induction v rule: dec_rev.induct)
  case (1 v)
  then show ?case
    by (cases "v \<le> 0") (auto simp: dec_rev.simps [of v] digit_word)
qed

lemma digits_value_rev: "0 \<le> v \<Longrightarrow> digits_value (rev (dec_rev v)) = v"
proof (induction v rule: dec_rev.induct)
  case (1 v)
  then show ?case
    by (cases "v = 0") (auto simp: dec_rev.simps [of v] digits_value_def digit_word)
qed

lemma decimal_value_decimal: "decimal_value (decimal v) = v"
proof -
  have "hd (rev (dec_rev v)) \<noteq> 45" if "rev (dec_rev v) \<noteq> []"
    using hd_in_set [OF that] digit_range [of "hd (rev (dec_rev v))" v] by auto
  then show ?thesis
    using digits_value_rev [of v] digits_value_rev [of "- v"]
    by (auto simp: decimal_def decimal_value_def) (auto simp: digits_value_def)
qed

lemma dec_rev_nonzero: "0 \<notin> set (dec_rev v)"
  by (auto dest: digit_range)

lemma strlong_loop_block:
  assumes "hblk h b = Some (pre @ old @ post)" and "length pre = k" and "k + length old = l"
    and "n = min (length (dec_rev v)) (length old)"
  shows "strlong_loop h (Ptr b k) (Ptr b l) v =
    Some (Ptr b (k + n), put_block h b (pre @ take n (dec_rev v) @ drop n old @ post))"
  using assms
proof (induction v arbitrary: h pre old k n rule: dec_rev.induct)
  case (1 v)
  show ?case
  proof (cases "0 < v \<and> old \<noteq> []")
    case False
    with "1.prems" show ?thesis by (subst strlong_loop.simps) auto
  next
    case True
    then obtain y old' where old: "old = y # old'" by (cases old) auto
    let ?d = "word_of_int (v mod 10 + 48)"
    let ?h = "put_block h b ((pre @ [?d]) @ old' @ post)"
    let ?n = "min (length (dec_rev (v div 10))) (length old')"
    have "strlong_loop ?h (Ptr b (k + 1)) (Ptr b l) (v div 10) = Some (Ptr b (k + 1 + ?n),
        put_block ?h b ((pre @ [?d]) @ take ?n (dec_rev (v div 10)) @ drop ?n old' @ post))"
      using True "1.prems" old by (intro "1.IH") auto
    moreover have "store h (Ptr b k) ?d = Some ?h" using "1.prems" old by (auto simp: mem_simps)
    ultimately show ?thesis
      using True "1.prems"(3,4) old
      by (subst strlong_loop.simps) (simp add: dec_rev.simps [of v])
  qed
qed


lemma decimal_nonzero: "0 \<notin> set (decimal v)"
  using dec_rev_nonzero by (auto simp: decimal_def)

text \<open>The tail of \<^verbatim>\<open>cpr_strlong\<close> for a positive number, after the sign.\<close>

lemma strlong_tail:
  assumes "hblk h b = Some (pre @ old @ post)" and "length pre = k" and "Suc l = k + length old"
    and "0 < v" and "length (dec_rev v) + 1 < length old"
  obtains h' buf where "do { (r, h) \<leftarrow> strlong_loop h (Ptr b k) (Ptr b l) v;
       if r = Ptr b l then Some (Null, h)
       else do { h \<leftarrow> store h r 0; (_, h) \<leftarrow> cpr_reverse h (Ptr b k); Some (out, h) } } = Some (out, h')"
    and "h' = put_block h b (pre @ rev (dec_rev v) @ 0 # buf @ post)"
    and "length (dec_rev v) + 1 + length buf = length old"
proof -
  let ?d = "dec_rev v" let ?n = "length ?d"
  obtain old' x where old': "old = old' @ [x]" using assms(5) by (cases old rule: rev_cases) auto
  with assms(5) have n: "?n < length old'" by simp
  then obtain y rest where rest: "drop ?n old' = y # rest" by (metis Cons_nth_drop_Suc)
  have lp: "strlong_loop h (Ptr b k) (Ptr b l) v = Some (Ptr b (k + ?n), put_block h b (pre @ ?d @ y # rest @ x # post))"
    using strlong_loop_block [of h b pre old' "x # post" k l ?n v] assms n old' rest by simp
  let ?h1 = "put_block h b (pre @ ?d @ 0 # rest @ x # post)"
  have "store (put_block h b (pre @ ?d @ y # rest @ x # post)) (Ptr b (k + ?n)) 0 = Some ?h1"
    using assms(2) by (simp add: store_Ptr list_update_append)
  moreover have "cpr_reverse ?h1 (Ptr b k) = Some (Ptr b k, put_block ?h1 b (pre @ rev ?d @ 0 # rest @ x # post))"
    using assms(2) dec_rev_nonzero by (intro cpr_reverse_mid) auto
  moreover have "k + ?n \<noteq> l" using n assms(3) old' by simp
  moreover have "length (y # rest) = length old' - ?n" by (metis rest length_drop)
  ultimately show ?thesis
    using lp n old' by (intro that [of "put_block h b (pre @ rev ?d @ 0 # (rest @ [x]) @ post)" "rest @ [x]"]) auto
qed

text \<open>
  C32. \<^verbatim>\<open>cpr_strlong\<close> writes the decimal notation of every \<^verbatim>\<open>long\<close> but the least one,
  terminated, inside its buffer, and reading the text back gives the number: for zero in
  any buffer of two bytes, for other numbers when the buffer has two bytes more than
  the text.
\<close>

theorem cpr_strlong_decimal:
  assumes "hblk h b = Some (pre @ old @ post)" and "long_min < v"
    and "if v = 0 then 2 \<le> length old else length (decimal v) + 2 \<le> length old"
  shows "\<exists>h' buf. cpr_strlong h v (Ptr b (length pre)) (length old) = Some (Ptr b (length pre), h') \<and>
    h' = put_block h b (pre @ buf @ post) \<and> length buf = length old \<and>
    cstr h' (Ptr b (length pre)) (decimal v) \<and> decimal_value (decimal v) = v"
proof -
  let ?k = "length pre" let ?p = "Ptr b ?k"
  have fin: ?thesis if "cpr_strlong h v ?p (length old) = Some (?p, put_block h b (pre @ decimal v @ 0 # rest @ post))"
      and "length (decimal v) + 1 + length rest = length old" for rest
    using that decimal_nonzero [of v] decimal_value_decimal [of v]
    by (intro exI [of _ "put_block h b (pre @ (decimal v @ 0 # rest) @ post)"] exI [of _ "decimal v @ 0 # rest"])
      (auto intro: cstr_mid)
  consider "v = 0" | "0 < v" | "v < 0" by linarith
  then show ?thesis
  proof cases
    case 1
    with assms(3) obtain x y rest where "old = x # y # rest"
      by (cases old; cases "tl old") auto
    with 1 assms(1) show ?thesis
      by (intro fin [of rest]) (simp_all add: cpr_strlong_def decimal_def store_Ptr list_update_append)
  next
    case 2
    with assms(3) have len: "length (dec_rev v) + 1 < length old" by (simp add: decimal_def)
    then obtain l where l: "length old = Suc l" by (cases "length old") auto
    obtain h' buf where "do { (r, h) \<leftarrow> strlong_loop h ?p (Ptr b (?k + l)) v;
        if r = Ptr b (?k + l) then Some (Null, h)
        else do { h \<leftarrow> store h r 0; (_, h) \<leftarrow> cpr_reverse h ?p; Some (?p, h) } } = Some (?p, h')"
      "h' = put_block h b (pre @ rev (dec_rev v) @ 0 # buf @ post)"
      "length (dec_rev v) + 1 + length buf = length old"
      by (rule strlong_tail [OF assms(1) refl _ 2 len, of "?k + l"]) (use l in auto)
    with 2 l len show ?thesis by (intro fin [of buf]) (simp_all add: cpr_strlong_def decimal_def)
  next
    case 3
    with assms(3) obtain x rest where old: "old = x # rest" "length (dec_rev (- v)) + 1 < length rest"
      by (cases old) (auto simp: decimal_def)
    let ?h = "put_block h b ((pre @ [45]) @ rest @ post)"
    have st: "store h ?p 45 = Some ?h" using assms(1) old by (simp add: store_Ptr)
    obtain h' buf where "do { (r, h) \<leftarrow> strlong_loop ?h (Ptr b (Suc ?k)) (Ptr b (?k + length rest)) (- v);
        if r = Ptr b (?k + length rest) then Some (Null, h)
        else do { h \<leftarrow> store h r 0; (_, h) \<leftarrow> cpr_reverse h (Ptr b (Suc ?k)); Some (?p, h) } } = Some (?p, h')"
      "h' = put_block ?h b ((pre @ [45]) @ rev (dec_rev (- v)) @ 0 # buf @ post)"
      "length (dec_rev (- v)) + 1 + length buf = length rest"
      by (rule strlong_tail [of ?h b "pre @ [45]" rest post "Suc ?k" "?k + length rest" "- v"])
        (use 3 old in auto)
    with 3 st old assms(2) show ?thesis
      by (intro fin [of buf]) (auto simp: cpr_strlong_def decimal_def)
  qed
qed

theorem cpr_strlong_decimal_witness:
  "\<exists>h' buf. cpr_strlong (heap_of [replicate 9 0]) (- 407) (Ptr 0 0) 9 = Some (Ptr 0 0, h') \<and>
     cstr h' (Ptr 0 0) (decimal (- 407)) \<and> decimal (- 407) = str_bytes ''-407''"
proof -
  have d: "decimal (- 407) = str_bytes ''-407''"
    by (simp add: decimal_def dec_rev.simps str_bytes_def char_byte_def)
  then have "length (decimal (- 407)) = 4" by (simp add: str_bytes_def)
  with d show ?thesis
    using cpr_strlong_decimal [of "heap_of [replicate 9 0]" 0 "[]" "replicate 9 0" "[]" "- 407"]
    by (auto simp: long_min_def)
qed

subsection \<open>Trimming\<close>

lemma strtrim_loop_cstr:
  assumes "cstr h ls l"
  shows "cstr h p s \<Longrightarrow> strtrim_loop h p ls n = Some (padd p (length (takeWhile (\<lambda>c. c \<in> set l) (take n s))))"
proof (induction n arbitrary: p s)
  case 0
  then show ?case by (cases s) auto
next
  case (Suc n)
  then show ?case
    using c_strchr_cstr [OF assms] cstr_not_Null [OF assms] by (cases s) auto
qed

lemma strchop_loop_block:
  assumes "cstr h ls l" and "ptr_block ls \<noteq> b"
    and "hblk h b = Some (pre @ s @ post)" and "length pre = k" and "0 \<notin> set s"
  shows "strchop_loop h (Ptr b k) ls (length s) =
    Some (put_block h b (pre @ rev (dropWhile (\<lambda>c. c \<in> set l) (rev s)) @
      replicate (length (takeWhile (\<lambda>c. c \<in> set l) (rev s))) 0 @ post))"
  using assms
proof (induction s arbitrary: h post rule: rev_induct)
  case (snoc c s)
  have ld: "load h (Ptr b (k + length s)) = Some c"
    and st: "store h (Ptr b (k + length s)) 0 = Some (put_block h b (pre @ s @ 0 # post))"
    using snoc.prems by (auto simp: load_Ptr store_Ptr nth_append list_update_append)
  have q: "c_strchr h ls c = Some (if c \<in> set l then padd ls (length (takeWhile (\<lambda>d. d \<noteq> c) l)) else Null)"
    using snoc.prems by (intro c_strchr_cstr) auto
  show ?case
  proof (cases "c \<in> set l")
    case True
    let ?h = "put_block h b (pre @ s @ 0 # post)"
    obtain d j where ls: "ls = Ptr d j" using cstr_not_Null [OF snoc.prems(1)] by (cases ls) auto
    with snoc.prems(1) obtain pre' post' where "hblk h d = Some (pre' @ l @ 0 # post')" "length pre' = j"
      by (auto elim: cstr_block)
    with ls snoc.prems(1,2) have "cstr ?h ls l"
      by (auto intro: cstr_mid dest: cstr_nonzero)
    then have "strchop_loop ?h (Ptr b k) ls (length s) =
        Some (put_block ?h b (pre @ rev (dropWhile (\<lambda>c. c \<in> set l) (rev s)) @
          replicate (length (takeWhile (\<lambda>c. c \<in> set l) (rev s))) 0 @ 0 # post))"
      using snoc.prems by (intro snoc.IH) auto
    with True ld st q ls show ?thesis
      by (simp add: replicate_append_same flip: replicate_append_same)
  qed (use ld q snoc.prems in simp)
qed simp

lemma clip_pred:
  assumes "length s < lim" and "lim < 2 ^ 64"
  shows "clip (sz_sub lim 1) s = s"
  using assms by (simp add: size_simps)

text \<open>
  \<^verbatim>\<open>cpr_strtrim\<close> returns the longest suffix of the string that does not start with
  a character of the list, without writing; \<^verbatim>\<open>cpr_strchop\<close> cuts every trailing
  character of the list off in place, for strings shorter than the limit. The first
  never leaves the string, the second writes inside it only.
\<close>

theorem cpr_strtrim_strchop:
  assumes "hblk h b = Some (pre @ s @ 0 # post)" and "0 \<notin> set s" and "cstr h ls l" and "l \<noteq> []"
    and "ptr_block ls \<noteq> b" and "length s < lim" and "lim < 2 ^ 64"
  shows "\<exists>q h' pad. cpr_strtrim h (Ptr b (length pre)) ls lim = Some q \<and>
      cstr h q (dropWhile (\<lambda>c. c \<in> set l) s) \<and>
    cpr_strchop h (Ptr b (length pre)) ls lim = Some (Ptr b (length pre), h') \<and>
      h' = put_block h b (pre @ rev (dropWhile (\<lambda>c. c \<in> set l) (rev s)) @ pad @ 0 # post) \<and>
      cstr h' (Ptr b (length pre)) (rev (dropWhile (\<lambda>c. c \<in> set l) (rev s)))"
proof -
  let ?p = "Ptr b (length pre)" let ?in = "\<lambda>c. c \<in> set l"
  let ?t = "rev (dropWhile ?in (rev s))"
  let ?n = "length (takeWhile ?in s)" let ?m = "length (takeWhile ?in (rev s))"
  let ?h = "put_block h b (pre @ ?t @ replicate ?m 0 @ 0 # post)"
  have s: "cstr h ?p s" using assms(1,2) by (intro cstr_mid) auto
  have len: "cpr_strlen h ?p (sz_sub lim 1) = Some (length s)"
    using cpr_strlen_cstr [OF s] clip_pred [OF assms(6,7)] by simp
  have ls: "ls \<noteq> Null" "\<exists>c. c \<noteq> 0 \<and> load h ls = Some c"
    using assms(3,4) by (auto dest: cstr_not_Null cstr_nonempty)
  have "cpr_strtrim h ?p ls lim = Some (Ptr b (length pre + ?n))"
    using strtrim_loop_cstr [OF assms(3) s] len ls by (auto simp: cpr_strtrim_def)
  moreover have "cstr h (Ptr b (length pre + ?n)) (dropWhile ?in s)"
    using assms(1,2) by (intro cstr_mid [where pre = "pre @ takeWhile ?in s" and post = post])
      (auto dest: set_dropWhileD)
  moreover have "cpr_strchop h ?p ls lim = Some (?p, ?h)"
    using strchop_loop_block [OF assms(3,5,1) refl assms(2)] len ls by (auto simp: cpr_strchop_def)
  moreover have "cstr ?h ?p ?t"
  proof -
    have "0 \<notin> set ?t" using assms(2) by (auto dest: set_dropWhileD)
    moreover obtain post' where "replicate ?m 0 @ 0 # post = 0 # post'" by (cases ?m) auto
    ultimately show ?thesis by (intro cstr_mid [where post = post']) simp_all
  qed
  ultimately show ?thesis by blast
qed

theorem cpr_strtrim_strchop_witness:
  "\<exists>q. cpr_strtrim (heap_of [str_bytes ''  a b '' @ [0], str_bytes '' '' @ [0]]) (Ptr 0 0) (Ptr 1 0) 64 = Some q \<and>
     cstr (heap_of [str_bytes ''  a b '' @ [0], str_bytes '' '' @ [0]]) q (str_bytes ''a b '')"
proof -
  let ?h = "heap_of [str_bytes ''  a b '' @ [0], str_bytes '' '' @ [0]]"
  have "cstr ?h (Ptr 1 0) (str_bytes '' '')"
    by (rule cstr_mid [of _ _ "[]" _ "[]"]) (auto simp: str_bytes_def char_byte_def)
  then show ?thesis
    using cpr_strtrim_strchop [of ?h 0 "[]" "str_bytes ''  a b ''" "[]" "Ptr 1 0" "str_bytes '' ''" 64]
    by (auto simp: str_bytes_def char_byte_def)
qed

subsection \<open>Keeping one end\<close>

lemma strhead_loop_block:
  assumes "hblk h b = Some (pre @ gap @ t @ 0 # post)" and "length pre = k" and "0 \<notin> set t"
  shows "\<exists>junk. strhead_loop h (Ptr b k) (Ptr b (k + length gap)) =
      Some (put_block h b (pre @ t @ 0 # junk @ post)) \<and> length junk = length gap"
  using assms
proof (induction t arbitrary: h pre gap k)
  case Nil
  then have "load h (Ptr b (k + length gap)) = Some 0" by (auto simp: load_Ptr nth_append)
  moreover have "\<exists>junk. store h (Ptr b k) 0 = Some (put_block h b (pre @ 0 # junk @ post)) \<and>
      length junk = length gap"
  proof (cases gap)
    case (Cons g gs)
    with Nil show ?thesis by (intro exI [of _ "gs @ [0]"]) (auto simp: store_Ptr)
  qed (use Nil in \<open>auto simp: store_Ptr\<close>)
  ultimately show ?case by (subst strhead_loop.simps) simp
next
  case (Cons c t)
  have ld: "load h (Ptr b (k + length gap)) = Some c" using Cons.prems by (auto simp: load_Ptr nth_append)
  obtain gap' where gap': "store h (Ptr b k) c = Some (put_block h b ((pre @ [c]) @ gap' @ t @ 0 # post))"
    "length gap' = length gap"
  proof (cases gap)
    case Nil
    with Cons.prems that [of "[]"] show thesis by (auto simp: store_Ptr)
  next
    case (Cons g gs)
    with Cons.prems that [of "gs @ [c]"] show thesis by (auto simp: store_Ptr)
  qed
  let ?h = "put_block h b ((pre @ [c]) @ gap' @ t @ 0 # post)"
  obtain junk where "strhead_loop ?h (Ptr b (k + 1)) (Ptr b (k + 1 + length gap')) =
      Some (put_block ?h b ((pre @ [c]) @ t @ 0 # junk @ post))" "length junk = length gap'"
    using Cons.IH [of ?h "pre @ [c]" gap' "k + 1"] Cons.prems by auto
  with ld gap' Cons.prems(3) show ?case by (subst strhead_loop.simps) (auto intro!: exI [of _ junk])
qed

text \<open>
  For a string of at most \<open>lim\<close> characters \<^verbatim>\<open>cpr_strhead\<close> removes the first \<open>count\<close>
  characters in place and returns the new length, a larger count emptying the string.
  \<^verbatim>\<open>cpr_strtail\<close> keeps the first \<open>count\<close> characters; a count that is not below the
  limit changes nothing and returns 0, and a count between the length and the limit
  empties the string while the returned length is the old one.
\<close>

theorem cpr_strhead_strtail:
  assumes "hblk h b = Some (pre @ s @ 0 # post)" and "0 \<notin> set s" and "length s \<le> lim"
  shows "\<exists>h1 h2. cpr_strhead h (Ptr b (length pre)) lim count = Some (length s - count, h1) \<and>
      cstr h1 (Ptr b (length pre)) (drop count s) \<and>
    cpr_strtail h (Ptr b (length pre)) lim count =
      Some (if count \<ge> lim then 0 else min count (length s), h2) \<and>
      cstr h2 (Ptr b (length pre)) (if count \<ge> lim then s else if count < length s then take count s else []) \<and>
      (\<forall>d. d \<noteq> b \<longrightarrow> hblk h1 d = hblk h d \<and> hblk h2 d = hblk h d)"
proof -
  let ?p = "Ptr b (length pre)"
  have s: "cstr h ?p s" using assms(1,2) by (intro cstr_mid) auto
  have len: "cpr_strlen h ?p lim = Some (length s)"
    using cpr_strlen_cstr [OF s, of lim] assms(3) by simp
  obtain tl where tl: "s @ 0 # post = hd (s @ [0]) # tl" by (cases s) auto
  let ?e = "put_block h b (pre @ 0 # tl)"
  have emp: "store h ?p 0 = Some ?e" "cstr ?e ?p []"
    using assms(1) tl by (auto simp: store_Ptr load_Ptr)
  have "\<exists>h1. cpr_strhead h ?p lim count = Some (length s - count, h1) \<and> cstr h1 ?p (drop count s) \<and>
      (\<forall>d. d \<noteq> b \<longrightarrow> hblk h1 d = hblk h d)"
  proof (cases "count < length s")
    case True
    have nz: "0 \<notin> set (drop count s)" using assms(2) by (auto dest: in_set_dropD)
    have "hblk h b = Some (pre @ take count s @ drop count s @ 0 # post)"
      using assms(1) by (metis append_assoc append_take_drop_id)
    from strhead_loop_block [OF this refl nz] True obtain junk
      where "strhead_loop h ?p (Ptr b (length pre + count)) =
        Some (put_block h b (pre @ drop count s @ 0 # junk @ post))" by auto
    with True len nz show ?thesis
      by (auto simp: cpr_strhead_def intro!: cstr_mid [where post = "junk @ post"])
  qed (use len emp in \<open>auto simp: cpr_strhead_def\<close>)
  moreover have "\<exists>h2. cpr_strtail h ?p lim count =
        Some (if count \<ge> lim then 0 else min count (length s), h2) \<and>
      cstr h2 ?p (if count \<ge> lim then s else if count < length s then take count s else []) \<and>
      (\<forall>d. d \<noteq> b \<longrightarrow> hblk h2 d = hblk h d)"
  proof (cases "count < length s \<and> count < lim")
    case True
    let ?h = "put_block h b (pre @ take count s @ 0 # drop (Suc count) s @ 0 # post)"
    have "store h (Ptr b (length pre + count)) 0 = Some ?h"
      using assms(1) True by (simp add: store_Ptr list_update_append upd_conv_take_nth_drop)
    moreover have "cstr ?h ?p (take count s)"
      using assms(2) by (intro cstr_mid [where post = "drop (Suc count) s @ 0 # post"])
        (auto dest: in_set_takeD)
    ultimately show ?thesis using True len by (auto simp: cpr_strtail_def)
  qed (use len emp s in \<open>auto simp: cpr_strtail_def\<close>)
  ultimately show ?thesis by blast
qed

theorem cpr_strhead_strtail_witness:
  "\<exists>h1. cpr_strhead (heap_of [str_bytes ''abcd'' @ [0]]) (Ptr 0 0) 10 1 = Some (3, h1) \<and>
     cstr h1 (Ptr 0 0) (str_bytes ''bcd'')"
  using cpr_strhead_strtail [of "heap_of [str_bytes ''abcd'' @ [0]]" 0 "[]" "str_bytes ''abcd''" "[]" 10 1]
  by (auto simp: str_bytes_def char_byte_def)

text \<open>
  \<^verbatim>\<open>cpr_strlen\<close> with a positive limit is safe on a buffer of that size, terminated
  or not: it never reads past it and returns the number of characters before the first
  NUL or the limit.
\<close>

theorem cpr_strlen_bounded:
  assumes "hblk h b = Some (pre @ bs)" and "0 < lim" and "lim \<le> length bs"
  shows "cpr_strlen h (Ptr b (length pre)) lim = Some (length (takeWhile (\<lambda>c. c \<noteq> 0) (take lim bs))) \<and>
    length (takeWhile (\<lambda>c. c \<noteq> 0) (take lim bs)) \<le> lim"
  using strlen_loop_block [OF assms(1) refl, of 0 lim] assms
  by (auto simp: cpr_strlen_def max_def intro: le_trans [OF length_takeWhile_le])

theorem cpr_strlen_bounded_witness:
  "cpr_strlen (heap_of [[104, 105, 33]]) (Ptr 0 0) 3 = Some 3"
  using cpr_strlen_bounded [of "heap_of [[104, 105, 33]]" 0 "[]" "[104, 105, 33]" 3] by simp

end
