(* ===== verification/Memio.thy ===== *)
theory Memio
  imports Strchar
begin

text \<open>
  \<^verbatim>\<open>src/memio.c\<close> and \<^verbatim>\<open>src/memio.h\<close>: a memory buffer with a read and a write position.
  The structure is a record; its bytes are the \<open>size\<close> bytes at \<open>data\<close> in the store.
  A \<^verbatim>\<open>memio_t *\<close> argument is \<^const>\<open>None\<close> for the null pointer. For an allocated object,
  \<open>addr\<close> is the block that holds the structure and, at \<^verbatim>\<open>buf\<close>, its bytes; the bytes of
  the structure's own fields in that block are represented by the record.
\<close>

record memio =
  addr :: ptr
  data :: ptr
  get :: size_t
  put :: size_t
  msize :: size_t
  alloc :: bool


subsection \<open>Construction\<close>

definition cpr_initmem :: "memio \<Rightarrow> ptr \<Rightarrow> size_t \<Rightarrow> memio" where
  "cpr_initmem mem from sz =
     mem\<lparr>get := 0, put := 0, data := from, msize := sz, alloc := False\<rparr>"

definition cpr_resetmem :: "memio option \<Rightarrow> memio option" where
  "cpr_resetmem mem = (case mem of None \<Rightarrow> None | Some m \<Rightarrow> Some (m\<lparr>get := 0, put := 0\<rparr>))"

definition cpr_freemem :: "heap \<Rightarrow> memio option \<Rightarrow> heap option" where
  "cpr_freemem h mem = (case mem of None \<Rightarrow> Some h
     | Some m \<Rightarrow> if \<not> alloc m then Some h else c_free h (addr m))"


subsection \<open>Reading and writing\<close>

definition cpr_cgetmem :: "heap \<Rightarrow> memio option \<Rightarrow> (byte \<times> memio option) option" where
  "cpr_cgetmem h mem = (case mem of None \<Rightarrow> Some (0, None)
     | Some m \<Rightarrow>
         if get m \<ge> msize m then Some (0, mem)
         else do { c \<leftarrow> load h (padd (data m) (get m)); Some (c, Some (m\<lparr>get := get m + 1\<rparr>)) })"

definition cpr_cputmem :: "heap \<Rightarrow> memio option \<Rightarrow> byte \<Rightarrow> (bool \<times> memio option \<times> heap) option" where
  "cpr_cputmem h mem ch = (case mem of None \<Rightarrow> Some (False, None, h)
     | Some m \<Rightarrow>
         if put m \<ge> msize m then Some (False, mem, h)
         else do { h \<leftarrow> store h (padd (data m) (put m)) ch;
                   Some (True, Some (m\<lparr>put := put m + 1\<rparr>), h) })"

definition cpr_xputmem ::
  "heap \<Rightarrow> memio option \<Rightarrow> ptr \<Rightarrow> size_t \<Rightarrow> (bool \<times> memio option \<times> heap) option" where
  "cpr_xputmem h mem from sz = (case mem of None \<Rightarrow> Some (False, None, h)
     | Some m \<Rightarrow>
         if sz_sub (msize m) (put m) < sz then Some (False, mem, h)
         else do {
           (ok, h) \<leftarrow> cpr_memcpy h (padd (data m) (put m)) (sz_sub (msize m) (put m)) from sz;
           if \<not> ok then Some (False, mem, h)
           else Some (True, Some (m\<lparr>put := sz_add (put m) sz\<rparr>), h) })"

definition cpr_sputmem :: "heap \<Rightarrow> memio option \<Rightarrow> ptr \<Rightarrow> (bool \<times> memio option \<times> heap) option" where
  "cpr_sputmem h mem txt =
     (if txt = Null then Some (False, mem, h)
      else (case mem of None \<Rightarrow> Some (False, None, h)
        | Some m \<Rightarrow> do {
            c \<leftarrow> load h txt;
            if c = 0 then Some (False, mem, h)
            else do {
              n \<leftarrow> cpr_strlen h txt (msize m);
              cpr_xputmem h mem txt n } }))"


definition cpr_xgetmem :: "memio option \<Rightarrow> size_t \<Rightarrow> ptr \<times> memio option" where
  "cpr_xgetmem mem sz = (case mem of None \<Rightarrow> (Null, None)
     | Some m \<Rightarrow>
         if sz_add (get m) sz > msize m then (Null, mem)
         else (padd (data m) (get m), Some (m\<lparr>get := sz_add (get m) sz\<rparr>)))"

text \<open>
  The scanning loop of \<^verbatim>\<open>cpr_lgetmem\<close>: \<open>lgetmem_loop h m d i n\<close> tries offsets \<open>i\<close>,
  \<open>i + 1\<close>, ... for \<open>n\<close> rounds and returns the first where the delimiter \<open>d\<close> stands.
\<close>

primrec lgetmem_loop :: "heap \<Rightarrow> memio \<Rightarrow> byte list \<Rightarrow> nat \<Rightarrow> nat \<Rightarrow> nat option option" where
  "lgetmem_loop h m d i 0 = Some None"
| "lgetmem_loop h m d i (Suc n) = do {
     xs \<leftarrow> load_list h (padd (data m) i) (length d);
     if xs = d then Some (Some i) else lgetmem_loop h m d (i + 1) n }"

definition delim_bytes :: "heap \<Rightarrow> ptr \<Rightarrow> byte list option" where
  "delim_bytes h delim =
     (if delim = Null then Some [10]
      else do { n \<leftarrow> cpr_strlen h delim 16; load_list h delim n })"

text \<open>The result is the line, its length when asked for, and the new state.\<close>

definition cpr_lgetmem :: "heap \<Rightarrow> memio option \<Rightarrow> bool \<Rightarrow> ptr \<Rightarrow>
    (ptr \<times> size_t option \<times> memio option \<times> heap) option" where
  "cpr_lgetmem h mem outlen delim = (case mem of None \<Rightarrow> Some (Null, None, None, h)
     | Some m \<Rightarrow>
         if get m \<ge> msize m then Some (Null, None, mem, h)
         else do {
           d \<leftarrow> delim_bytes h delim;
           found \<leftarrow> lgetmem_loop h m d (get m) (Suc (msize m) - (get m + length d));
           (case found of
              None \<Rightarrow> Some (Null, None, mem, h)
            | Some i \<Rightarrow> do {
                let result = padd (data m) (get m);
                if outlen then
                  Some (result, Some (i - get m), Some (m\<lparr>get := i + length d\<rparr>), h)
                else if i < msize m then do {
                  h \<leftarrow> store h (padd (data m) i) 0;
                  Some (result, None, Some (m\<lparr>get := i + length d\<rparr>), h) }
                else Some (Null, None, mem, h) }) })"

subsection \<open>The invariant and the sequences of calls\<close>

definition memio_ok :: "heap \<Rightarrow> memio \<Rightarrow> bool" where
  "memio_ok h m \<longleftrightarrow> get m \<le> msize m \<and> put m \<le> msize m \<and> msize m < 2 ^ 64 \<and>
     (case data m of Null \<Rightarrow> False | Ptr b k \<Rightarrow>
        (case hblk h b of None \<Rightarrow> False | Some bs \<Rightarrow> k + msize m \<le> length bs))"

lemma memio_okE:
  assumes "memio_ok h m"
  obtains b k pre bs post where "data m = Ptr b k" and "hblk h b = Some (pre @ bs @ post)"
    and "length pre = k" and "length bs = msize m" and "get m \<le> msize m" and "put m \<le> msize m"
    and "msize m < 2 ^ 64"
proof -
  from assms obtain b k cs where "data m = Ptr b k" "hblk h b = Some cs" "k + msize m \<le> length cs"
    "get m \<le> msize m" "put m \<le> msize m" "msize m < 2 ^ 64"
    by (auto simp: memio_ok_def split: ptr.splits option.splits)
  then show ?thesis
    using that [of b k "take k cs" "take (msize m) (drop k cs)" "drop (k + msize m) cs"]
    by (simp flip: split_run)
qed

lemma memio_okI:
  assumes "data m = Ptr b k" and "hblk h b = Some (pre @ bs @ post)"
    and "length pre = k" and "length bs = msize m" and "get m \<le> msize m" and "put m \<le> msize m"
    and "msize m < 2 ^ 64"
  shows "memio_ok h m"
  using assms by (simp add: memio_ok_def)

text \<open>The bytes of the buffer.\<close>

definition contents :: "heap \<Rightarrow> memio \<Rightarrow> byte list option" where
  "contents h m = load_list h (data m) (msize m)"

lemma contents_mid:
  "data m = Ptr b k \<Longrightarrow> hblk h b = Some (pre @ bs @ post) \<Longrightarrow> length pre = k \<Longrightarrow>
   length bs = msize m \<Longrightarrow> contents h m = Some bs"
  by (simp add: contents_def load_list_mid)

lemma memio_contents:
  assumes "memio_ok h m"
  obtains bs where "contents h m = Some bs" and "length bs = msize m"
  using assms by (elim memio_okE) (metis contents_mid)

text \<open>Storing a run of bytes inside the buffer.\<close>

lemma memio_store:
  assumes "memio_ok h m" and "i + length vs \<le> msize m" and "contents h m = Some bs"
  obtains h' where "store_list h (padd (data m) i) vs = Some h'" and "memio_ok h' m"
    and "contents h' m = Some (take i bs @ vs @ drop (i + length vs) bs)"
    and "\<And>b. b \<noteq> ptr_block (data m) \<Longrightarrow> hblk h' b = hblk h b"
proof -
  obtain b k pre cs post where m: "data m = Ptr b k" "hblk h b = Some (pre @ cs @ post)"
    "length pre = k" "length cs = msize m" "get m \<le> msize m" "put m \<le> msize m" "msize m < 2 ^ 64"
    using assms(1) by (rule memio_okE)
  with assms(3) have "cs = bs" using contents_mid [of m b k h pre cs post] by simp
  let ?old = "take (length vs) (drop i bs)"
  let ?bs = "take i bs @ vs @ drop (i + length vs) bs"
  let ?h = "put_block h b (pre @ ?bs @ post)"
  have len: "length bs = msize m" using m(4) \<open>cs = bs\<close> by simp
  have "bs = take i bs @ ?old @ drop (i + length vs) bs"
    by (rule split_run)
  then have "hblk h b = Some ((pre @ take i bs) @ ?old @ drop (i + length vs) bs @ post)"
    using m(2) \<open>cs = bs\<close> by (metis append_assoc)
  then have "store_list h (Ptr b (k + i)) vs = Some (put_block h b ((pre @ take i bs) @ vs @ drop (i + length vs) bs @ post))"
    by (rule store_list_mid) (use m(3) len assms(2) in auto)
  then have st: "store_list h (padd (data m) i) vs = Some ?h" using m(1) by simp
  have len': "length ?bs = msize m" using len assms(2) by simp
  show ?thesis
  proof (rule that [OF st])
    show "memio_ok ?h m"
      by (rule memio_okI [of m b k ?h pre ?bs post]) (use m len' in auto)
    show "contents ?h m = Some ?bs"
      by (rule contents_mid [of m b k ?h pre ?bs post]) (use m len' in auto)
  qed (use m(1) in auto)
qed

lemma memio_load:
  assumes "contents h m = Some bs" and "memio_ok h m" and "i + n \<le> msize m"
  shows "load_list h (padd (data m) i) n = Some (take n (drop i bs))"
proof -
  obtain b k pre cs post where m: "data m = Ptr b k" "hblk h b = Some (pre @ cs @ post)"
    "length pre = k" "length cs = msize m"
    using assms(2) by (rule memio_okE)
  with assms(1) have "cs = bs" using contents_mid [of m b k h pre cs post] by simp
  with m assms(3) show ?thesis using load_list_block [OF m(2), of "k + i" n] by simp
qed

lemma memio_load1:
  assumes "contents h m = Some bs" and "memio_ok h m" and "i < msize m"
  shows "load h (padd (data m) i) = Some (bs ! i)"
proof -
  have "length bs = msize m" using memio_contents [OF assms(2)] assms(1) by auto
  then show ?thesis
    using memio_load [OF assms(1,2), of i 1] assms(3)
    by (auto simp: bind_eq_Some_conv take_Suc hd_drop_conv_nth)
qed

lemma memio_ok_cong:
  "memio_ok h m \<Longrightarrow> data m' = data m \<Longrightarrow> msize m' = msize m \<Longrightarrow> get m' \<le> msize m \<Longrightarrow>
   put m' \<le> msize m \<Longrightarrow> memio_ok h m'"
  by (auto simp: memio_ok_def split: ptr.splits option.splits)

lemma contents_cong: "data m' = data m \<Longrightarrow> msize m' = msize m \<Longrightarrow> contents h m' = contents h m"
  by (simp add: contents_def)

text \<open>What every operation guarantees: the buffer stays the same object and well-formed, and
  no other block of the store changes.\<close>

definition mem_frame :: "heap \<Rightarrow> memio \<Rightarrow> heap \<Rightarrow> memio \<Rightarrow> bool" where
  "mem_frame h m h' m' \<longleftrightarrow> memio_ok h' m' \<and> data m' = data m \<and> msize m' = msize m \<and>
     (\<forall>b. b \<noteq> ptr_block (data m) \<longrightarrow> hblk h' b = hblk h b)"


lemma mem_frameI:
  "memio_ok h' m \<Longrightarrow> (\<And>b. b \<noteq> ptr_block (data m) \<Longrightarrow> hblk h' b = hblk h b) \<Longrightarrow>
   data m' = data m \<Longrightarrow> msize m' = msize m \<Longrightarrow> get m' \<le> msize m \<Longrightarrow> put m' \<le> msize m \<Longrightarrow>
   mem_frame h m h' m'"
  by (auto simp: mem_frame_def intro: memio_ok_cong)

lemma memio_ok_bounds:
  "memio_ok h m \<Longrightarrow> get m \<le> msize m" "memio_ok h m \<Longrightarrow> put m \<le> msize m"
  "memio_ok h m \<Longrightarrow> msize m < 2 ^ 64" "memio_ok h m \<Longrightarrow> data m \<noteq> Null"
  by (auto simp: memio_ok_def)

lemma cpr_cputmem_spec:
  assumes "memio_ok h m" and "contents h m = Some bs" and "put m < msize m"
  obtains h' where "cpr_cputmem h (Some m) c = Some (True, Some (m\<lparr>put := put m + 1\<rparr>), h')"
    and "mem_frame h m h' (m\<lparr>put := put m + 1\<rparr>)" and "contents h' m = Some (bs[put m := c])"
proof -
  have "length bs = msize m" using memio_contents [OF assms(1)] assms(2) by auto
  moreover obtain h' where "store_list h (padd (data m) (put m)) [c] = Some h'" "memio_ok h' m"
    "contents h' m = Some (take (put m) bs @ [c] @ drop (put m + length [c]) bs)"
    "\<And>b. b \<noteq> ptr_block (data m) \<Longrightarrow> hblk h' b = hblk h b"
    using memio_store [OF assms(1) _ assms(2), of "put m" "[c]"] assms(3) by auto
  ultimately show ?thesis
    using assms(3) memio_ok_bounds [OF assms(1)]
    by (intro that [of h'] mem_frameI)
      (auto simp: cpr_cputmem_def bind_eq_Some_conv upd_conv_take_nth_drop)
qed

lemma cpr_xputmem_spec:
  assumes "memio_ok h m" and "contents h m = Some bs" and "put m + n \<le> msize m"
    and "load_list h p n = Some cs" and "p \<noteq> Null" and "ptr_block p \<noteq> ptr_block (data m)"
  obtains h' where "cpr_xputmem h (Some m) p n = Some (True, Some (m\<lparr>put := put m + n\<rparr>), h')"
    and "mem_frame h m h' (m\<lparr>put := put m + n\<rparr>)"
    and "contents h' m = Some (take (put m) bs @ cs @ drop (put m + n) bs)"
proof -
  note b = memio_ok_bounds [OF assms(1)]
  have n: "length cs = n" by (rule load_list_length [OF assms(4)])
  obtain h' where h': "store_list h (padd (data m) (put m)) cs = Some h'" "memio_ok h' m"
    "contents h' m = Some (take (put m) bs @ cs @ drop (put m + length cs) bs)"
    "\<And>b. b \<noteq> ptr_block (data m) \<Longrightarrow> hblk h' b = hblk h b"
    using memio_store [OF assms(1) _ assms(2), of "put m" cs] assms(3) n by auto
  have "\<not> ranges_overlap (padd (data m) (put m)) p n"
    using assms(5,6) b(4) by (cases p; cases "data m") auto
  with h'(1) assms b(4) have "cpr_memcpy h (padd (data m) (put m)) (msize m - put m) p n = Some (True, h')"
    by (simp add: cpr_memcpy_def c_memcpy_def c_memmove_def)
  moreover have "sz_sub (msize m) (put m) = msize m - put m" "sz_add (put m) n = put m + n"
    using b assms(3) by (simp_all add: size_simps)
  ultimately show ?thesis
    using h' n assms(3) b by (intro that [of h'] mem_frameI) (auto simp: cpr_xputmem_def)
qed

lemma cpr_xputmem_full:
  "memio_ok h m \<Longrightarrow> msize m < put m + n \<Longrightarrow> cpr_xputmem h (Some m) p n = Some (False, Some m, h)"
  using memio_ok_bounds [of h m] by (simp add: cpr_xputmem_def size_simps less_diff_conv2)



text \<open>The delimiter stands at offset \<open>j\<close> of the buffer.\<close>

definition delim_at :: "byte list \<Rightarrow> byte list \<Rightarrow> nat \<Rightarrow> bool" where
  "delim_at d bs j \<longleftrightarrow> take (length d) (drop j bs) = d"

lemma lgetmem_loop_find:
  "memio_ok h m \<Longrightarrow> contents h m = Some bs \<Longrightarrow> n = 0 \<or> i + n + length d \<le> Suc (msize m) \<Longrightarrow>
   lgetmem_loop h m d i n = Some (List.find (delim_at d bs) [i..<i + n])"
proof (induction n arbitrary: i)
  case (Suc n)
  have "load_list h (padd (data m) i) (length d) = Some (take (length d) (drop i bs))"
    using Suc.prems by (intro memio_load) auto
  moreover have "[i..<i + Suc n] = i # [Suc i..<Suc i + n]" by (simp add: upt_conv_Cons)
  ultimately show ?case using Suc by (simp add: delim_at_def del: upt_Suc)
qed simp


lemma cpr_lgetmem_none:
  assumes "memio_ok h m" and "contents h m = Some bs" and "get m < msize m"
    and "delim_bytes h p = Some d"
    and "\<And>j. get m \<le> j \<Longrightarrow> j + length d \<le> msize m \<Longrightarrow> \<not> delim_at d bs j"
  shows "cpr_lgetmem h (Some m) outlen p = Some (Null, None, Some m, h)"
proof -
  let ?n = "Suc (msize m) - (get m + length d)"
  have n: "?n = 0 \<or> get m + ?n + length d \<le> Suc (msize m)" by arith
  have "List.find (delim_at d bs) [get m..<get m + ?n] = None"
    using assms(5) by (auto simp: find_None_iff)
  then have "lgetmem_loop h m d (get m) ?n = Some None"
    using lgetmem_loop_find [OF assms(1,2), of ?n "get m" d] n by simp
  with assms show ?thesis by (simp add: cpr_lgetmem_def)
qed

lemma cpr_lgetmem_some:
  assumes "memio_ok h m" and "contents h m = Some bs" and "get m < msize m"
    and "delim_bytes h p = Some d" and "get m \<le> i" and "i + length d \<le> msize m" and "delim_at d bs i"
    and "\<And>j. get m \<le> j \<Longrightarrow> j < i \<Longrightarrow> \<not> delim_at d bs j"
  obtains h' where "cpr_lgetmem h (Some m) True p =
      Some (padd (data m) (get m), Some (i - get m), Some (m\<lparr>get := i + length d\<rparr>), h)"
    and "cpr_lgetmem h (Some m) False p =
      Some (padd (data m) (get m), None, Some (m\<lparr>get := i + length d\<rparr>), h')"
    and "i < msize m"
    and "mem_frame h m h (m\<lparr>get := i + length d\<rparr>)"
    and "mem_frame h m h' (m\<lparr>get := i + length d\<rparr>)"
    and "contents h' m = Some (bs[i := 0])"
proof -
  note b = memio_ok_bounds [OF assms(1)]
  have len: "length bs = msize m" using memio_contents [OF assms(1)] assms(2) by auto
  let ?n = "Suc (msize m) - (get m + length d)"
  have n: "?n = 0 \<or> get m + ?n + length d \<le> Suc (msize m)" by arith
  have "List.find (delim_at d bs) [get m..<get m + ?n] = Some i"
    using assms(5-8) by (auto simp: find_Some_iff intro!: exI [of _ "i - get m"])
  then have lp: "lgetmem_loop h m d (get m) ?n = Some (Some i)"
    using lgetmem_loop_find [OF assms(1,2), of ?n "get m" d] n by simp
  have d: "i = get m" if "d = []" 
    using assms(8) [of "get m"] assms(5) that by (fastforce simp: delim_at_def)
  then have lt: "i < msize m" using assms(3,6) by (cases d) auto
  obtain h' where h': "store_list h (padd (data m) i) [0] = Some h'" "memio_ok h' m"
    "contents h' m = Some (take i bs @ [0] @ drop (i + length [0 :: byte]) bs)"
    "\<And>b. b \<noteq> ptr_block (data m) \<Longrightarrow> hblk h' b = hblk h b"
    using memio_store [OF assms(1) _ assms(2), of i "[0]"] lt by auto
  show ?thesis
    using lp assms(3,4,6) d h' lt len b assms(1)
    by (intro that [of h'] mem_frameI)
      (auto simp: cpr_lgetmem_def bind_eq_Some_conv upd_conv_take_nth_drop)
qed


















subsection \<open>What was written is read back\<close>

primrec put_chars :: "heap \<Rightarrow> memio option \<Rightarrow> byte list \<Rightarrow> (bool \<times> memio option \<times> heap) option" where
  "put_chars h mem [] = Some (True, mem, h)"
| "put_chars h mem (c # cs) = do {
     (ok, mem, h) \<leftarrow> cpr_cputmem h mem c;
     if ok then put_chars h mem cs else Some (False, mem, h) }"

primrec get_chars :: "heap \<Rightarrow> memio option \<Rightarrow> nat \<Rightarrow> (byte list \<times> memio option) option" where
  "get_chars h mem 0 = Some ([], mem)"
| "get_chars h mem (Suc n) = do {
     (c, mem) \<leftarrow> cpr_cgetmem h mem;
     (cs, mem) \<leftarrow> get_chars h mem n;
     Some (c # cs, mem) }"

lemma put_chars_spec:
  "memio_ok h m \<Longrightarrow> contents h m = Some bs \<Longrightarrow> put m + length cs \<le> msize m \<Longrightarrow>
   \<exists>h'. put_chars h (Some m) cs = Some (True, Some (m\<lparr>put := put m + length cs\<rparr>), h') \<and>
     memio_ok h' (m\<lparr>put := put m + length cs\<rparr>) \<and>
     contents h' m = Some (take (put m) bs @ cs @ drop (put m + length cs) bs)"
proof (induction cs arbitrary: h m bs)
  case (Cons c cs)
  let ?m = "m\<lparr>put := put m + 1\<rparr>"
  obtain h1 where h1: "cpr_cputmem h (Some m) c = Some (True, Some ?m, h1)"
    "mem_frame h m h1 ?m" "contents h1 m = Some (bs[put m := c])"
    using cpr_cputmem_spec [OF Cons.prems(1,2)] Cons.prems(3) by auto
  have len: "length bs = msize m" using memio_contents [OF Cons.prems(1)] Cons.prems(2) by auto
  have c1: "contents h1 ?m = Some (bs[put m := c])" using h1(3) by (simp add: contents_def)
  from Cons.IH [OF _ c1] h1(2) Cons.prems(3) obtain h2 where
    "put_chars h1 (Some ?m) cs = Some (True, Some (?m\<lparr>put := put ?m + length cs\<rparr>), h2)"
    "memio_ok h2 (?m\<lparr>put := put ?m + length cs\<rparr>)"
    "contents h2 ?m = Some (take (put ?m) (bs[put m := c]) @ cs @ drop (put ?m + length cs) (bs[put m := c]))"
    by (auto simp: mem_frame_def)
  with h1(1) len Cons.prems(3) show ?case
    by (simp add: contents_def upd_conv_take_nth_drop add.commute)
qed (simp add: memio_ok_def)

lemma get_chars_spec:
  "memio_ok h m \<Longrightarrow> contents h m = Some bs \<Longrightarrow> get m + n \<le> msize m \<Longrightarrow>
   get_chars h (Some m) n = Some (take n (drop (get m) bs), Some (m\<lparr>get := get m + n\<rparr>))"
proof (induction n arbitrary: m)
  case (Suc n)
  let ?m = "m\<lparr>get := get m + 1\<rparr>"
  have len: "length bs = msize m" using memio_contents [OF Suc.prems(1)] Suc.prems(2) by auto
  have "cpr_cgetmem h (Some m) = Some (bs ! get m, Some ?m)"
    using Suc.prems memio_load1 [OF Suc.prems(2,1), of "get m"] by (simp add: cpr_cgetmem_def)
  moreover have "get_chars h (Some ?m) n = Some (take n (drop (get ?m) bs), Some (?m\<lparr>get := get ?m + n\<rparr>))"
    using Suc.prems memio_ok_bounds [OF Suc.prems(1)]
    by (intro Suc.IH) (auto simp: contents_def intro: memio_ok_cong)
  ultimately show ?case using Suc.prems(3) len by (simp flip: Cons_nth_drop_Suc)
qed simp

text \<open>
  C30. Bytes written to a memory buffer are read back in order: after a reset, writing
  any bytes that fit with \<^verbatim>\<open>cpr_cputmem\<close> and then reading as many with \<^verbatim>\<open>cpr_cgetmem\<close>
  gives them back, \<^verbatim>\<open>cpr_xgetmem\<close> returns a pointer to exactly the bytes
  \<^verbatim>\<open>cpr_xputmem\<close> copied in, and a write that does not fit is refused without effect.
\<close>

theorem memio_roundtrip:
  assumes "memio_ok h m" and "length cs \<le> msize m"
    and "load_list h p n = Some ds" and "p \<noteq> Null" and "ptr_block p \<noteq> ptr_block (data m)"
  shows "\<exists>m0 m1 h1 m2. cpr_resetmem (Some m) = Some m0 \<and>
     put_chars h (Some m0) cs = Some (True, Some m1, h1) \<and>
     get_chars h1 (Some m1) (length cs) = Some (cs, Some m2) \<and>
     (n \<le> msize m \<longrightarrow> (\<exists>m3 h3. cpr_xputmem h (Some m0) p n = Some (True, Some m3, h3) \<and>
        (\<exists>q m4. cpr_xgetmem (Some m3) n = (q, Some m4) \<and> load_list h3 q n = Some ds))) \<and>
     (msize m < n \<longrightarrow> cpr_xputmem h (Some m0) p n = Some (False, Some m0, h))"
proof -
  let ?m = "m\<lparr>get := 0, put := 0\<rparr>"
  have ok: "memio_ok h ?m" using assms(1) by (auto intro: memio_ok_cong)
  obtain bs where bs: "contents h ?m = Some bs" "length bs = msize m"
    using memio_contents [OF ok] by auto
  let ?m1 = "?m\<lparr>put := length cs\<rparr>"
  obtain h1 where put: "put_chars h (Some ?m) cs = Some (True, Some ?m1, h1)" "memio_ok h1 ?m1"
    "contents h1 ?m = Some (cs @ drop (length cs) bs)"
    using put_chars_spec [OF ok bs(1), of cs] assms(2) by auto
  have "get_chars h1 (Some ?m1) (length cs) = Some (cs, Some (?m1\<lparr>get := length cs\<rparr>))"
    using get_chars_spec [OF put(2), of "cs @ drop (length cs) bs" "length cs"] put(3) assms(2)
    by (simp add: contents_def)
  moreover have "\<exists>m3 h3. cpr_xputmem h (Some ?m) p n = Some (True, Some m3, h3) \<and>
      (\<exists>q m4. cpr_xgetmem (Some m3) n = (q, Some m4) \<and> load_list h3 q n = Some ds)" if n: "n \<le> msize m"
  proof -
    obtain h3 where x: "cpr_xputmem h (Some ?m) p n = Some (True, Some (?m\<lparr>put := n\<rparr>), h3)"
      "mem_frame h ?m h3 (?m\<lparr>put := n\<rparr>)" "contents h3 ?m = Some (ds @ drop n bs)"
      using cpr_xputmem_spec [OF ok bs(1), of n p ds] assms(3-5) n by auto
    have "load_list h3 (padd (data (?m\<lparr>put := n\<rparr>)) 0) n = Some (take n (drop 0 (ds @ drop n bs)))"
      using x(2,3) n by (intro memio_load) (auto simp: mem_frame_def contents_def)
    moreover have "sz_add 0 n = n" using n memio_ok_bounds(3) [OF assms(1)] by (simp add: size_simps)
    ultimately show ?thesis
      using x(1) n load_list_length [OF assms(3)] by (simp add: cpr_xgetmem_def)
  qed
  moreover have "cpr_xputmem h (Some ?m) p n = Some (False, Some ?m, h)" if "msize m < n"
    using cpr_xputmem_full [OF ok] that by simp
  ultimately show ?thesis using put(1) by (auto simp: cpr_resetmem_def)
qed

theorem memio_roundtrip_witness:
  "\<exists>m0 m1 h1 m2. cpr_resetmem (Some (cpr_initmem undefined (Ptr 0 0) 4)) = Some m0 \<and>
     put_chars (heap_of [[0, 0, 0, 0], [7]]) (Some m0) [1, 2, 3] = Some (True, Some m1, h1) \<and>
     get_chars h1 (Some m1) 3 = Some ([1, 2, 3], Some m2)"
  using memio_roundtrip [of "heap_of [[0, 0, 0, 0], [7]]" "cpr_initmem undefined (Ptr 0 0) 4" "[1, 2, 3]"
      "Ptr 1 0" 1 "[7]"]
  by (auto simp: memio_ok_def cpr_initmem_def mem_simps numeral_3_eq_3)

text \<open>
  The bound check of \<^verbatim>\<open>cpr_xgetmem\<close> adds in \<^verbatim>\<open>size_t\<close>: a request of
  \<open>2 ^ 64 - j\<close> bytes wraps around, is granted although the buffer is smaller, and moves the
  read position back by \<open>j\<close>. For every request whose sum does not wrap the check is exact.
\<close>

theorem cpr_xgetmem_wraps:
  assumes "memio_ok h m"
  shows "(0 < j \<and> j \<le> get m \<longrightarrow> cpr_xgetmem (Some m) (2 ^ 64 - j) =
      (padd (data m) (get m), Some (m\<lparr>get := get m - j\<rparr>)) \<and> msize m < 2 ^ 64 - j + get m) \<and>
    (get m + n < 2 ^ 64 \<longrightarrow> cpr_xgetmem (Some m) n =
      (if get m + n \<le> msize m then (padd (data m) (get m), Some (m\<lparr>get := get m + n\<rparr>))
       else (Null, Some m)))"
proof -
  note b = memio_ok_bounds [OF assms]
  have "sz_add (get m) (2 ^ 64 - j) = get m - j" if "0 < j" "j \<le> get m"
  proof -
    have "get m + (2 ^ 64 - j) = 2 ^ 64 + (get m - j)" using that b by simp
    moreover have "get m - j < 2 ^ 64" using b by simp
    ultimately show ?thesis unfolding sz_add_def by (metis mod_add_self1 mod_less)
  qed
  then show ?thesis using b by (auto simp: cpr_xgetmem_def size_simps)
qed

theorem cpr_xgetmem_wraps_witness:
  "cpr_xgetmem (Some (cpr_initmem undefined (Ptr 0 0) 4\<lparr>get := 3\<rparr>)) (2 ^ 64 - 2) =
     (Ptr 0 3, Some (cpr_initmem undefined (Ptr 0 0) 4\<lparr>get := 1\<rparr>))"
  using cpr_xgetmem_wraps [of "heap_of [[0, 0, 0, 0]]" "cpr_initmem undefined (Ptr 0 0) 4\<lparr>get := 3\<rparr>" 2 0]
  by (simp add: memio_ok_def cpr_initmem_def)

text \<open>
  \<^verbatim>\<open>cpr_lgetmem\<close> with a non-empty delimiter returns the bytes from the read position
  up to the first place the delimiter (at most its first 16 characters) stands, moves
  the read position just behind it, and reports the length without writing, or, when no
  length is asked for, terminates the line in place: the caller then sees it as a
  string if it holds no NUL. When the delimiter does not occur nothing changes.
\<close>

theorem cpr_lgetmem_line:
  assumes "memio_ok h m" and "contents h m = Some bs" and "get m < msize m"
    and "delim_bytes h p = Some d" and "d \<noteq> []"
    and "drop (get m) bs = ln @ d @ rest" and "\<forall>j < length ln. take (length d) (drop j (ln @ d @ rest)) \<noteq> d"
    and "0 \<notin> set ln"
  shows "cpr_lgetmem h (Some m) True p = Some (padd (data m) (get m), Some (length ln),
      Some (m\<lparr>get := get m + length ln + length d\<rparr>), h) \<and>
    load_list h (padd (data m) (get m)) (length ln) = Some ln \<and>
    (\<exists>h'. cpr_lgetmem h (Some m) False p = Some (padd (data m) (get m), None,
      Some (m\<lparr>get := get m + length ln + length d\<rparr>), h') \<and>
      cstr h' (padd (data m) (get m)) ln \<and> contents h' m = Some (bs[get m + length ln := 0])) \<and>
    (\<forall>q d'. delim_bytes h q = Some d' \<longrightarrow> (\<forall>j. j + length d' \<le> msize m \<longrightarrow> \<not> delim_at d' bs j) \<longrightarrow>
      cpr_lgetmem h (Some m) True q = Some (Null, None, Some m, h) \<and>
      cpr_lgetmem h (Some m) False q = Some (Null, None, Some m, h))"
proof (intro conjI)
  let ?i = "get m + length ln"
  have len: "length bs = msize m" using memio_contents [OF assms(1)] assms(2) by auto
  have room: "length (drop (get m) bs) = length ln + length d + length rest" using assms(6) by simp
  then have i: "?i + length d \<le> msize m" using len assms(3) by simp
  have at: "delim_at d bs (get m + j) \<longleftrightarrow> take (length d) (drop j (ln @ d @ rest)) = d" for j
    unfolding delim_at_def assms(6) [symmetric] by (simp add: add.commute)
  have at_i: "delim_at d bs ?i" by (simp only: at) simp
  have least: "\<not> delim_at d bs j" if "get m \<le> j" "j < ?i" for j
  proof -
    have "j - get m < length ln" using that by linarith
    with assms(7) at [of "j - get m"] have "\<not> delim_at d bs (get m + (j - get m))" by blast
    with that(1) show ?thesis by simp
  qed
  obtain h' where h': "cpr_lgetmem h (Some m) True p = Some (padd (data m) (get m), Some (?i - get m),
        Some (m\<lparr>get := ?i + length d\<rparr>), h)"
      "cpr_lgetmem h (Some m) False p = Some (padd (data m) (get m), None, Some (m\<lparr>get := ?i + length d\<rparr>), h')"
      "?i < msize m" "mem_frame h m h' (m\<lparr>get := ?i + length d\<rparr>)" "contents h' m = Some (bs[?i := 0])"
    using cpr_lgetmem_some [OF assms(1-4) _ i at_i least] by auto
  from h'(1) show "cpr_lgetmem h (Some m) True p = Some (padd (data m) (get m), Some (length ln),
      Some (m\<lparr>get := get m + length ln + length d\<rparr>), h)" by simp
  show "load_list h (padd (data m) (get m)) (length ln) = Some ln"
    using memio_load [OF assms(2,1), of "get m" "length ln"] i assms(6) by simp
  obtain b k pre cs post where m: "data m = Ptr b k" "hblk h' b = Some (pre @ cs @ post)"
    "length pre = k" "length cs = msize m"
    using h'(4) by (auto simp: mem_frame_def elim: memio_okE)
  then have "cs = bs[?i := 0]" using h'(5) contents_mid [of m b k h' pre cs post] by simp
  also have "bs = take (get m) bs @ ln @ d @ rest" using assms(6) by (metis append_take_drop_id)
  finally have "cs = take (get m) bs @ ln @ (d @ rest)[0 := 0]"
    using assms(3) len by (simp add: list_update_append)
  then obtain tl where "cs = take (get m) bs @ ln @ 0 # tl" using assms(5) by (cases d) auto
  with m assms(3,8) len have "cstr h' (padd (data m) (get m)) ln"
    by (auto intro!: cstr_mid [where pre = "pre @ take (get m) bs" and post = "tl @ post"])
  with h'(2,5) show "\<exists>h'. cpr_lgetmem h (Some m) False p = Some (padd (data m) (get m), None,
      Some (m\<lparr>get := get m + length ln + length d\<rparr>), h') \<and>
      cstr h' (padd (data m) (get m)) ln \<and> contents h' m = Some (bs[?i := 0])" by auto
  show "\<forall>q d'. delim_bytes h q = Some d' \<longrightarrow> (\<forall>j. j + length d' \<le> msize m \<longrightarrow> \<not> delim_at d' bs j) \<longrightarrow>
      cpr_lgetmem h (Some m) True q = Some (Null, None, Some m, h) \<and>
      cpr_lgetmem h (Some m) False q = Some (Null, None, Some m, h)"
    using cpr_lgetmem_none [OF assms(1-3)] by blast
qed

theorem cpr_lgetmem_line_witness:
  "\<exists>h'. cpr_lgetmem (heap_of [[104, 105, 10, 120]]) (Some (cpr_initmem undefined (Ptr 0 0) 4)) False Null =
      Some (Ptr 0 0, None, Some (cpr_initmem undefined (Ptr 0 0) 4\<lparr>get := 3\<rparr>), h') \<and>
    cstr h' (Ptr 0 0) [104, 105]"
  using cpr_lgetmem_line [of "heap_of [[104, 105, 10, 120]]" "cpr_initmem undefined (Ptr 0 0) 4"
      "[104, 105, 10, 120]" Null "[10]" "[104, 105]" "[120]"]
  by (auto simp: memio_ok_def cpr_initmem_def contents_def delim_bytes_def less_Suc_eq
      load_list_block [of _ 0 "[104, 105, 10, 120]" 0 4])

text \<open>
  \<^verbatim>\<open>cpr_sputmem\<close> does not refuse a string that is longer than the buffer: an empty
  buffer then takes the first \<open>size\<close> characters and the call succeeds. A string that
  fits behind the write position is appended whole, and one of at most \<open>size\<close> characters
  that does not fit is refused.
\<close>

theorem cpr_sputmem_truncates:
  assumes "memio_ok h m" and "contents h m = Some bs" and "cstr h p s" and "s \<noteq> []"
    and "ptr_block p \<noteq> ptr_block (data m)" and "0 < msize m"
  shows "(put m = 0 \<and> msize m \<le> length s \<longrightarrow> (\<exists>h'. cpr_sputmem h (Some m) p =
        Some (True, Some (m\<lparr>put := msize m\<rparr>), h') \<and> contents h' m = Some (take (msize m) s))) \<and>
    (put m + length s \<le> msize m \<longrightarrow> (\<exists>h'. cpr_sputmem h (Some m) p =
        Some (True, Some (m\<lparr>put := put m + length s\<rparr>), h') \<and>
        contents h' m = Some (take (put m) bs @ s @ drop (put m + length s) bs))) \<and>
    (length s \<le> msize m \<and> msize m < put m + length s \<longrightarrow>
      cpr_sputmem h (Some m) p = Some (False, Some m, h))"
proof -
  let ?n = "min (length s) (msize m)"
  have p: "p \<noteq> Null" by (rule cstr_not_Null [OF assms(3)])
  have len: "length bs = msize m" using memio_contents [OF assms(1)] assms(2) by auto
  have n: "length (clip (msize m) s) = ?n" using assms(6) by (simp add: length_clip max_def)
  obtain c where "load h p = Some c" "c \<noteq> 0" using cstr_nonempty [OF assms(3,4)] by blast
  then have x: "cpr_sputmem h (Some m) p = cpr_xputmem h (Some m) p ?n"
    using p n cpr_strlen_cstr [OF assms(3), of "msize m"] by (simp add: cpr_sputmem_def)
  have ld: "load_list h p ?n = Some (take (msize m) s)"
    using load_list_cstr [OF assms(3), of ?n] by (simp add: min_def)
  have "\<exists>h'. cpr_xputmem h (Some m) p ?n = Some (True, Some (m\<lparr>put := put m + ?n\<rparr>), h') \<and>
      contents h' m = Some (take (put m) bs @ take (msize m) s @ drop (put m + ?n) bs)" if "put m + ?n \<le> msize m"
    using cpr_xputmem_spec [OF assms(1,2) that ld p assms(5)] by metis
  moreover have "cpr_xputmem h (Some m) p ?n = Some (False, Some m, h)" if "msize m < put m + ?n"
    by (rule cpr_xputmem_full [OF assms(1) that])
  ultimately show ?thesis unfolding x using len by (auto simp: min_def)
qed

theorem cpr_sputmem_truncates_witness:
  "\<exists>h'. cpr_sputmem (heap_of [[0, 0, 0], [97, 98, 99, 100, 0]]) (Some (cpr_initmem undefined (Ptr 0 0) 3)) (Ptr 1 0) =
     Some (True, Some (cpr_initmem undefined (Ptr 0 0) 3\<lparr>put := 3\<rparr>), h') \<and>
     contents h' (cpr_initmem undefined (Ptr 0 0) 3) = Some [97, 98, 99]"
proof -
  let ?h = "heap_of [[0, 0, 0], [97, 98, 99, 100, 0 :: byte]]" let ?m = "cpr_initmem undefined (Ptr 0 0) 3"
  have "contents ?h ?m = Some [0, 0, 0]"
    by (simp add: contents_def cpr_initmem_def load_list_block [of _ 0 "[0, 0, 0]"])
  moreover have "cstr ?h (Ptr 1 0) [97, 98, 99, 100]" by (simp add: mem_simps)
  ultimately show ?thesis
    using cpr_sputmem_truncates [of ?h ?m "[0, 0, 0]" "Ptr 1 0" "[97, 98, 99, 100]"]
    by (simp add: memio_ok_def cpr_initmem_def)
qed

end
