(* ===== verification/Monitor.thy ===== *)
theory Monitor
  imports Cpr_Prelude
begin

text \<open>
  Threads that share an object under one mutex and its condition variables, the way
  \<^verbatim>\<open>src/thread.c\<close> and \<^verbatim>\<open>src/pipeline.c\<close> use them through the \<^verbatim>\<open>mtx_\<close> and \<^verbatim>\<open>cnd_\<close> shims of
  \<^verbatim>\<open>src/thread.h\<close>. A function is cut into sections at the points where other threads can
  run: the mutex is taken before a section and given back after it, or kept, or handed
  to \<^verbatim>\<open>cnd_wait\<close>. A thread that calls \<^verbatim>\<open>cnd_wait\<close> first owns the mutex (\<open>Want\<close>) and then
  releases it and sleeps in one step, as POSIX promises; a signal in between, from
  code that does not hold the mutex, does not reach it. A signal wakes one sleeper, any
  one, and a sleeper may wake without a signal. Sections that run without the mutex are
  single atomic accesses.
\<close>

subsection \<open>Threads and steps\<close>

text \<open>The condition variables of the objects: one for most of them, two for the pipeline.\<close>

datatype cond = the_cond | cnd_input | cnd_output

datatype wake = No_Wake | Signal cond | Broadcast cond

datatype ('s, 'pc) outcome = Leave 's wake 'pc | Keep 's wake 'pc | Block 's cond 'pc

datatype 'pc tstate = At 'pc | Want cond 'pc | Asleep cond 'pc

record ('s, 'pc) mstate =
  shared :: 's
  owner :: "nat option"
  threads :: "'pc tstate list"

primrec rouse :: "cond \<Rightarrow> 'pc tstate \<Rightarrow> 'pc tstate" where
  "rouse c (At p) = At p"
| "rouse c (Want d p) = Want d p"
| "rouse c (Asleep d p) = (if c = d then At p else Asleep d p)"

inductive woken :: "wake \<Rightarrow> 'pc tstate list \<Rightarrow> 'pc tstate list \<Rightarrow> bool" where
  no_wake: "woken No_Wake ts ts"
| signal_lost: "(\<And>q. Asleep c q \<notin> set ts) \<Longrightarrow> woken (Signal c) ts ts"
| signal_one: "j < length ts \<Longrightarrow> ts ! j = Asleep c q \<Longrightarrow> woken (Signal c) ts (ts[j := At q])"
| broadcast: "woken (Broadcast c) ts (map (rouse c) ts)"

definition can_enter :: "('pc \<Rightarrow> bool) \<Rightarrow> ('s, 'pc) mstate \<Rightarrow> nat \<Rightarrow> 'pc \<Rightarrow> bool" where
  "can_enter locked s i p \<longleftrightarrow> \<not> locked p \<or> owner s = None \<or> owner s = Some i"

text \<open>
  \<open>locked p\<close> tells whether the section at \<open>p\<close> takes the mutex, \<open>sec p\<close> what it does, and
  \<open>client p q\<close> which calls the program around the object may make next.
\<close>

inductive mstep :: "('pc \<Rightarrow> bool) \<Rightarrow> ('pc \<Rightarrow> 's \<Rightarrow> ('s, 'pc) outcome option) \<Rightarrow> ('pc \<Rightarrow> 'pc \<Rightarrow> bool) \<Rightarrow>
    ('s, 'pc) mstate \<Rightarrow> ('s, 'pc) mstate \<Rightarrow> bool"
  for locked sec client where
  leave: "i < length (threads s) \<Longrightarrow> threads s ! i = At p \<Longrightarrow> can_enter locked s i p \<Longrightarrow>
    sec p (shared s) = Some (Leave x w q) \<Longrightarrow> woken w ((threads s)[i := At q]) ts \<Longrightarrow>
    mstep locked sec client s
      \<lparr>shared = x, owner = (if locked p then None else owner s), threads = ts\<rparr>"
| keep: "i < length (threads s) \<Longrightarrow> threads s ! i = At p \<Longrightarrow> can_enter locked s i p \<Longrightarrow>
    sec p (shared s) = Some (Keep x w q) \<Longrightarrow> woken w ((threads s)[i := At q]) ts \<Longrightarrow>
    mstep locked sec client s \<lparr>shared = x, owner = Some i, threads = ts\<rparr>"
| block: "i < length (threads s) \<Longrightarrow> threads s ! i = At p \<Longrightarrow> can_enter locked s i p \<Longrightarrow>
    sec p (shared s) = Some (Block x c q) \<Longrightarrow>
    mstep locked sec client s \<lparr>shared = x, owner = Some i, threads = (threads s)[i := Want c q]\<rparr>"
| sleep: "i < length (threads s) \<Longrightarrow> threads s ! i = Want c q \<Longrightarrow>
    mstep locked sec client s (s\<lparr>owner := None, threads := (threads s)[i := Asleep c q]\<rparr>)"
| spurious: "i < length (threads s) \<Longrightarrow> threads s ! i = Asleep c q \<Longrightarrow>
    mstep locked sec client s (s\<lparr>threads := (threads s)[i := At q]\<rparr>)"
| call: "i < length (threads s) \<Longrightarrow> threads s ! i = At p \<Longrightarrow> client p q \<Longrightarrow>
    mstep locked sec client s (s\<lparr>threads := (threads s)[i := At q]\<rparr>)"

lemma rouse_eq_At: "rouse c t = At q \<longleftrightarrow> t = At q \<or> t = Asleep c q"
  by (cases t) auto

lemma rouse_eq_Asleep: "rouse c t = Asleep d q \<longleftrightarrow> t = Asleep d q \<and> d \<noteq> c"
  by (cases t) auto

lemma rouse_eq_Want: "rouse c t = Want d q \<longleftrightarrow> t = Want d q"
  by (cases t) auto

text \<open>What waking can do to one thread.\<close>

lemma woken_nth:
  assumes "woken w ts us" and "i < length ts"
  shows "us ! i = ts ! i \<or> (\<exists>c q. ts ! i = Asleep c q \<and> us ! i = At q)"
  using assms by cases (cases "ts ! i"; auto simp: nth_list_update)+

lemma woken_set:
  assumes "woken w ts us" and "t \<in> set us"
  shows "t \<in> set ts \<or> (\<exists>c q. Asleep c q \<in> set ts \<and> t = At q)"
proof -
  have "length us = length ts" using assms(1) by cases auto
  with assms(2) obtain i where "i < length ts" "us ! i = t" by (metis in_set_conv_nth)
  with woken_nth [OF assms(1)] show ?thesis by (metis nth_mem)
qed

lemma woken_length [simp]: "woken w ts us \<Longrightarrow> length us = length ts"
  by (auto elim: woken.cases)

lemma mstep_length: "mstep locked sec client s t \<Longrightarrow> length (threads t) = length (threads s)"
  by (auto elim!: mstep.cases)

subsection \<open>Counting threads\<close>

definition tally :: "('a \<Rightarrow> bool) \<Rightarrow> 'a list \<Rightarrow> nat" where
  "tally P xs = length (filter P xs)"

lemma tally_update:
  "i < length xs \<Longrightarrow> tally P (xs[i := y]) + (if P (xs ! i) then 1 else 0) = tally P xs + (if P y then 1 else 0)"
proof (induction xs arbitrary: i)
  case (Cons x xs)
  then show ?case by (cases i) (auto simp: tally_def)
qed simp

lemma tally_le: "tally P xs \<le> length xs"
  by (simp add: tally_def)

lemma tally_pos: "0 < tally P xs \<longleftrightarrow> (\<exists>x \<in> set xs. P x)"
  by (auto simp: tally_def filter_empty_conv)

lemma tally_none: "tally P xs = 0 \<longleftrightarrow> (\<forall>x \<in> set xs. \<not> P x)"
  by (auto simp: tally_def filter_empty_conv)

lemma tally_map_rouse: "(\<And>t. P (rouse c t) = P t) \<Longrightarrow> tally P (map (rouse c) ts) = tally P ts"
  by (induction ts) (auto simp: tally_def)

text \<open>A property that does not tell a sleeper from a woken thread is not changed by waking.\<close>

lemma tally_woken:
  assumes "woken w ts us" and "\<And>c q. P (Asleep c q) = P (At q)"
  shows "tally P us = tally P ts"
  using assms(1)
proof cases
  case (signal_one j c q)
  then show ?thesis using tally_update [of j ts P "At q"] assms(2) by auto
next
  case (broadcast c)
  moreover have "P (rouse c t) = P t" for t using assms(2) by (cases t) auto
  ultimately show ?thesis by (simp add: tally_map_rouse)
qed auto

subsection \<open>Mutual exclusion\<close>

text \<open>
  The discipline of the sections: a section keeps the mutex exactly when it ends at a
  point that the function \<open>keeps\<close> marks, and only sections that took it may keep it or
  wait. Then the owner of the mutex is exactly the thread at such a point or about to
  wait, in every reachable state.
\<close>

primrec holding :: "('pc \<Rightarrow> bool) \<Rightarrow> 'pc tstate \<Rightarrow> bool" where
  "holding keeps (At p) = keeps p"
| "holding keeps (Want c p) = True"
| "holding keeps (Asleep c p) = False"

primrec resumes_unlocked :: "('pc \<Rightarrow> bool) \<Rightarrow> 'pc tstate \<Rightarrow> bool" where
  "resumes_unlocked keeps (At p) = True"
| "resumes_unlocked keeps (Want c p) = (\<not> keeps p)"
| "resumes_unlocked keeps (Asleep c p) = (\<not> keeps p)"

definition lock_inv :: "('pc \<Rightarrow> bool) \<Rightarrow> ('s, 'pc) mstate \<Rightarrow> bool" where
  "lock_inv keeps s \<longleftrightarrow>
     (\<forall>i < length (threads s). owner s = Some i \<longleftrightarrow> holding keeps (threads s ! i)) \<and>
     (\<forall>i. owner s = Some i \<longrightarrow> i < length (threads s)) \<and>
     (\<forall>t \<in> set (threads s). resumes_unlocked keeps t)"

locale monitor_lock =
  fixes locked :: "'pc \<Rightarrow> bool"
    and sec :: "'pc \<Rightarrow> 's \<Rightarrow> ('s, 'pc) outcome option"
    and client :: "'pc \<Rightarrow> 'pc \<Rightarrow> bool"
    and keeps :: "'pc \<Rightarrow> bool"
  assumes keeps_locked: "keeps p \<Longrightarrow> locked p"
    and leave_unlocks: "sec p x = Some (Leave y w q) \<Longrightarrow> \<not> keeps q"
    and keep_keeps: "sec p x = Some (Keep y w q) \<Longrightarrow> locked p \<and> keeps q"
    and block_locked: "sec p x = Some (Block y c q) \<Longrightarrow> locked p \<and> \<not> keeps q"
    and client_keeps: "client p q \<Longrightarrow> keeps q = keeps p"
begin

end

lemma woken_holding:
  assumes "woken w ts us" and "\<forall>t \<in> set ts. resumes_unlocked keeps t"
  shows "i < length ts \<Longrightarrow> holding keeps (us ! i) = holding keeps (ts ! i)"
    and "\<forall>t \<in> set us. resumes_unlocked keeps t"
proof -
  show "holding keeps (us ! i) = holding keeps (ts ! i)" if "i < length ts" for i
    using woken_nth [OF assms(1) that] bspec [OF assms(2) nth_mem [OF that]] by auto
  show "\<forall>t \<in> set us. resumes_unlocked keeps t"
    using woken_nth [OF assms(1)] assms woken_length [OF assms(1)]
    by (metis in_set_conv_nth resumes_unlocked.simps(1))
qed

lemma lock_inv_woken:
  assumes "woken w ts us" and "lock_inv keeps \<lparr>shared = x, owner = own, threads = ts\<rparr>"
  shows "lock_inv keeps \<lparr>shared = y, owner = own, threads = us\<rparr>"
  using assms woken_holding [OF assms(1), of keeps] by (auto simp: lock_inv_def)

lemma lock_inv_update:
  assumes "lock_inv keeps s" and "i < length (threads s)" and "resumes_unlocked keeps t"
    and "own = (if holding keeps t then Some i else if owner s = Some i then None else owner s)"
    and "holding keeps t \<Longrightarrow> owner s = None \<or> owner s = Some i"
  shows "lock_inv keeps \<lparr>shared = x, owner = own, threads = (threads s)[i := t]\<rparr>"
proof -
  have "own = Some j \<longleftrightarrow> holding keeps ((threads s)[i := t] ! j)" if "j < length (threads s)" for j
  proof (cases "j = i")
    case True
    with assms(2,4) show ?thesis by auto
  next
    case False
    have "owner s = Some j \<longleftrightarrow> holding keeps (threads s ! j)" using assms(1) that by (simp add: lock_inv_def)
    with False assms(4,5) show ?thesis by auto
  qed
  moreover have "\<forall>u \<in> set ((threads s)[i := t]). resumes_unlocked keeps u"
    using assms(1,3) set_update_subset_insert [of "threads s" i t] by (auto simp: lock_inv_def)
  moreover have "j < length (threads s)" if "own = Some j" for j
    using assms that by (auto simp: lock_inv_def split: if_splits)
  ultimately show ?thesis by (simp add: lock_inv_def)
qed

context monitor_lock
begin

lemma step_lock_inv:
  assumes "mstep locked sec client s t" and "lock_inv keeps s"
  shows "lock_inv keeps t"
  using assms(1)
proof cases
  case (leave i p x w q ts)
  have h: "owner s = Some i \<longleftrightarrow> keeps p"
    using assms(2) leave(2,3) by (auto simp: lock_inv_def)
  have own: "(if locked p then None else owner s) = (if owner s = Some i then None else owner s)"
    using leave(4) h keeps_locked by (auto simp: can_enter_def)
  have "lock_inv keeps \<lparr>shared = x, owner = (if locked p then None else owner s),
      threads = (threads s)[i := At q]\<rparr>"
    using leave_unlocks [OF leave(5)] own by (intro lock_inv_update [OF assms(2) leave(2)]) auto
  then show ?thesis unfolding leave(1) by (rule lock_inv_woken [OF leave(6)])
next
  case (keep i p x w q ts)
  have "lock_inv keeps \<lparr>shared = x, owner = Some i, threads = (threads s)[i := At q]\<rparr>"
    using keep_keeps [OF keep(5)] keep(4)
    by (intro lock_inv_update [OF assms(2) keep(2)]) (auto simp: can_enter_def)
  then show ?thesis unfolding keep(1) by (rule lock_inv_woken [OF keep(6)])
next
  case (block i p x c q)
  then show ?thesis
    using block_locked [OF block(5)] unfolding block(1)
    by (intro lock_inv_update [OF assms(2) block(2)]) (auto simp: can_enter_def)
next
  case (sleep i c q)
  have "owner s = Some i" "\<not> keeps q"
    using assms(2) sleep(2,3) nth_mem [OF sleep(2)] by (force simp: lock_inv_def)+
  then show ?thesis
    using lock_inv_update [OF assms(2) sleep(2), of "Asleep c q" None "shared s"]
    unfolding sleep(1) by (cases s) auto
next
  case (spurious i c q)
  have "owner s \<noteq> Some i" "\<not> keeps q"
    using assms(2) spurious(2,3) nth_mem [OF spurious(2)] by (force simp: lock_inv_def)+
  then show ?thesis
    using lock_inv_update [OF assms(2) spurious(2), of "At q" "owner s" "shared s"]
    unfolding spurious(1) by (cases s) auto
next
  case (call i p q)
  have "owner s = Some i \<longleftrightarrow> keeps q"
    using assms(2) call(2,3) client_keeps [OF call(4)] by (auto simp: lock_inv_def)
  then show ?thesis
    using lock_inv_update [OF assms(2) call(2), of "At q" "owner s" "shared s"]
    unfolding call(1) by (cases s) (auto split: if_splits)
qed

lemma reach_lock_inv:
  "(mstep locked sec client)\<^sup>*\<^sup>* s t \<Longrightarrow> lock_inv keeps s \<Longrightarrow> lock_inv keeps t"
  by (induction rule: rtranclp_induct) (auto intro: step_lock_inv)

text \<open>An invariant may be proved on steps from states where the lock is consistent.\<close>

lemma reach_invariant:
  assumes "(mstep locked sec client)\<^sup>*\<^sup>* s t" and "lock_inv keeps s" and "J s"
    and "\<And>u v. lock_inv keeps u \<Longrightarrow> J u \<Longrightarrow> mstep locked sec client u v \<Longrightarrow> J v"
  shows "J t"
  using assms(1,2,3)
  by (induction rule: rtranclp_induct) (auto intro: assms(4) reach_lock_inv)

text \<open>
  While a thread is about to wait nobody else is inside a section, so a section under the
  mutex sees every waiting thread asleep.
\<close>

lemma owner_excludes_want:
  assumes "lock_inv keeps s" and "i < length (threads s)" and "threads s ! i = At p"
    and "can_enter locked s i p" and "locked p"
  shows "Want c q \<notin> set (threads s)"
proof
  assume "Want c q \<in> set (threads s)"
  then obtain j where j: "j < length (threads s)" "threads s ! j = Want c q" by (metis in_set_conv_nth)
  with assms(1) have "owner s = Some j" by (auto simp: lock_inv_def)
  with assms(4,5) j(2) assms(3) show False by (auto simp: can_enter_def)
qed

end

definition start :: "'s \<Rightarrow> 'pc list \<Rightarrow> ('s, 'pc) mstate" where
  "start x ps = \<lparr>shared = x, owner = None, threads = map At ps\<rparr>"

lemma start_lock_inv: "\<forall>p \<in> set ps. \<not> keeps p \<Longrightarrow> lock_inv keeps (start x ps)"
  by (auto simp: lock_inv_def start_def)

lemma tally_start: "tally P (threads (start x ps)) = tally (\<lambda>p. P (At p)) ps"
  by (induction ps) (auto simp: tally_def start_def)

text \<open>A thread other than a sleeper can move: the object is not stuck.\<close>

definition can_move :: "('pc \<Rightarrow> bool) \<Rightarrow> ('pc \<Rightarrow> 's \<Rightarrow> ('s, 'pc) outcome option) \<Rightarrow> ('s, 'pc) mstate \<Rightarrow> bool" where
  "can_move locked sec s \<longleftrightarrow> (\<exists>i < length (threads s).
     (\<exists>c q. threads s ! i = Want c q) \<or>
     (\<exists>p. threads s ! i = At p \<and> can_enter locked s i p \<and> sec p (shared s) \<noteq> None))"

lemma woken_total: "\<exists>us. woken w ts us"
proof (cases w)
  case (Signal c)
  show ?thesis
  proof (cases "\<exists>q. Asleep c q \<in> set ts")
    case True
    then obtain q j where "j < length ts" "ts ! j = Asleep c q" by (metis in_set_conv_nth)
    with Signal show ?thesis by (auto intro: woken.signal_one)
  qed (use Signal in \<open>auto intro: woken.signal_lost\<close>)
qed (auto intro: woken.intros)

lemma can_move_step:
  assumes "can_move locked sec s"
  shows "\<exists>t. mstep locked sec client s t"
proof -
  from assms obtain i where i: "i < length (threads s)"
    and c: "(\<exists>c q. threads s ! i = Want c q) \<or>
      (\<exists>p. threads s ! i = At p \<and> can_enter locked s i p \<and> sec p (shared s) \<noteq> None)"
    by (auto simp: can_move_def)
  from c show ?thesis
  proof (elim disjE exE conjE)
    fix p assume p: "threads s ! i = At p" "can_enter locked s i p" "sec p (shared s) \<noteq> None"
    then obtain out where out: "sec p (shared s) = Some out" by blast
    show ?thesis
    proof (cases out)
      case (Leave x w q)
      with out p i woken_total [of w "(threads s)[i := At q]"] show ?thesis by (auto intro: mstep.leave)
    next
      case (Keep x w q)
      with out p i woken_total [of w "(threads s)[i := At q]"] show ?thesis by (auto intro: mstep.keep)
    next
      case (Block x c q)
      with out p i show ?thesis by (auto intro: mstep.block)
    qed
  qed (use i in \<open>auto intro: mstep.sleep\<close>)
qed

text \<open>In a state where no thread can move, the mutex is held only by a caller that keeps it,
  and with the mutex free every thread is outside the object or asleep.\<close>

lemma stuck_owner:
  assumes "lock_inv keeps s" and "\<not> can_move locked sec s" and "owner s = Some i"
  shows "\<exists>p. threads s ! i = At p \<and> keeps p"
proof -
  have "i < length (threads s)" "holding keeps (threads s ! i)" using assms(1,3) by (auto simp: lock_inv_def)
  with assms(2) show ?thesis by (cases "threads s ! i") (auto simp: can_move_def)
qed

lemma stuck_at:
  assumes "\<not> can_move locked sec s" and "owner s = None" and "At p \<in> set (threads s)"
  shows "sec p (shared s) = None"
proof -
  from assms(3) obtain i where "i < length (threads s)" "threads s ! i = At p" by (metis in_set_conv_nth)
  with assms(1,2) show ?thesis by (auto simp: can_move_def can_enter_def)
qed

lemma reach_step [trans]: "r\<^sup>*\<^sup>* x y \<Longrightarrow> r y z \<Longrightarrow> r\<^sup>*\<^sup>* x z"
  by (rule rtranclp.rtrancl_into_rtrancl)

end
