(* ===== verification/Thread.thy ===== *)
theory Thread
  imports Monitor
begin

text \<open>
  \<^verbatim>\<open>src/thread.c\<close> and the structures of \<^verbatim>\<open>src/thread.h\<close>: the counting semaphore, the wait
  group and the read/write lock built from one mutex and one condition variable.
  The counters are the 32-bit \<^verbatim>\<open>unsigned\<close> fields of the source. Each function is given by
  its sections: the code up to \<^verbatim>\<open>cnd_wait\<close> or up to the end, and the code from the return
  of \<^verbatim>\<open>cnd_wait\<close> on. The \<open>live\<close> fields stand for the initialised mutex and condition
  variable. A call on a null pointer returns at once and is not part of the machines.
\<close>

subsection \<open>Semaphore\<close>

record semaphore =
  sem_count :: "32 word"
  sem_waits :: "32 word"
  sem_used :: "32 word"
  sem_live :: bool

datatype sem_pc = Outside | Acquire | Acquire_Woken | Inside | Release

definition cpr_semaphore_init :: "32 word \<Rightarrow> semaphore" where
  "cpr_semaphore_init lim = \<lparr>sem_count = lim, sem_waits = 0, sem_used = 0, sem_live = True\<rparr>"

definition cpr_semaphore_free :: "semaphore \<Rightarrow> semaphore" where
  "cpr_semaphore_free x = x\<lparr>sem_live := False\<rparr>"

definition cpr_semaphore_acquire :: "bool \<Rightarrow> semaphore \<Rightarrow> (semaphore, sem_pc) outcome" where
  "cpr_semaphore_acquire waited x =
     (let x = (if waited then x\<lparr>sem_waits := sem_waits x - 1\<rparr> else x) in
      if sem_used x \<ge> sem_count x
      then Block (x\<lparr>sem_waits := sem_waits x + 1\<rparr>) the_cond Acquire_Woken
      else Leave (x\<lparr>sem_used := sem_used x + 1\<rparr>) No_Wake Inside)"

definition cpr_semaphore_release :: "semaphore \<Rightarrow> (semaphore, sem_pc) outcome" where
  "cpr_semaphore_release x =
     (let x = (if sem_used x \<noteq> 0 then x\<lparr>sem_used := sem_used x - 1\<rparr> else x) in
      Leave x (if sem_waits x \<noteq> 0 then Signal the_cond else No_Wake) Outside)"

primrec sem_sec :: "sem_pc \<Rightarrow> semaphore \<Rightarrow> (semaphore, sem_pc) outcome option" where
  "sem_sec Outside x = None"
| "sem_sec Acquire x = Some (cpr_semaphore_acquire False x)"
| "sem_sec Acquire_Woken x = Some (cpr_semaphore_acquire True x)"
| "sem_sec Inside x = None"
| "sem_sec Release x = Some (cpr_semaphore_release x)"

text \<open>The program around the semaphore: a thread acquires, works, and releases.\<close>

definition sem_client :: "sem_pc \<Rightarrow> sem_pc \<Rightarrow> bool" where
  "sem_client p q \<longleftrightarrow> p = Outside \<and> q = Acquire \<or> p = Inside \<and> q = Release"

subsection \<open>Wait group\<close>

record waitgroup =
  wg_count :: "32 word"
  wg_live :: bool

datatype wg_pc = Working | Done | Finished | Wait | Passed | Freed

definition cpr_waitgroup_init :: "32 word \<Rightarrow> waitgroup" where
  "cpr_waitgroup_init n = \<lparr>wg_count = n, wg_live = True\<rparr>"

definition cpr_waitgroup_free :: "waitgroup \<Rightarrow> waitgroup" where
  "cpr_waitgroup_free x = x\<lparr>wg_live := False\<rparr>"

definition cpr_waitgroup_add :: "waitgroup \<Rightarrow> 32 word \<Rightarrow> waitgroup" where
  "cpr_waitgroup_add x n = x\<lparr>wg_count := wg_count x + n\<rparr>"

definition cpr_waitgroup_wait :: "waitgroup \<Rightarrow> (waitgroup, wg_pc) outcome" where
  "cpr_waitgroup_wait x =
     (if wg_count x \<noteq> 0 then Block x the_cond Wait else Leave x No_Wake Passed)"

definition cpr_waitgroup_done :: "waitgroup \<Rightarrow> (waitgroup, wg_pc) outcome" where
  "cpr_waitgroup_done x =
     (let x = (if wg_count x \<noteq> 0 then x\<lparr>wg_count := wg_count x - 1\<rparr> else x) in
      Leave x (if wg_count x = 0 then Broadcast the_cond else No_Wake) Finished)"

text \<open>
  \<^verbatim>\<open>cpr_waitgroup_finish\<close> waits and then destroys the object: its second part, after the
  mutex is free again, is the step from \<open>Passed\<close>.
\<close>

definition cpr_waitgroup_finish :: "waitgroup \<Rightarrow> (waitgroup, wg_pc) outcome" where
  "cpr_waitgroup_finish x = Leave (cpr_waitgroup_free x) No_Wake Freed"

primrec wg_sec :: "wg_pc \<Rightarrow> waitgroup \<Rightarrow> (waitgroup, wg_pc) outcome option" where
  "wg_sec Working x = None"
| "wg_sec Done x = Some (cpr_waitgroup_done x)"
| "wg_sec Finished x = None"
| "wg_sec Wait x = Some (cpr_waitgroup_wait x)"
| "wg_sec Passed x = Some (cpr_waitgroup_finish x)"
| "wg_sec Freed x = None"

definition wg_locked :: "wg_pc \<Rightarrow> bool" where
  "wg_locked p \<longleftrightarrow> p \<noteq> Passed"

definition wg_client :: "wg_pc \<Rightarrow> wg_pc \<Rightarrow> bool" where
  "wg_client p q \<longleftrightarrow> p = Working \<and> q = Done"

subsection \<open>Read/write lock\<close>

record condlock =
  cl_pending :: "32 word"
  cl_waiting :: "32 word"
  cl_sharing :: "32 word"
  cl_live :: bool

datatype cl_pc = Idle | Access | Access_Woken | Reading | Read_Release
  | Modify | Modify_Woken | Writing | Commit

definition cor_condlock_init :: condlock where
  "cor_condlock_init = \<lparr>cl_pending = 0, cl_waiting = 0, cl_sharing = 0, cl_live = True\<rparr>"

definition cor_condlock_free :: "condlock \<Rightarrow> condlock" where
  "cor_condlock_free x = x\<lparr>cl_live := False\<rparr>"

definition cor_condlock_access :: "bool \<Rightarrow> condlock \<Rightarrow> (condlock, cl_pc) outcome" where
  "cor_condlock_access waited x =
     (let x = (if waited then x\<lparr>cl_waiting := cl_waiting x - 1\<rparr> else x) in
      if cl_pending x \<noteq> 0
      then Block (x\<lparr>cl_waiting := cl_waiting x + 1\<rparr>) the_cond Access_Woken
      else Leave (x\<lparr>cl_sharing := cl_sharing x + 1\<rparr>) No_Wake Reading)"

definition cpr_condlock_release :: "condlock \<Rightarrow> (condlock, cl_pc) outcome" where
  "cpr_condlock_release x =
     (if cl_sharing x \<noteq> 0
      then (let x = x\<lparr>cl_sharing := cl_sharing x - 1\<rparr> in
        Leave x (if cl_pending x \<noteq> 0 \<and> cl_sharing x = 0 then Signal the_cond
                 else if cl_waiting x \<noteq> 0 \<and> cl_pending x = 0 then Broadcast the_cond
                 else No_Wake) Idle)
      else Leave x No_Wake Idle)"

text \<open>\<^verbatim>\<open>cpr_condlock_modify\<close> returns with the mutex locked; \<^verbatim>\<open>cpr_condlock_commit\<close> unlocks it.\<close>

definition cpr_condlock_modify :: "bool \<Rightarrow> condlock \<Rightarrow> (condlock, cl_pc) outcome" where
  "cpr_condlock_modify waited x =
     (let x = (if waited then x\<lparr>cl_pending := cl_pending x - 1\<rparr> else x) in
      if cl_sharing x \<noteq> 0
      then Block (x\<lparr>cl_pending := cl_pending x + 1\<rparr>) the_cond Modify_Woken
      else Keep x No_Wake Writing)"

definition cpr_condlock_commit :: "condlock \<Rightarrow> (condlock, cl_pc) outcome" where
  "cpr_condlock_commit x =
     Leave x (if cl_pending x \<noteq> 0 then Signal the_cond
              else if cl_waiting x \<noteq> 0 then Broadcast the_cond else No_Wake) Idle"

primrec cl_sec :: "cl_pc \<Rightarrow> condlock \<Rightarrow> (condlock, cl_pc) outcome option" where
  "cl_sec Idle x = None"
| "cl_sec Access x = Some (cor_condlock_access False x)"
| "cl_sec Access_Woken x = Some (cor_condlock_access True x)"
| "cl_sec Reading x = None"
| "cl_sec Read_Release x = Some (cpr_condlock_release x)"
| "cl_sec Modify x = Some (cpr_condlock_modify False x)"
| "cl_sec Modify_Woken x = Some (cpr_condlock_modify True x)"
| "cl_sec Writing x = None"
| "cl_sec Commit x = Some (cpr_condlock_commit x)"

definition cl_keeps :: "cl_pc \<Rightarrow> bool" where
  "cl_keeps p \<longleftrightarrow> p = Writing \<or> p = Commit"

definition cl_client :: "cl_pc \<Rightarrow> cl_pc \<Rightarrow> bool" where
  "cl_client p q \<longleftrightarrow> p = Idle \<and> (q = Access \<or> q = Modify) \<or> p = Reading \<and> q = Read_Release \<or>
     p = Writing \<and> q = Commit"

subsection \<open>The mutex discipline of the three objects\<close>

interpretation sem: monitor_lock "\<lambda>_. True" sem_sec sem_client "\<lambda>_. False"
proof
  show "sem_sec p x = Some (Keep y w q) \<Longrightarrow> True \<and> False" for p x y w q
    by (cases p) (auto simp: cpr_semaphore_acquire_def cpr_semaphore_release_def Let_def split: if_splits)
qed (auto simp: sem_client_def)

interpretation wg: monitor_lock wg_locked wg_sec wg_client "\<lambda>_. False"
proof
  show "wg_sec p x = Some (Keep y w q) \<Longrightarrow> wg_locked p \<and> False" for p x y w q
    by (cases p) (auto simp: cpr_waitgroup_wait_def cpr_waitgroup_done_def cpr_waitgroup_finish_def Let_def
        split: if_splits)
  show "wg_sec p x = Some (Block y c q) \<Longrightarrow> wg_locked p \<and> \<not> False" for p x y c q
    by (cases p) (auto simp: wg_locked_def cpr_waitgroup_finish_def)
qed (auto simp: wg_client_def)

interpretation cl: monitor_lock "\<lambda>_. True" cl_sec cl_client cl_keeps
proof
  show "cl_sec p x = Some (Leave y w q) \<Longrightarrow> \<not> cl_keeps q" for p x y w q
    by (cases p) (auto simp: cor_condlock_access_def cpr_condlock_release_def cpr_condlock_modify_def
        cpr_condlock_commit_def cl_keeps_def Let_def split: if_splits)
  show "cl_sec p x = Some (Keep y w q) \<Longrightarrow> True \<and> cl_keeps q" for p x y w q
    by (cases p) (auto simp: cor_condlock_access_def cpr_condlock_release_def cpr_condlock_modify_def
        cpr_condlock_commit_def cl_keeps_def Let_def split: if_splits)
  show "cl_sec p x = Some (Block y c q) \<Longrightarrow> True \<and> \<not> cl_keeps q" for p x y c q
    by (cases p) (auto simp: cor_condlock_access_def cpr_condlock_release_def cpr_condlock_modify_def
        cpr_condlock_commit_def cl_keeps_def Let_def split: if_splits)
qed (auto simp: cl_client_def cl_keeps_def)

subsection \<open>The semaphore keeps its limit and loses no wake-up\<close>

primrec thread_pc :: "'pc tstate \<Rightarrow> 'pc" where
  "thread_pc (At p) = p"
| "thread_pc (Want c p) = p"
| "thread_pc (Asleep c p) = p"

primrec blocked :: "'pc tstate \<Rightarrow> bool" where
  "blocked (At p) = False"
| "blocked (Want c p) = True"
| "blocked (Asleep c p) = True"

definition inside :: "sem_pc tstate \<Rightarrow> bool" where
  "inside t \<longleftrightarrow> thread_pc t = Inside \<or> thread_pc t = Release"

definition waiting :: "sem_pc tstate \<Rightarrow> bool" where
  "waiting t \<longleftrightarrow> thread_pc t = Acquire_Woken"

definition sem_inv :: "32 word \<Rightarrow> (semaphore, sem_pc) mstate \<Rightarrow> bool" where
  "sem_inv lim s \<longleftrightarrow>
     sem_count (shared s) = lim \<and> unat (sem_used (shared s)) = tally inside (threads s) \<and>
     unat (sem_waits (shared s)) = tally waiting (threads s) \<and>
     sem_used (shared s) \<le> lim \<and> length (threads s) < 2 ^ 32 \<and>
     (\<forall>t \<in> set (threads s). blocked t \<longrightarrow> t = Want the_cond Acquire_Woken \<or> t = Asleep the_cond Acquire_Woken) \<and>
     ((\<exists>t \<in> set (threads s). blocked t) \<longrightarrow>
       unat lim \<le> tally inside (threads s) + tally (\<lambda>t. t = At Acquire_Woken) (threads s))"

lemma word32_incr: "unat (x :: 32 word) + 1 < 2 ^ 32 \<Longrightarrow> unat (x + 1) = unat x + 1"
  by (simp add: unat_word_ariths)

lemma word32_decr: "0 < unat (x :: 32 word) \<Longrightarrow> unat (x - 1) = unat x - 1"
  by (subst unat_sub) (auto simp: word_le_nat_alt)

lemma word32_zero: "(x :: 32 word) = 0 \<longleftrightarrow> unat x = 0"
  by (simp add: unat_eq_zero)

lemma set_update_cases: "x \<in> set (xs[i := y]) \<Longrightarrow> x = y \<or> x \<in> set xs"
  using set_update_subset_insert [of xs i y] by auto

lemma tally_nth_pos: "i < length xs \<Longrightarrow> P (xs ! i) \<Longrightarrow> 0 < tally P xs"
  by (auto simp: tally_pos)

text \<open>How the counts change when one thread moves.\<close>

lemma sem_counts:
  assumes "i < length ts"
  shows "tally inside (ts[i := t]) + (if inside (ts ! i) then 1 else 0) = tally inside ts + (if inside t then 1 else 0)"
    and "tally waiting (ts[i := t]) + (if waiting (ts ! i) then 1 else 0) = tally waiting ts + (if waiting t then 1 else 0)"
    and "tally (\<lambda>t. t = At Acquire_Woken) (ts[i := t]) + (if ts ! i = At Acquire_Woken then 1 else 0) =
      tally (\<lambda>t. t = At Acquire_Woken) ts + (if t = At Acquire_Woken then 1 else 0)"
  using tally_update [OF assms, of inside t] tally_update [OF assms, of waiting t]
    tally_update [OF assms, of "\<lambda>t. t = At Acquire_Woken" t] by simp_all

lemmas sem_state_simps = inside_def waiting_def word32_zero word_le_nat_alt

lemma sem_inv_acquire:
  assumes "sem_inv lim s" and "i < length (threads s)"
    and "threads s ! i = At (if waited then Acquire_Woken else Acquire)"
    and "cpr_semaphore_acquire waited (shared s) = out"
  shows "out = Block x c q \<Longrightarrow> sem_inv lim \<lparr>shared = x, owner = Some i, threads = (threads s)[i := Want c q]\<rparr>"
    and "out = Leave x w q \<Longrightarrow> w = No_Wake \<and>
      sem_inv lim \<lparr>shared = x, owner = None, threads = (threads s)[i := At q]\<rparr>"
proof -
  let ?ts = "threads s" and ?x = "shared s"
  note inv = assms(1) [unfolded sem_inv_def]
  have wpos: "0 < unat (sem_waits ?x)" if waited
    using tally_nth_pos [OF assms(2), of waiting] assms(3) inv that by (simp add: waiting_def)
  have wlt: "unat (sem_waits ?x) + 1 < 2 ^ 32" if "\<not> waited"
    using sem_counts(2) [OF assms(2), of "Want the_cond Acquire_Woken"] assms(3) inv that
      tally_le [of waiting "?ts[i := Want the_cond Acquire_Woken]"]
    by (auto simp: waiting_def)
  let ?y = "if waited then ?x\<lparr>sem_waits := sem_waits ?x - 1\<rparr> else ?x"
  show "sem_inv lim \<lparr>shared = x, owner = Some i, threads = ?ts[i := Want c q]\<rparr>" if "out = Block x c q"
  proof -
    have out: "x = ?y\<lparr>sem_waits := sem_waits ?y + 1\<rparr>" "c = the_cond" "q = Acquire_Woken" "lim \<le> sem_used ?x"
      using that assms(4) inv by (auto simp: cpr_semaphore_acquire_def Let_def split: if_splits)
    have "unat (sem_waits x) = unat (sem_waits ?x) + (if waited then 0 else 1)"
      using out(1) wpos wlt by (auto simp: word32_incr)
    with out inv sem_counts [OF assms(2), of "Want c q"] assms(3) show ?thesis
      by (auto simp: sem_inv_def inside_def waiting_def word_le_nat_alt dest!: set_update_cases)
  qed
  show "w = No_Wake \<and> sem_inv lim \<lparr>shared = x, owner = None, threads = ?ts[i := At q]\<rparr>" if "out = Leave x w q"
  proof -
    have out: "x = ?y\<lparr>sem_used := sem_used ?y + 1\<rparr>" "w = No_Wake" "q = Inside" "sem_used ?x < lim"
      using that assms(4) inv by (auto simp: cpr_semaphore_acquire_def Let_def not_le split: if_splits)
    have "unat (sem_used ?x) < unat lim" using out(4) by (simp add: word_less_nat_alt)
    moreover have "unat lim < 2 ^ 32" using unsigned_less [of lim] by simp
    ultimately have "unat (sem_used x) = unat (sem_used ?x) + 1"
      using out(1) by (auto simp: word32_incr)
    moreover have "unat (sem_waits x) = unat (sem_waits ?x) - (if waited then 1 else 0)"
      using out(1) wpos by (auto simp: word32_decr)
    ultimately show ?thesis
      using out inv sem_counts [OF assms(2), of "At q"] assms(3) \<open>unat (sem_used ?x) < unat lim\<close>
      by (auto simp: sem_inv_def inside_def waiting_def word_le_nat_alt dest!: set_update_cases)
  qed
qed

lemma sem_inv_release:
  assumes "sem_inv lim s" and "i < length (threads s)" and "threads s ! i = At Release"
    and "cpr_semaphore_release (shared s) = Leave x w q" and "woken w ((threads s)[i := At q]) us"
    and "\<And>c p. Want c p \<notin> set (threads s)"
  shows "sem_inv lim \<lparr>shared = x, owner = own, threads = us\<rparr>"
proof -
  let ?ts = "threads s" and ?x = "shared s"
  let ?ts1 = "?ts[i := At Outside]" let ?woken = "\<lambda>t. t = At Acquire_Woken"
  note inv = assms(1) [unfolded sem_inv_def]
  have used: "0 < unat (sem_used ?x)"
    using tally_nth_pos [OF assms(2), of inside] assms(3) inv by (simp add: inside_def)
  then have out: "x = ?x\<lparr>sem_used := sem_used ?x - 1\<rparr>" "q = Outside"
    "w = (if sem_waits ?x \<noteq> 0 then Signal the_cond else No_Wake)"
    using assms(4) by (auto simp: cpr_semaphore_release_def Let_def word32_zero split: if_splits)
  note woken = assms(5) [unfolded out(2)]
  have x: "unat (sem_used x) = unat (sem_used ?x) - 1" "sem_waits x = sem_waits ?x" "sem_count x = lim"
    using out(1) used inv by (auto simp: word32_decr)
  have counts: "tally inside us = tally inside ?ts1" "tally waiting us = tally waiting ?ts1"
    using tally_woken [OF woken, of inside] tally_woken [OF woken, of waiting]
    by (auto simp: inside_def waiting_def)
  have c1: "tally inside ?ts1 = tally inside ?ts - 1" "tally waiting ?ts1 = tally waiting ?ts"
    "tally ?woken ?ts1 = tally ?woken ?ts"
    using sem_counts [OF assms(2), of "At Outside"] assms(3) by (auto simp: inside_def waiting_def)
  have asleep: "t = Asleep the_cond Acquire_Woken" if "t \<in> set ?ts1" "blocked t" for t
    using that inv assms(6) by (auto dest!: set_update_cases)
  have "unat lim \<le> tally inside ?ts1 + tally ?woken us" if "\<exists>t \<in> set us. blocked t"
  proof -
    from woken have sub: "\<exists>t \<in> set ?ts1. blocked t"
      using that by (auto dest!: woken_set)
    then obtain t where t: "t \<in> set ?ts1" "t = Asleep the_cond Acquire_Woken" using asleep by blast
    then have "t \<in> set ?ts" by (auto dest!: set_update_cases)
    then have "unat lim \<le> tally inside ?ts + tally ?woken ?ts" using inv t(2) by fastforce
    moreover have "0 < tally waiting ?ts" using \<open>t \<in> set ?ts\<close> t(2) by (force simp: tally_pos waiting_def)
    then have "w = Signal the_cond" using out(3) inv by (auto simp: word32_zero)
    with woken t have "tally ?woken us = tally ?woken ?ts1 + 1"
    proof cases
      case (signal_one j c r)
      then have "Asleep c r \<in> set ?ts1" by (metis nth_mem)
      then have r: "r = Acquire_Woken" "c = the_cond" using asleep [of "Asleep c r"] by auto
      with signal_one sem_counts(3) [of j ?ts1 "At r"] show ?thesis by simp
    qed auto
    ultimately show ?thesis using c1 used inv by auto
  qed
  moreover have "t = Want the_cond Acquire_Woken \<or> t = Asleep the_cond Acquire_Woken"
    if "t \<in> set us" "blocked t" for t
    using woken_set [OF woken that(1)] that(2) asleep by auto
  ultimately show ?thesis
    using x counts c1 inv woken_length [OF woken] used by (auto simp: sem_inv_def word_le_nat_alt)
qed

lemma sem_inv_step:
  assumes "lock_inv (\<lambda>_. False) s" and "sem_inv lim s"
    and "mstep (\<lambda>_. True) sem_sec sem_client s t"
  shows "sem_inv lim t"
  using assms(3)
proof cases
  case (leave i p x w q ts)
  show ?thesis
  proof (cases p)
    case Acquire
    with leave sem_inv_acquire(2) [OF assms(2) leave(2), of False] show ?thesis
      by (auto elim: woken.cases)
  next
    case Acquire_Woken
    with leave sem_inv_acquire(2) [OF assms(2) leave(2), of True] show ?thesis
      by (auto elim: woken.cases)
  next
    case Release
    with leave sem.owner_excludes_want [OF assms(1) leave(2-4)] show ?thesis
      by (auto intro: sem_inv_release [OF assms(2) leave(2)])
  qed (use leave in auto)
next
  case (keep i p x w q ts)
  then show ?thesis by (cases p) (auto simp: cpr_semaphore_acquire_def cpr_semaphore_release_def Let_def split: if_splits)
next
  case (block i p x c q)
  then show ?thesis
    using sem_inv_acquire(1) [OF assms(2) block(2), of False] sem_inv_acquire(1) [OF assms(2) block(2), of True]
    by (cases p) (auto simp: cpr_semaphore_release_def Let_def)
next
  case (sleep i c q)
  then have "c = the_cond" "q = Acquire_Woken" using assms(2) nth_mem [OF sleep(2)] by (auto simp: sem_inv_def)
  moreover have "\<exists>t \<in> set (threads s). blocked t" using nth_mem [OF sleep(2)] sleep(3) by force
  ultimately show ?thesis
    using sleep assms(2) sem_counts [OF sleep(2), of "Asleep c q"]
    by (auto simp: sem_inv_def inside_def waiting_def dest!: set_update_cases)
next
  case (spurious i c q)
  then have "c = the_cond" "q = Acquire_Woken" using assms(2) nth_mem [OF spurious(2)] by (auto simp: sem_inv_def)
  then show ?thesis
    using spurious assms(2) sem_counts [OF spurious(2), of "At q"]
    by (auto simp: sem_inv_def inside_def waiting_def dest!: set_update_cases)
next
  case (call i p q)
  then show ?thesis
    using assms(2) sem_counts [OF call(2), of "At q"]
    by (auto simp: sem_inv_def inside_def waiting_def sem_client_def dest!: set_update_cases)
qed

lemma sem_inv_start:
  assumes "n < 2 ^ 32"
  shows "sem_inv lim (start (cpr_semaphore_init lim) (replicate n Outside))"
proof -
  have "tally P (replicate n (At Outside)) = 0" if "\<not> P (At Outside)" for P
    using that by (auto simp: tally_none)
  with assms show ?thesis
    by (auto simp: sem_inv_def start_def cpr_semaphore_init_def inside_def waiting_def)
qed

lemma sem_reach_inv:
  assumes "(mstep (\<lambda>_. True) sem_sec sem_client)\<^sup>*\<^sup>* (start (cpr_semaphore_init lim) (replicate n Outside)) s"
    and "n < 2 ^ 32"
  shows "lock_inv (\<lambda>_. False) s" and "sem_inv lim s"
proof -
  have l: "lock_inv (\<lambda>_. False) (start (cpr_semaphore_init lim) (replicate n Outside))"
    by (rule start_lock_inv) simp
  show "lock_inv (\<lambda>_. False) s" by (rule sem.reach_lock_inv [OF assms(1) l])
  show "sem_inv lim s"
    by (rule sem.reach_invariant [OF assms(1) l]) (auto intro: sem_inv_start [OF assms(2)] sem_inv_step)
qed


text \<open>
  C5. The semaphore keeps its limit: whatever the number of threads (below 2^32) and
  however their calls interleave, spurious wake-ups included, at most \<open>lim\<close> of them are
  between \<^verbatim>\<open>cpr_semaphore_acquire\<close> and the end of \<^verbatim>\<open>cpr_semaphore_release\<close>, and the
  field \<^verbatim>\<open>used\<close> is their number.
\<close>

theorem semaphore_limit:
  assumes "(mstep (\<lambda>_. True) sem_sec sem_client)\<^sup>*\<^sup>* (start (cpr_semaphore_init lim) (replicate n Outside)) s"
    and "n < 2 ^ 32"
  shows "tally (\<lambda>t. thread_pc t = Inside \<or> thread_pc t = Release) (threads s) = unat (sem_used (shared s)) \<and>
    sem_used (shared s) \<le> lim"
  using sem_reach_inv(2) [OF assms] by (auto simp: sem_inv_def inside_def [abs_def])

text \<open>A run of two threads: the first one inside, the second one about to wait.\<close>

definition sem_example :: "(semaphore, sem_pc) mstate" where
  "sem_example = \<lparr>shared = \<lparr>sem_count = 1, sem_waits = 1, sem_used = 1, sem_live = True\<rparr>,
     owner = Some 1, threads = [At Inside, Want the_cond Acquire_Woken]\<rparr>"

lemma sem_example_reachable:
  "(mstep (\<lambda>_. True) sem_sec sem_client)\<^sup>*\<^sup>* (start (cpr_semaphore_init 1) (replicate 2 Outside)) sem_example"
proof -
  let ?step = "mstep (\<lambda>_. True) sem_sec sem_client"
  let ?st = "\<lambda>w u ts. \<lparr>shared = \<lparr>sem_count = 1, sem_waits = w, sem_used = u, sem_live = True\<rparr>,
     owner = None, threads = ts\<rparr>"
  have "?step\<^sup>*\<^sup>* (start (cpr_semaphore_init 1) (replicate 2 Outside)) (?st 0 0 [At Outside, At Outside])"
    by (simp add: start_def cpr_semaphore_init_def numeral_2_eq_2)
  also have "?step \<dots> (?st 0 0 [At Acquire, At Outside])"
    using mstep.call [of 0 "?st 0 0 [At Outside, At Outside]" Outside sem_client Acquire]
    by (simp add: sem_client_def)
  also have "?step \<dots> (?st 0 1 [At Inside, At Outside])"
    using mstep.leave [of 0 "?st 0 0 [At Acquire, At Outside]" Acquire "\<lambda>_. True" sem_sec _ No_Wake Inside
        "[At Inside, At Outside]" sem_client]
    by (simp add: can_enter_def cpr_semaphore_acquire_def woken.no_wake)
  also have "?step \<dots> (?st 0 1 [At Inside, At Acquire])"
    using mstep.call [of 1 "?st 0 1 [At Inside, At Outside]" Outside sem_client Acquire]
    by (simp add: sem_client_def)
  also have "?step \<dots> sem_example"
    using mstep.block [of 1 "?st 0 1 [At Inside, At Acquire]" Acquire "\<lambda>_. True" sem_sec _ the_cond Acquire_Woken sem_client]
    by (simp add: can_enter_def cpr_semaphore_acquire_def sem_example_def)
  finally show ?thesis .
qed

theorem semaphore_limit_witness:
  "tally (\<lambda>t. thread_pc t = Inside \<or> thread_pc t = Release) (threads sem_example) = unat (sem_used (shared sem_example)) \<and>
   sem_used (shared sem_example) \<le> 1"
  using semaphore_limit [OF sem_example_reachable] by simp

text \<open>
  C18. No wake-up is lost: in every reachable state of a semaphore with a positive limit, if a
  thread is blocked in \<^verbatim>\<open>cpr_semaphore_acquire\<close> then some thread can run (one about to wait,
  one woken, one entering or leaving) or a thread is still working inside, whose
  release is yet to come. A free place never coexists with sleepers that nobody wakes.
\<close>

theorem semaphore_no_lost_wakeup:
  assumes "(mstep (\<lambda>_. True) sem_sec sem_client)\<^sup>*\<^sup>* (start (cpr_semaphore_init lim) (replicate n Outside)) s"
    and "n < 2 ^ 32" and "0 < lim" and "\<exists>t \<in> set (threads s). blocked t"
  shows "can_move (\<lambda>_. True) sem_sec s \<or> At Inside \<in> set (threads s)"
proof (rule ccontr)
  assume stuck: "\<not> ?thesis"
  note lock = sem_reach_inv(1) [OF assms(1,2)] and inv = sem_reach_inv(2) [OF assms(1,2)]
  have own: "owner s = None"
    using stuck stuck_owner [OF lock, of "\<lambda>_. True" sem_sec] by (cases "owner s") auto
  have no: "At Acquire_Woken \<notin> set (threads s)" "At Release \<notin> set (threads s)"
    using stuck stuck_at [OF _ own, of "\<lambda>_. True" sem_sec] by force+
  have "\<not> inside t" if m: "t \<in> set (threads s)" for t
  proof -
    have "blocked t \<Longrightarrow> thread_pc t = Acquire_Woken" using inv m by (force simp: sem_inv_def)
    moreover have "t \<noteq> At Inside" "t \<noteq> At Release" using stuck no m by auto
    ultimately show ?thesis by (cases t) (auto simp: inside_def)
  qed
  then have "tally inside (threads s) = 0" "tally (\<lambda>t. t = At Acquire_Woken) (threads s) = 0"
    using no by (auto simp: tally_none)
  with inv assms(3,4) show False by (auto simp: sem_inv_def word_less_nat_alt)
qed

theorem semaphore_no_lost_wakeup_witness:
  "can_move (\<lambda>_. True) sem_sec sem_example \<or> At Inside \<in> set (threads sem_example)"
  using semaphore_no_lost_wakeup [OF sem_example_reachable] by (simp add: sem_example_def)

subsection \<open>The wait group is a barrier\<close>

definition to_do :: "wg_pc tstate \<Rightarrow> bool" where
  "to_do t \<longleftrightarrow> thread_pc t = Working \<or> thread_pc t = Done"

definition gone_past :: "wg_pc tstate \<Rightarrow> bool" where
  "gone_past t \<longleftrightarrow> thread_pc t = Passed \<or> thread_pc t = Freed"

definition wg_inv :: "(waitgroup, wg_pc) mstate \<Rightarrow> bool" where
  "wg_inv s \<longleftrightarrow> unat (wg_count (shared s)) = tally to_do (threads s) \<and>
     (\<forall>t \<in> set (threads s).
        (blocked t \<longrightarrow> (t = Want the_cond Wait \<or> t = Asleep the_cond Wait) \<and> wg_count (shared s) \<noteq> 0) \<and>
        (gone_past t \<longrightarrow> wg_count (shared s) = 0))"

lemma wg_inv_step:
  assumes "lock_inv (\<lambda>_. False) s" and "wg_inv s" and "mstep wg_locked wg_sec wg_client s t"
  shows "wg_inv t"
  using assms(3)
proof cases
  case (leave i p x w q ts)
  note inv = assms(2) [unfolded wg_inv_def] and upd = tally_update [OF leave(2), of to_do "At q"]
  have wk: "tally to_do ts = tally to_do ((threads s)[i := At q])"
    by (rule tally_woken [OF leave(6)]) (simp add: to_do_def)
  show ?thesis
  proof (cases "p = Done")
    case True
    let ?x = "shared s"
    have pos: "0 < unat (wg_count ?x)"
      using tally_nth_pos [OF leave(2), of to_do] leave(3) inv True by (simp add: to_do_def)
    then have out: "x = ?x\<lparr>wg_count := wg_count ?x - 1\<rparr>" "q = Finished"
      "w = (if wg_count x = 0 then Broadcast the_cond else No_Wake)"
      using leave(5) True by (auto simp: cpr_waitgroup_done_def Let_def word32_zero split: if_splits)
    have cnt: "unat (wg_count x) = tally to_do ts"
      using out(1,2) pos inv upd wk leave(3) True by (simp add: word32_decr to_do_def)
    have nogone: "\<not> gone_past u" if "u \<in> set ((threads s)[i := At q])" for u
      using that inv pos out(2) by (auto dest!: set_update_cases simp: gone_past_def word32_zero)
    have "(u = Want the_cond Wait \<or> u = Asleep the_cond Wait) \<and> wg_count x \<noteq> 0" if u: "u \<in> set ts" "blocked u" for u
    proof -
      have u0: "u \<in> set (threads s)"
        using woken_set [OF leave(6) u(1)] u(2) by (auto dest!: set_update_cases)
      then have sh: "u = Want the_cond Wait \<or> u = Asleep the_cond Wait" using inv u(2) by blast
      have "u \<noteq> Want the_cond Wait"
        using wg.owner_excludes_want [OF assms(1) leave(2-4)] u0 True by (auto simp: wg_locked_def)
      moreover have "u \<noteq> Asleep the_cond Wait" if "wg_count x = 0"
        using leave(6) u(1) out(3) that by (auto elim!: woken.cases simp: rouse_eq_Asleep dest!: sym [of "Asleep _ _"])
      ultimately show ?thesis using sh by blast
    qed
    moreover have "\<not> gone_past u" if "u \<in> set ts" for u
      using woken_set [OF leave(6) that] nogone by (metis gone_past_def thread_pc.simps(1,3))
    ultimately show ?thesis using cnt leave(1) by (auto simp: wg_inv_def)
  next
    case False
    then have out: "w = No_Wake" "wg_count x = wg_count (shared s)" "\<not> to_do (At q)" "\<not> to_do (At p)"
        "gone_past (At q) \<longrightarrow> wg_count (shared s) = 0"
      using leave(3,5) inv nth_mem [OF leave(2)]
      by (cases p; auto simp: cpr_waitgroup_wait_def cpr_waitgroup_finish_def cpr_waitgroup_free_def to_do_def
          gone_past_def split: if_splits)+
    then have "ts = (threads s)[i := At q]" using leave(6) by (auto elim: woken.cases)
    with out inv upd leave(1,3) show ?thesis by (auto simp: wg_inv_def dest!: set_update_cases)
  qed
next
  case (keep i p x w q ts)
  then show ?thesis
    by (cases p) (auto simp: cpr_waitgroup_wait_def cpr_waitgroup_done_def cpr_waitgroup_finish_def Let_def split: if_splits)
next
  case (block i p x c q)
  then have "p = Wait" "x = shared s" "c = the_cond" "q = Wait" "wg_count (shared s) \<noteq> 0"
    by (cases p; auto simp: cpr_waitgroup_wait_def cpr_waitgroup_done_def cpr_waitgroup_finish_def Let_def split: if_splits)+
  with assms(2) block tally_update [OF block(2), of to_do "Want c q"] show ?thesis
    by (auto simp: wg_inv_def to_do_def gone_past_def dest!: set_update_cases)
next
  case (sleep i c q)
  with assms(2) nth_mem [OF sleep(2)] have "c = the_cond" "q = Wait" "wg_count (shared s) \<noteq> 0"
    by (auto simp: wg_inv_def)
  with assms(2) sleep tally_update [OF sleep(2), of to_do "Asleep c q"] show ?thesis
    by (auto simp: wg_inv_def to_do_def gone_past_def dest!: set_update_cases)
next
  case (spurious i c q)
  with assms(2) nth_mem [OF spurious(2)] have "c = the_cond" "q = Wait" by (auto simp: wg_inv_def)
  with assms(2) spurious tally_update [OF spurious(2), of to_do "At q"] show ?thesis
    by (auto simp: wg_inv_def to_do_def gone_past_def dest!: set_update_cases)
next
  case (call i p q)
  with assms(2) tally_update [OF call(2), of to_do "At q"] show ?thesis
    by (auto simp: wg_inv_def to_do_def gone_past_def wg_client_def dest!: set_update_cases)
qed


lemma wg_inv_start:
  assumes "unat a + unat b = n" and "n < 2 ^ 32"
  shows "wg_inv (start (cpr_waitgroup_add (cpr_waitgroup_init a) b) (replicate n Working @ replicate k Wait))"
proof -
  have "tally to_do (map At (replicate n Working @ replicate k Wait)) = n"
    by (simp add: tally_def to_do_def)
  moreover have "unat (a + b) = n" using assms by (simp add: unat_word_ariths)
  ultimately show ?thesis
    by (auto simp: wg_inv_def start_def cpr_waitgroup_add_def cpr_waitgroup_init_def gone_past_def)
qed

text \<open>
  C20. The wait group is a barrier: with \<open>n\<close> workers announced by \<^verbatim>\<open>cpr_waitgroup_init\<close> and
  \<^verbatim>\<open>cpr_waitgroup_add\<close>, each of which calls \<^verbatim>\<open>cpr_waitgroup_done\<close> once, no thread returns
  from \<^verbatim>\<open>cpr_waitgroup_wait\<close> (nor destroys the object in \<^verbatim>\<open>cpr_waitgroup_finish\<close>) before all
  workers are done; and once all are done nobody is left asleep.
\<close>

theorem waitgroup_barrier:
  assumes "(mstep wg_locked wg_sec wg_client)\<^sup>*\<^sup>*
      (start (cpr_waitgroup_add (cpr_waitgroup_init a) b) (replicate n Working @ replicate k Wait)) s"
    and "unat a + unat b = n" and "n < 2 ^ 32"
  shows "((\<exists>t \<in> set (threads s). thread_pc t = Passed \<or> thread_pc t = Freed) \<longrightarrow>
      (\<forall>t \<in> set (threads s). thread_pc t \<noteq> Working \<and> thread_pc t \<noteq> Done)) \<and>
    ((\<forall>t \<in> set (threads s). thread_pc t \<noteq> Working \<and> thread_pc t \<noteq> Done) \<longrightarrow>
      (\<forall>t \<in> set (threads s). \<not> blocked t))"
proof -
  have l: "lock_inv (\<lambda>_. False) (start (cpr_waitgroup_add (cpr_waitgroup_init a) b)
      (replicate n Working @ replicate k Wait))"
    by (rule start_lock_inv) simp
  have inv: "wg_inv s"
    by (rule wg.reach_invariant [OF assms(1) l]) (auto intro: wg_inv_start [OF assms(2,3)] wg_inv_step)
  then have "wg_count (shared s) = 0 \<longleftrightarrow> (\<forall>t \<in> set (threads s). \<not> to_do t)"
    by (simp add: wg_inv_def word32_zero tally_none)
  with inv show ?thesis by (force simp: wg_inv_def to_do_def gone_past_def)
qed

text \<open>One worker, one waiter: the worker is done and the waiter has passed.\<close>

definition wg_example :: "(waitgroup, wg_pc) mstate" where
  "wg_example = \<lparr>shared = \<lparr>wg_count = 0, wg_live = True\<rparr>, owner = None, threads = [At Finished, At Passed]\<rparr>"

lemma wg_example_reachable:
  "(mstep wg_locked wg_sec wg_client)\<^sup>*\<^sup>*
     (start (cpr_waitgroup_add (cpr_waitgroup_init 1) 0) (replicate 1 Working @ replicate 1 Wait)) wg_example"
proof -
  let ?step = "mstep wg_locked wg_sec wg_client"
  let ?st = "\<lambda>n ts. \<lparr>shared = \<lparr>wg_count = n, wg_live = True\<rparr>, owner = None, threads = ts\<rparr>"
  have "?step\<^sup>*\<^sup>* (start (cpr_waitgroup_add (cpr_waitgroup_init 1) 0) (replicate 1 Working @ replicate 1 Wait))
      (?st 1 [At Working, At Wait])"
    by (simp add: start_def cpr_waitgroup_init_def cpr_waitgroup_add_def)
  also have "?step \<dots> (?st 1 [At Done, At Wait])"
    using mstep.call [of 0 "?st 1 [At Working, At Wait]" Working wg_client Done] by (simp add: wg_client_def)
  also have "?step \<dots> (?st 0 [At Finished, At Wait])"
    using mstep.leave [of 0 "?st 1 [At Done, At Wait]" Done wg_locked wg_sec _ "Broadcast the_cond" Finished
        "[At Finished, At Wait]" wg_client] woken.broadcast [of the_cond "[At Finished, At Wait]"]
    by (simp add: can_enter_def cpr_waitgroup_done_def wg_locked_def)
  also have "?step \<dots> wg_example"
    using mstep.leave [of 1 "?st 0 [At Finished, At Wait]" Wait wg_locked wg_sec _ No_Wake Passed
        "[At Finished, At Passed]" wg_client]
    by (simp add: can_enter_def cpr_waitgroup_wait_def wg_locked_def woken.no_wake wg_example_def)
  finally show ?thesis .
qed

theorem waitgroup_barrier_witness:
  "Working \<notin> thread_pc ` set (threads wg_example) \<and> Done \<notin> thread_pc ` set (threads wg_example)"
  using waitgroup_barrier [OF wg_example_reachable] by (simp add: wg_example_def)

subsection \<open>The read/write lock excludes writers, and can deadlock\<close>

definition reader :: "cl_pc tstate \<Rightarrow> bool" where
  "reader t \<longleftrightarrow> thread_pc t = Reading \<or> thread_pc t = Read_Release"

definition writer :: "cl_pc tstate \<Rightarrow> bool" where
  "writer t \<longleftrightarrow> thread_pc t = Writing \<or> thread_pc t = Commit"

definition cl_inv :: "(condlock, cl_pc) mstate \<Rightarrow> bool" where
  "cl_inv s \<longleftrightarrow> unat (cl_sharing (shared s)) = tally reader (threads s) \<and> length (threads s) < 2 ^ 32 \<and>
     (\<forall>t \<in> set (threads s). (blocked t \<longrightarrow> thread_pc t = Access_Woken \<or> thread_pc t = Modify_Woken) \<and>
        (writer t \<longrightarrow> cl_sharing (shared s) = 0))"

lemma cl_pc_wait: "blocked t \<Longrightarrow> writer t \<Longrightarrow> \<not> (thread_pc t = Access_Woken \<or> thread_pc t = Modify_Woken)"
  by (auto simp: writer_def)

text \<open>While a writer is inside it owns the mutex, so no other thread runs a section.\<close>

lemma cl_no_writer:
  assumes "lock_inv cl_keeps s" and "cl_inv s" and "i < length (threads s)" and "threads s ! i = At p"
    and "can_enter (\<lambda>_. True) s i p" and "\<not> cl_keeps p" and "t \<in> set (threads s)"
  shows "\<not> writer t"
proof
  assume w: "writer t"
  from assms(7) obtain j where j: "j < length (threads s)" "threads s ! j = t" by (metis in_set_conv_nth)
  have "\<not> blocked t" using w assms(2,7) cl_pc_wait by (auto simp: cl_inv_def)
  with w have "holding cl_keeps t" by (cases t) (auto simp: writer_def cl_keeps_def)
  with assms(1) j have own: "owner s = Some j" by (auto simp: lock_inv_def)
  with assms(5) have "j = i" by (simp add: can_enter_def)
  with j(2) assms(4,6) \<open>holding cl_keeps t\<close> show False by auto
qed

lemma cl_inv_woken:
  assumes "cl_inv \<lparr>shared = x, owner = own, threads = ts\<rparr>" and "woken w ts us"
  shows "cl_inv \<lparr>shared = x, owner = own, threads = us\<rparr>"
proof -
  have "tally reader us = tally reader ts" by (rule tally_woken [OF assms(2)]) (simp add: reader_def)
  moreover have "(blocked t \<longrightarrow> thread_pc t = Access_Woken \<or> thread_pc t = Modify_Woken) \<and>
      (writer t \<longrightarrow> cl_sharing x = 0)" if "t \<in> set us" for t
  proof -
    from woken_set [OF assms(2) that] obtain u where "u \<in> set ts" "thread_pc u = thread_pc t" "blocked t \<longrightarrow> blocked u"
      by (metis thread_pc.simps(1,3) blocked.simps(1))
    then show ?thesis using assms(1) by (auto simp: cl_inv_def writer_def)
  qed
  ultimately show ?thesis using assms by (simp add: cl_inv_def)
qed

lemma cl_inv_update:
  assumes "cl_inv s" and "i < length (threads s)"
    and "unat (cl_sharing x) + (if reader (threads s ! i) then 1 else 0) =
      unat (cl_sharing (shared s)) + (if reader t then 1 else 0)"
    and "blocked t \<Longrightarrow> thread_pc t = Access_Woken \<or> thread_pc t = Modify_Woken"
    and "writer t \<Longrightarrow> cl_sharing x = 0"
    and "cl_sharing x = cl_sharing (shared s) \<or> (\<forall>u \<in> set (threads s). \<not> writer u)"
  shows "cl_inv \<lparr>shared = x, owner = own, threads = (threads s)[i := t]\<rparr>"
  using assms tally_update [OF assms(2), of reader t]
  by (auto simp: cl_inv_def dest!: set_update_cases)

lemmas cl_section_defs = cor_condlock_access_def cpr_condlock_release_def cpr_condlock_modify_def
  cpr_condlock_commit_def

lemma cl_inv_step:
  assumes "lock_inv cl_keeps s" and "cl_inv s" and "mstep (\<lambda>_. True) cl_sec cl_client s t"
  shows "cl_inv t"
  using assms(3)
proof cases
  case (leave i p x w q ts)
  have rd: "0 < unat (cl_sharing (shared s))" if "p = Read_Release"
    using tally_nth_pos [OF leave(2), of reader] leave(3) assms(2) that by (simp add: reader_def cl_inv_def)
  have lt: "unat (cl_sharing (shared s)) + 1 < 2 ^ 32" if "\<not> reader (At p)"
    using tally_update [OF leave(2), of reader "At Reading"] leave(3) assms(2) that
      tally_le [of reader "(threads s)[i := At Reading]"]
    by (auto simp: reader_def cl_inv_def)
  have "cl_inv \<lparr>shared = x, owner = (if True then None else owner s), threads = (threads s)[i := At q]\<rparr>"
  proof (rule cl_inv_update [OF assms(2) leave(2)])
    show "unat (cl_sharing x) + (if reader (threads s ! i) then 1 else 0) =
        unat (cl_sharing (shared s)) + (if reader (At q) then 1 else 0)"
      using leave(3,5) rd lt
      by (cases p) (auto simp: cl_section_defs Let_def reader_def word32_incr word32_decr word32_zero split: if_splits)
    show "writer (At q) \<Longrightarrow> cl_sharing x = 0"
      using leave(5) by (cases p) (auto simp: cl_section_defs Let_def writer_def split: if_splits)
    show "cl_sharing x = cl_sharing (shared s) \<or> (\<forall>u \<in> set (threads s). \<not> writer u)"
    proof (cases "cl_keeps p")
      case True
      then show ?thesis using leave(5) by (cases p) (auto simp: cl_keeps_def cl_section_defs)
    qed (use cl_no_writer [OF assms(1,2) leave(2-4)] in blast)
  qed simp
  then show ?thesis unfolding leave(1) by (rule cl_inv_woken [OF _ leave(6)])
next
  case (keep i p x w q ts)
  have "cl_inv \<lparr>shared = x, owner = Some i, threads = (threads s)[i := At q]\<rparr>"
    using keep(3,5) by (intro cl_inv_update [OF assms(2) keep(2)])
      (cases p; auto simp: cl_section_defs Let_def reader_def split: if_splits)+
  then show ?thesis unfolding keep(1) by (rule cl_inv_woken [OF _ keep(6)])
next
  case (block i p x c q)
  then show ?thesis
    unfolding block(1) by (intro cl_inv_update [OF assms(2) block(2)])
      (cases p; auto simp: cl_section_defs Let_def reader_def writer_def split: if_splits)+
next
  case (sleep i c q)
  with assms(2) nth_mem [OF sleep(2)] have q: "q = Access_Woken \<or> q = Modify_Woken" by (auto simp: cl_inv_def)
  have "cl_inv \<lparr>shared = shared s, owner = None, threads = (threads s)[i := Asleep c q]\<rparr>"
    using q sleep(3) by (intro cl_inv_update [OF assms(2) sleep(2)]) (auto simp: reader_def writer_def)
  then show ?thesis using sleep(1) by (cases s) simp
next
  case (spurious i c q)
  with assms(2) nth_mem [OF spurious(2)] have q: "q = Access_Woken \<or> q = Modify_Woken" by (auto simp: cl_inv_def)
  have "cl_inv \<lparr>shared = shared s, owner = owner s, threads = (threads s)[i := At q]\<rparr>"
    using q spurious(3) by (intro cl_inv_update [OF assms(2) spurious(2)]) (auto simp: reader_def writer_def)
  then show ?thesis using spurious(1) by (cases s) simp
next
  case (call i p q)
  have w: "cl_sharing (shared s) = 0" if "writer (At p)"
    using assms(2) nth_mem [OF call(2)] call(3) that by (auto simp: cl_inv_def)
  have "cl_inv \<lparr>shared = shared s, owner = owner s, threads = (threads s)[i := At q]\<rparr>"
    using call(3,4) w by (intro cl_inv_update [OF assms(2) call(2)]) (auto simp: reader_def writer_def cl_client_def)
  then show ?thesis using call(1) by (cases s) simp
qed

lemma cl_reach_inv:
  assumes "(mstep (\<lambda>_. True) cl_sec cl_client)\<^sup>*\<^sup>* (start cor_condlock_init (replicate n Idle)) s" and "n < 2 ^ 32"
  shows "lock_inv cl_keeps s" and "cl_inv s"
proof -
  have l: "lock_inv cl_keeps (start cor_condlock_init (replicate n Idle))"
    by (rule start_lock_inv) (simp add: cl_keeps_def)
  have "tally reader (replicate n (At Idle)) = 0" by (auto simp: tally_none reader_def)
  then have i: "cl_inv (start cor_condlock_init (replicate n Idle))"
    using assms(2) by (auto simp: cl_inv_def start_def cor_condlock_init_def writer_def)
  show "lock_inv cl_keeps s" by (rule cl.reach_lock_inv [OF assms(1) l])
  show "cl_inv s" by (rule cl.reach_invariant [where J = cl_inv, OF assms(1) l i]) (rule cl_inv_step)
qed

text \<open>
  C10. The read/write lock excludes: in every interleaving of any number of readers and writers
  (below 2^32 threads), while a thread is between \<^verbatim>\<open>cpr_condlock_modify\<close> and the end of
  \<^verbatim>\<open>cpr_condlock_commit\<close> no other thread is, and no thread is between
  \<^verbatim>\<open>cor_condlock_access\<close> and the end of \<^verbatim>\<open>cpr_condlock_release\<close>.
\<close>

theorem condlock_exclusion:
  assumes "(mstep (\<lambda>_. True) cl_sec cl_client)\<^sup>*\<^sup>* (start cor_condlock_init (replicate n Idle)) s" and "n < 2 ^ 32"
    and "i < length (threads s)" and "thread_pc (threads s ! i) \<in> {Writing, Commit}"
    and "j < length (threads s)" and "j \<noteq> i"
  shows "thread_pc (threads s ! j) \<notin> {Writing, Commit, Reading, Read_Release}"
proof -
  note lock = cl_reach_inv(1) [OF assms(1,2)] and inv = cl_reach_inv(2) [OF assms(1,2)]
  have mem: "threads s ! k \<in> set (threads s)" if "k < length (threads s)" for k using that by simp
  have own: "owner s = Some k" if "k < length (threads s)" "writer (threads s ! k)" for k
  proof -
    have "\<not> blocked (threads s ! k)" using inv that(2) cl_pc_wait mem [OF that(1)] by (auto simp: cl_inv_def)
    with that(2) have "holding cl_keeps (threads s ! k)"
      by (cases "threads s ! k") (auto simp: writer_def cl_keeps_def)
    with lock that(1) show ?thesis by (auto simp: lock_inv_def)
  qed
  have w: "writer (threads s ! i)" using assms(4) by (auto simp: writer_def)
  then have "cl_sharing (shared s) = 0" using inv mem [OF assms(3)] by (auto simp: cl_inv_def)
  then have "tally reader (threads s) = 0" using inv by (auto simp: cl_inv_def)
  then have "\<not> reader (threads s ! j)" using mem [OF assms(5)] by (auto simp: tally_none)
  moreover have "\<not> writer (threads s ! j)" using own [OF assms(3) w] own [OF assms(5)] assms(6) by auto
  ultimately show ?thesis by (auto simp: reader_def writer_def)
qed

theorem condlock_exclusion_witness:
  "thread_pc (threads \<lparr>shared = cor_condlock_init, owner = Some 0, threads = [At Writing, At Modify]\<rparr> ! 1)
     \<notin> {Writing, Commit, Reading, Read_Release}"
proof -
  let ?step = "mstep (\<lambda>_. True) cl_sec cl_client"
  let ?st = "\<lambda>own ts. \<lparr>shared = cor_condlock_init, owner = own, threads = ts\<rparr>"
  have "?step\<^sup>*\<^sup>* (start cor_condlock_init (replicate 2 Idle)) (?st None [At Idle, At Idle])"
    by (simp add: start_def numeral_2_eq_2)
  also have "?step \<dots> (?st None [At Modify, At Idle])"
    using mstep.call [of 0 "?st None [At Idle, At Idle]" Idle cl_client Modify] by (simp add: cl_client_def)
  also have "?step \<dots> (?st None [At Modify, At Modify])"
    using mstep.call [of 1 "?st None [At Modify, At Idle]" Idle cl_client Modify] by (simp add: cl_client_def)
  also have "?step \<dots> (?st (Some 0) [At Writing, At Modify])"
    using mstep.keep [of 0 "?st None [At Modify, At Modify]" Modify "\<lambda>_. True" cl_sec _ No_Wake Writing
        "[At Writing, At Modify]" cl_client]
    by (simp add: can_enter_def cpr_condlock_modify_def cor_condlock_init_def woken.no_wake)
  finally show ?thesis
    using condlock_exclusion [of 2 "?st (Some 0) [At Writing, At Modify]" 0 1] by simp
qed

text \<open>
  C36. The read/write lock can deadlock: readers and writers sleep on one condition variable,
  and the last reader wakes a single thread. When that is a waiting reader instead of the
  pending writer, it goes back to sleep because a writer is pending, and nobody is
  left to wake the writer. Three threads reach a state where the lock is free of
  readers and writers and all three are asleep.
\<close>

theorem condlock_deadlock:
  "\<exists>s. (mstep (\<lambda>_. True) cl_sec cl_client)\<^sup>*\<^sup>* (start cor_condlock_init (replicate 3 Idle)) s \<and>
     threads s = [Asleep the_cond Access_Woken, Asleep the_cond Modify_Woken, Asleep the_cond Access_Woken] \<and>
     owner s = None \<and> cl_sharing (shared s) = 0 \<and> \<not> can_move (\<lambda>_. True) cl_sec s"
proof -
  let ?step = "mstep (\<lambda>_. True) cl_sec cl_client"
  let ?st = "\<lambda>p w r own ts. \<lparr>shared = \<lparr>cl_pending = p, cl_waiting = w, cl_sharing = r, cl_live = True\<rparr>,
     owner = own, threads = ts\<rparr>"
  let ?MW = "Asleep the_cond Modify_Woken" let ?AW = "Asleep the_cond Access_Woken"
  note rules = can_enter_def cl_section_defs woken.no_wake cl_client_def
  have "?step\<^sup>*\<^sup>* (start cor_condlock_init (replicate 3 Idle)) (?st 0 0 0 None [At Idle, At Idle, At Idle])"
    by (simp add: start_def cor_condlock_init_def numeral_3_eq_3)
  also have "?step \<dots> (?st 0 0 0 None [At Access, At Idle, At Idle])"
    using mstep.call [of 0 "?st 0 0 0 None [At Idle, At Idle, At Idle]" Idle cl_client Access] by (simp add: rules)
  also have "?step \<dots> (?st 0 0 1 None [At Reading, At Idle, At Idle])"
    using mstep.leave [of 0 "?st 0 0 0 None [At Access, At Idle, At Idle]" Access "\<lambda>_. True" cl_sec _ "No_Wake" Reading "[At Reading, At Idle, At Idle]" cl_client] by (simp add: rules)
  also have "?step \<dots> (?st 0 0 1 None [At Reading, At Modify, At Idle])"
    using mstep.call [of 1 "?st 0 0 1 None [At Reading, At Idle, At Idle]" Idle cl_client Modify] by (simp add: rules)
  also have "?step \<dots> (?st 1 0 1 (Some 1) [At Reading, Want the_cond Modify_Woken, At Idle])"
    using mstep.block [of 1 "?st 0 0 1 None [At Reading, At Modify, At Idle]" Modify "\<lambda>_. True" cl_sec _ the_cond Modify_Woken cl_client] by (simp add: rules)
  also have "?step \<dots> (?st 1 0 1 None [At Reading, ?MW, At Idle])"
    using mstep.sleep [of 1 "?st 1 0 1 (Some 1) [At Reading, Want the_cond Modify_Woken, At Idle]" the_cond Modify_Woken "\<lambda>_. True" cl_sec cl_client] by (simp add: rules)
  also have "?step \<dots> (?st 1 0 1 None [At Reading, ?MW, At Access])"
    using mstep.call [of 2 "?st 1 0 1 None [At Reading, ?MW, At Idle]" Idle cl_client Access] by (simp add: rules)
  also have "?step \<dots> (?st 1 1 1 (Some 2) [At Reading, ?MW, Want the_cond Access_Woken])"
    using mstep.block [of 2 "?st 1 0 1 None [At Reading, ?MW, At Access]" Access "\<lambda>_. True" cl_sec _ the_cond Access_Woken cl_client] by (simp add: rules)
  also have "?step \<dots> (?st 1 1 1 None [At Reading, ?MW, ?AW])"
    using mstep.sleep [of 2 "?st 1 1 1 (Some 2) [At Reading, ?MW, Want the_cond Access_Woken]" the_cond Access_Woken "\<lambda>_. True" cl_sec cl_client] by (simp add: rules)
  also have "?step \<dots> (?st 1 1 1 None [At Read_Release, ?MW, ?AW])"
    using mstep.call [of 0 "?st 1 1 1 None [At Reading, ?MW, ?AW]" Reading cl_client Read_Release] by (simp add: rules)
  also have "?step \<dots> (?st 1 1 0 None [At Idle, ?MW, At Access_Woken])"
    using mstep.leave [of 0 "?st 1 1 1 None [At Read_Release, ?MW, ?AW]" Read_Release "\<lambda>_. True" cl_sec _ "Signal the_cond" Idle "[At Idle, ?MW, At Access_Woken]" cl_client]
      woken.signal_one [of 2 "[At Idle, ?MW, ?AW]" the_cond Access_Woken] by (simp add: rules)
  also have "?step \<dots> (?st 1 1 0 (Some 2) [At Idle, ?MW, Want the_cond Access_Woken])"
    using mstep.block [of 2 "?st 1 1 0 None [At Idle, ?MW, At Access_Woken]" Access_Woken "\<lambda>_. True" cl_sec _ the_cond Access_Woken cl_client] by (simp add: rules)
  also have "?step \<dots> (?st 1 1 0 None [At Idle, ?MW, ?AW])"
    using mstep.sleep [of 2 "?st 1 1 0 (Some 2) [At Idle, ?MW, Want the_cond Access_Woken]" the_cond Access_Woken "\<lambda>_. True" cl_sec cl_client] by (simp add: rules)
  also have "?step \<dots> (?st 1 1 0 None [At Access, ?MW, ?AW])"
    using mstep.call [of 0 "?st 1 1 0 None [At Idle, ?MW, ?AW]" Idle cl_client Access] by (simp add: rules)
  also have "?step \<dots> (?st 1 2 0 (Some 0) [Want the_cond Access_Woken, ?MW, ?AW])"
    using mstep.block [of 0 "?st 1 1 0 None [At Access, ?MW, ?AW]" Access "\<lambda>_. True" cl_sec _ the_cond Access_Woken cl_client] by (simp add: rules)
  also have "?step \<dots> (?st 1 2 0 None [?AW, ?MW, ?AW])"
    using mstep.sleep [of 0 "?st 1 2 0 (Some 0) [Want the_cond Access_Woken, ?MW, ?AW]" the_cond Access_Woken "\<lambda>_. True" cl_sec cl_client] by (simp add: rules)
  finally show ?thesis
    by (intro exI conjI) (auto simp: can_move_def less_Suc_eq numeral_3_eq_3)
qed

end
