(* ===== verification/Pipeline.thy ===== *)
theory Pipeline
  imports C_Memory Thread
begin

text \<open>
  \<^verbatim>\<open>src/pipeline.c\<close> and \<^verbatim>\<open>src/pipeline.h\<close>: a bounded ring of pointers shared by producers
  and consumers, with the policies \<^verbatim>\<open>WAIT\<close> and \<^verbatim>\<open>DROP\<close>. The record has the fields of the
  structure; \<open>freed\<close> lists the pointers handed to the \<^verbatim>\<open>free\<close> callback, and two history
  variables record what entered the ring and what left it, by a get or by the callback.
  The functions are cut into sections as in the theory of monitors. \<^verbatim>\<open>close_pipeline\<close> sets
  the flag and wakes both conditions without the mutex, so those are unlocked
  sections, and the loop of \<^verbatim>\<open>put_pipeline\<close> tests the flag again after it dropped an item,
  so the section ends there with the mutex kept.
\<close>

datatype policy = WAIT | DROP

datatype fate = Fetched | Discarded

record pipeline =
  policy :: policy
  head :: size_t
  tail :: size_t
  count :: size_t
  psize :: size_t
  closed :: bool
  buf :: "ptr list"
  freed :: "ptr list"
  inserted :: "ptr list"
  removed :: "(ptr \<times> fate) list"

text \<open>\<^verbatim>\<open>sizeof(pipeline_t)\<close> on LP64 with the glibc mutex and condition variable.\<close>

definition pipeline_sizeof :: size_t where "pipeline_sizeof = 192"

text \<open>
  \<^verbatim>\<open>make_pipeline\<close>: the slots are those that fit in the allocation, whose size is computed
  in \<^verbatim>\<open>size_t\<close>; all are null after \<^verbatim>\<open>cpr_memset\<close>. \<open>grant\<close> is the answer of \<^verbatim>\<open>malloc\<close>.
\<close>

definition make_pipeline :: "(size_t \<Rightarrow> bool) \<Rightarrow> size_t \<Rightarrow> policy \<Rightarrow> pipeline option" where
  "make_pipeline grant sz pol =
     (let bytes = sz_add pipeline_sizeof (sz_mul sz 8) in
      if \<not> grant bytes then None
      else Some \<lparr>policy = pol, head = 0, tail = 0, count = 0, psize = sz, closed = False,
                 buf = replicate ((bytes - pipeline_sizeof) div 8) Null,
                 freed = [], inserted = [], removed = []\<rparr>)"

subsection \<open>The ring\<close>

text \<open>
  The three ways the source touches the ring: store at the tail, fetch from the head and
  clear the slot, and hand the head to the callback. An index outside the array or a
  remainder by zero is undefined.
\<close>

definition ring_put :: "pipeline \<Rightarrow> ptr \<Rightarrow> pipeline option" where
  "ring_put x p =
     (if tail x < length (buf x) \<and> psize x \<noteq> 0
      then Some (x\<lparr>buf := (buf x)[tail x := p], tail := (tail x + 1) mod psize x, count := count x + 1,
                   inserted := inserted x @ [p]\<rparr>)
      else None)"

definition ring_fetch :: "pipeline \<Rightarrow> (ptr \<times> pipeline) option" where
  "ring_fetch x =
     (if head x < length (buf x) \<and> psize x \<noteq> 0
      then Some (buf x ! head x,
                 x\<lparr>buf := (buf x)[head x := Null], head := (head x + 1) mod psize x, count := count x - 1,
                   removed := removed x @ [(buf x ! head x, Fetched)]\<rparr>)
      else None)"

definition ring_discard :: "pipeline \<Rightarrow> pipeline option" where
  "ring_discard x =
     (if head x < length (buf x) \<and> psize x \<noteq> 0
      then (let p = buf x ! head x in
            Some (x\<lparr>freed := (if p \<noteq> Null then freed x @ [p] else freed x),
                    head := (head x + 1) mod psize x, count := count x - 1,
                    removed := removed x @ [(p, Discarded)]\<rparr>))
      else None)"

primrec ring_drain :: "pipeline \<Rightarrow> nat \<Rightarrow> pipeline option" where
  "ring_drain x 0 = Some x"
| "ring_drain x (Suc n) = do { x \<leftarrow> ring_discard x; ring_drain x n }"

subsection \<open>Sections of the functions\<close>

datatype pipe_pc = Producing | Put ptr | Put_Again ptr | Put_Result bool
  | Consuming | Get | Got ptr | Is_Open | Is_Result bool
  | Closing | Close_Flag | Close_Input | Close_Output | Close_Drain | Close_Done
  | Undefined

text \<open>A section whose ring access is undefined ends at \<open>Undefined\<close>.\<close>

definition put_pipeline :: "ptr \<Rightarrow> pipeline \<Rightarrow> (pipeline, pipe_pc) outcome" where
  "put_pipeline p x =
     (if closed x then Leave x No_Wake (Put_Result False)
      else if count x < psize x
      then (case ring_put x p of None \<Rightarrow> Leave x No_Wake Undefined
            | Some y \<Rightarrow> Leave y (if count x = 0 then Signal cnd_output else No_Wake) (Put_Result True))
      else if policy x = WAIT then Block x cnd_input (Put p)
      else (case ring_discard x of None \<Rightarrow> Leave x No_Wake Undefined
            | Some y \<Rightarrow> Keep y No_Wake (Put_Again p)))"

definition get_pipeline :: "pipeline \<Rightarrow> (pipeline, pipe_pc) outcome" where
  "get_pipeline x =
     (if closed x then Leave x No_Wake (Got Null)
      else if count x > 0
      then (case ring_fetch x of None \<Rightarrow> Leave x No_Wake Undefined
            | Some (p, y) \<Rightarrow> Leave y (if count x = psize x then Signal cnd_input else No_Wake) (Got p))
      else Block x cnd_output Get)"

definition is_pipeline :: "pipeline \<Rightarrow> bool" where
  "is_pipeline x = (\<not> closed x)"

definition close_flag :: "pipeline \<Rightarrow> (pipeline, pipe_pc) outcome" where
  "close_flag x =
     (if closed x then Leave x No_Wake Close_Done
      else Leave (x\<lparr>closed := True\<rparr>) No_Wake Close_Input)"

definition close_drain :: "pipeline \<Rightarrow> (pipeline, pipe_pc) outcome" where
  "close_drain x = (case ring_drain x (count x) of None \<Rightarrow> Leave x No_Wake Undefined
     | Some y \<Rightarrow> Leave y No_Wake Close_Done)"

primrec close_pipeline :: "pipe_pc \<Rightarrow> pipeline \<Rightarrow> (pipeline, pipe_pc) outcome option" where
  "close_pipeline Close_Flag x = Some (close_flag x)"
| "close_pipeline Close_Input x = Some (Leave x (Broadcast cnd_input) Close_Output)"
| "close_pipeline Close_Output x = Some (Leave x (Broadcast cnd_output) Close_Drain)"
| "close_pipeline Close_Drain x = Some (close_drain x)"
| "close_pipeline Producing x = None"
| "close_pipeline (Put p) x = None"
| "close_pipeline (Put_Again p) x = None"
| "close_pipeline (Put_Result b) x = None"
| "close_pipeline Consuming x = None"
| "close_pipeline Get x = None"
| "close_pipeline (Got p) x = None"
| "close_pipeline Is_Open x = None"
| "close_pipeline (Is_Result b) x = None"
| "close_pipeline Closing x = None"
| "close_pipeline Close_Done x = None"
| "close_pipeline Undefined x = None"

fun pipe_sec :: "pipe_pc \<Rightarrow> pipeline \<Rightarrow> (pipeline, pipe_pc) outcome option" where
  "pipe_sec (Put p) x = Some (put_pipeline p x)"
| "pipe_sec (Put_Again p) x = Some (put_pipeline p x)"
| "pipe_sec Get x = Some (get_pipeline x)"
| "pipe_sec Is_Open x = Some (Leave x No_Wake (Is_Result (is_pipeline x)))"
| "pipe_sec pc x = close_pipeline pc x"

text \<open>
  \<^verbatim>\<open>free_pipeline\<close> closes and releases the object when no other thread uses it: the sections
  of \<^verbatim>\<open>close_pipeline\<close> in sequence, nobody being asleep. The result is the last state of the
  ring before the memory is gone.
\<close>

definition free_pipeline :: "pipeline option \<Rightarrow> pipeline option option" where
  "free_pipeline pl = (case pl of None \<Rightarrow> Some None
     | Some x \<Rightarrow>
         if closed x then Some (Some x)
         else do { y \<leftarrow> ring_drain (x\<lparr>closed := True\<rparr>) (count x); Some (Some y) })"

definition pipe_locked :: "pipe_pc \<Rightarrow> bool" where
  "pipe_locked pc \<longleftrightarrow> pc \<notin> {Is_Open, Close_Flag, Close_Input, Close_Output}"

definition pipe_keeps :: "pipe_pc \<Rightarrow> bool" where
  "pipe_keeps pc \<longleftrightarrow> (\<exists>p. pc = Put_Again p)"

text \<open>Producers put pointers, consumers fetch, and a thread may close the pipeline.\<close>

inductive pipe_client :: "pipe_pc \<Rightarrow> pipe_pc \<Rightarrow> bool" where
  "pipe_client Producing (Put p)"
| "pipe_client (Put_Result b) Producing"
| "pipe_client Consuming Get"
| "pipe_client (Got p) Consuming"
| "pipe_client Consuming Is_Open"
| "pipe_client (Is_Result b) Consuming"
| "pipe_client Closing Close_Flag"

inductive_simps pipe_client_iff: "pipe_client p q"

interpretation pipe: monitor_lock pipe_locked pipe_sec pipe_client pipe_keeps
proof
  show "pipe_keeps p \<Longrightarrow> pipe_locked p" for p by (auto simp: pipe_keeps_def pipe_locked_def)
  show "pipe_sec p x = Some (Leave y w q) \<Longrightarrow> \<not> pipe_keeps q" for p x y w q
    by (cases p) (auto simp: put_pipeline_def get_pipeline_def close_flag_def close_drain_def pipe_keeps_def
        split: if_splits option.splits)
  show "pipe_sec p x = Some (Keep y w q) \<Longrightarrow> pipe_locked p \<and> pipe_keeps q" for p x y w q
    by (cases p) (auto simp: put_pipeline_def get_pipeline_def close_flag_def close_drain_def pipe_keeps_def
        pipe_locked_def split: if_splits option.splits)
  show "pipe_sec p x = Some (Block y c q) \<Longrightarrow> pipe_locked p \<and> \<not> pipe_keeps q" for p x y c q
    by (cases p) (auto simp: put_pipeline_def get_pipeline_def close_flag_def close_drain_def pipe_keeps_def
        pipe_locked_def split: if_splits option.splits)
  show "pipe_client p q \<Longrightarrow> pipe_keeps q = pipe_keeps p" for p q
    by (auto simp: pipe_client_iff pipe_keeps_def)
qed

subsection \<open>The ring is a bounded queue\<close>

text \<open>The interface of a bounded first-in first-out queue.\<close>

locale bounded_queue =
  fixes ok :: "'s \<Rightarrow> bool"
    and items :: "'s \<Rightarrow> 'a list"
    and cap :: "'s \<Rightarrow> nat"
    and enq :: "'s \<Rightarrow> 'a \<Rightarrow> 's option"
    and deq :: "'s \<Rightarrow> ('a \<times> 's) option"
  assumes items_cap: "ok s \<Longrightarrow> length (items s) \<le> cap s"
    and enq_law: "ok s \<Longrightarrow> length (items s) < cap s \<Longrightarrow>
      \<exists>s'. enq s a = Some s' \<and> ok s' \<and> items s' = items s @ [a] \<and> cap s' = cap s"
    and deq_law: "ok s \<Longrightarrow> items s = a # as \<Longrightarrow>
      \<exists>s'. deq s = Some (a, s') \<and> ok s' \<and> items s' = as \<and> cap s' = cap s"

primrec enq_all :: "('s \<Rightarrow> 'a \<Rightarrow> 's option) \<Rightarrow> 's \<Rightarrow> 'a list \<Rightarrow> 's option" where
  "enq_all enq s [] = Some s"
| "enq_all enq s (a # as) = do { s \<leftarrow> enq s a; enq_all enq s as }"

primrec deq_all :: "('s \<Rightarrow> ('a \<times> 's) option) \<Rightarrow> 's \<Rightarrow> nat \<Rightarrow> ('a list \<times> 's) option" where
  "deq_all deq s 0 = Some ([], s)"
| "deq_all deq s (Suc n) = do { (a, s) \<leftarrow> deq s; (as, s) \<leftarrow> deq_all deq s n; Some (a # as, s) }"

context bounded_queue
begin

lemma enq_all_items:
  "ok s \<Longrightarrow> length (items s) + length as \<le> cap s \<Longrightarrow>
   \<exists>s'. enq_all enq s as = Some s' \<and> ok s' \<and> items s' = items s @ as \<and> cap s' = cap s"
proof (induction as arbitrary: s)
  case (Cons a as)
  then obtain s1 where s1: "enq s a = Some s1" "ok s1" "items s1 = items s @ [a]" "cap s1 = cap s"
    using enq_law [of s a] by auto
  with Cons.prems Cons.IH [of s1] show ?case by auto
qed simp

lemma deq_all_items:
  "ok s \<Longrightarrow> items s = as @ bs \<Longrightarrow>
   \<exists>s'. deq_all deq s (length as) = Some (as, s') \<and> ok s' \<and> items s' = bs \<and> cap s' = cap s"
proof (induction as arbitrary: s)
  case (Cons a as)
  then obtain s1 where s1: "deq s = Some (a, s1)" "ok s1" "items s1 = as @ bs" "cap s1 = cap s"
    using deq_law [of s a "as @ bs"] by auto
  with Cons.IH [of s1] show ?case by auto
qed simp

lemma fifo:
  assumes "ok s" and "items s = []" and "length as \<le> cap s"
  shows "\<exists>s1 s2. enq_all enq s as = Some s1 \<and> deq_all deq s1 (length as) = Some (as, s2) \<and> items s2 = []"
proof -
  obtain s1 where "enq_all enq s as = Some s1" "ok s1" "items s1 = as"
    using enq_all_items [of s as] assms by auto
  with deq_all_items [of s1 as "[]"] show ?thesis by auto
qed

end

definition ring_ok :: "pipeline \<Rightarrow> bool" where
  "ring_ok x \<longleftrightarrow> 0 < psize x \<and> length (buf x) = psize x \<and> head x < psize x \<and> count x \<le> psize x \<and>
     tail x = (head x + count x) mod psize x"

definition queue :: "pipeline \<Rightarrow> ptr list" where
  "queue x = map (\<lambda>i. buf x ! ((head x + i) mod psize x)) [0..<count x]"

lemma length_queue [simp]: "length (queue x) = count x"
  by (simp add: queue_def)

lemma ring_index: "h < n \<Longrightarrow> i < n \<Longrightarrow> (h + i) mod n = (if h + i < n then h + i else h + i - (n :: nat))"
  by (simp add: le_mod_geq)

lemma ring_index_inj:
  "h < n \<Longrightarrow> i < n \<Longrightarrow> j < n \<Longrightarrow> (h + i) mod n = (h + j) mod n \<Longrightarrow> i = (j :: nat)"
  by (auto simp: ring_index split: if_splits)

lemma ring_put_spec:
  assumes "ring_ok x" and "count x < psize x"
  obtains y where "ring_put x p = Some y" and "ring_ok y" and "queue y = queue x @ [p]"
    and "psize y = psize x" and "count y = count x + 1" and "policy y = policy x" and "closed y = closed x"
    and "freed y = freed x" and "inserted y = inserted x @ [p]" and "removed y = removed x"
proof -
  let ?n = "psize x"
  note ok = assms(1) [unfolded ring_ok_def]
  let ?y = "x\<lparr>buf := (buf x)[tail x := p], tail := (tail x + 1) mod ?n, count := count x + 1,
    inserted := inserted x @ [p]\<rparr>"
  have put: "ring_put x p = Some ?y" using ok by (simp add: ring_put_def)
  have "((buf x)[tail x := p]) ! ((head x + i) mod ?n) = buf x ! ((head x + i) mod ?n)" if "i < count x" for i
  proof -
    have "(head x + i) mod ?n \<noteq> tail x"
      using that ok assms(2) ring_index_inj [of "head x" ?n i "count x"] by auto
    then show ?thesis by simp
  qed
  moreover have "((buf x)[tail x := p]) ! ((head x + count x) mod ?n) = p" using ok by simp
  ultimately have "queue ?y = queue x @ [p]" by (simp add: queue_def)
  moreover have "ring_ok ?y" using ok assms(2) by (simp add: ring_ok_def mod_simps add.assoc)
  ultimately show ?thesis using put by (intro that [of ?y]) simp_all
qed

text \<open>Taking the first item off, with or without clearing its slot.\<close>

lemma queue_drop_head:
  assumes "ring_ok x" and "0 < count x" and "buf y = (buf x)[head x := v] \<or> buf y = buf x"
    and "head y = (head x + 1) mod psize x" and "count y = count x - 1" and "psize y = psize x" and "tail y = tail x"
  shows "queue x = buf x ! head x # queue y" and "ring_ok y"
proof -
  let ?n = "psize x"
  note ok = assms(1) [unfolded ring_ok_def]
  obtain m where m: "count x = Suc m" using assms(2) by (cases "count x") auto
  have idx: "(head y + i) mod ?n = (head x + Suc i) mod ?n" for i
    using assms(4) by (simp add: mod_simps)
  have "buf y ! ((head x + Suc i) mod ?n) = buf x ! ((head x + Suc i) mod ?n)" if "i < m" for i
  proof -
    have "(head x + Suc i) mod ?n \<noteq> head x"
      using that m ok ring_index_inj [of "head x" ?n 0 "Suc i"] by auto
    with assms(3) show ?thesis by auto
  qed
  then have "queue y = map (\<lambda>i. buf x ! ((head x + Suc i) mod ?n)) [0..<m]"
    using m assms(5,6) idx by (simp add: queue_def)
  moreover have "queue x = buf x ! head x # map (\<lambda>i. buf x ! ((head x + Suc i) mod ?n)) [0..<m]"
    using ok by (simp only: queue_def m map_upt_Suc) simp
  ultimately show "queue x = buf x ! head x # queue y" by simp
  have "tail x = (head y + count y) mod ?n"
    using ok m assms(5) idx [of m] by (simp add: add.commute)
  then show "ring_ok y" using ok m assms(3-7) by (auto simp: ring_ok_def)
qed

lemma ring_fetch_spec:
  assumes "ring_ok x" and "0 < count x"
  obtains p y where "ring_fetch x = Some (p, y)" and "ring_ok y" and "queue x = p # queue y"
    and "psize y = psize x" and "count y = count x - 1" and "policy y = policy x" and "closed y = closed x"
    and "freed y = freed x" and "inserted y = inserted x" and "removed y = removed x @ [(p, Fetched)]"
proof -
  let ?y = "x\<lparr>buf := (buf x)[head x := Null], head := (head x + 1) mod psize x, count := count x - 1,
    removed := removed x @ [(buf x ! head x, Fetched)]\<rparr>"
  have "ring_fetch x = Some (buf x ! head x, ?y)" using assms(1) by (simp add: ring_fetch_def ring_ok_def)
  with queue_drop_head [OF assms, of ?y Null] show ?thesis by (intro that [of "buf x ! head x" ?y]) simp_all
qed

lemma ring_discard_spec:
  assumes "ring_ok x" and "0 < count x"
  obtains p y where "ring_discard x = Some y" and "ring_ok y" and "queue x = p # queue y"
    and "psize y = psize x" and "count y = count x - 1" and "policy y = policy x" and "closed y = closed x"
    and "freed y = freed x @ (if p \<noteq> Null then [p] else [])" and "inserted y = inserted x"
    and "removed y = removed x @ [(p, Discarded)]"
proof -
  let ?p = "buf x ! head x"
  let ?y = "x\<lparr>freed := (if ?p \<noteq> Null then freed x @ [?p] else freed x), head := (head x + 1) mod psize x,
    count := count x - 1, removed := removed x @ [(?p, Discarded)]\<rparr>"
  have "ring_discard x = Some ?y" using assms(1) by (simp add: ring_discard_def ring_ok_def Let_def)
  with queue_drop_head [OF assms, of ?y Null] show ?thesis by (intro that [of ?y ?p]) simp_all
qed

interpretation ring: bounded_queue ring_ok queue psize ring_put ring_fetch
proof
  fix x p as
  assume ok: "ring_ok x"
  show "length (queue x) \<le> psize x" using ok by (simp add: ring_ok_def)
  show "\<exists>y. ring_put x p = Some y \<and> ring_ok y \<and> queue y = queue x @ [p] \<and> psize y = psize x"
    if "length (queue x) < psize x"
    using ring_put_spec [OF ok, of p] that by (metis length_queue)
  show "\<exists>y. ring_fetch x = Some (p, y) \<and> ring_ok y \<and> queue y = as \<and> psize y = psize x"
    if "queue x = p # as"
  proof -
    have "0 < count x" using that by (metis length_queue length_greater_0_conv list.distinct(1))
    with ring_fetch_spec [OF ok] that show ?thesis by (metis list.inject)
  qed
qed

text \<open>
  The ring of a pipeline made by \<^verbatim>\<open>make_pipeline\<close> is a bounded first-in first-out queue:
  it starts empty, any pointers up to its size can be stored, across the wrap-around of the
  indices, and come back in the order they were stored.
\<close>

theorem ring_fifo:
  assumes "0 < sz" and "pipeline_sizeof + 8 * sz < 2 ^ 64" and "grant (pipeline_sizeof + 8 * sz)"
    and "length ps + length qs \<le> sz"
  shows "\<exists>x x1 x2 x3 x4. make_pipeline grant sz pol = Some x \<and> queue x = [] \<and>
    enq_all ring_put x ps = Some x1 \<and> deq_all ring_fetch x1 (length ps) = Some (ps, x2) \<and>
    enq_all ring_put x2 qs = Some x3 \<and> deq_all ring_fetch x3 (length qs) = Some (qs, x4) \<and> queue x4 = []"
proof -
  have "sz_add pipeline_sizeof (sz_mul sz 8) = pipeline_sizeof + 8 * sz"
    using assms(2) by (simp add: size_simps mult.commute)
  then obtain x where x: "make_pipeline grant sz pol = Some x" "ring_ok x" "queue x = []" "psize x = sz"
    using assms(1,3) by (auto simp: make_pipeline_def Let_def ring_ok_def queue_def)
  obtain x1 where x1: "enq_all ring_put x ps = Some x1" "ring_ok x1" "queue x1 = ps" "psize x1 = sz"
    using ring.enq_all_items [OF x(2), of ps] x(3,4) assms(4) by auto
  obtain x2 where x2: "deq_all ring_fetch x1 (length ps) = Some (ps, x2)" "ring_ok x2" "queue x2 = []" "psize x2 = sz"
    using ring.deq_all_items [OF x1(2), of ps "[]"] x1(3,4) by auto
  from ring.fifo [OF x2(2,3), of qs] x2(4) assms(4) x x1(1) x2(1) show ?thesis by auto
qed

theorem ring_fifo_witness:
  "\<exists>x x1 x2. make_pipeline (\<lambda>_. True) 4 DROP = Some x \<and>
     enq_all ring_put x [Ptr 7 0, Ptr 8 0] = Some x1 \<and>
     deq_all ring_fetch x1 (length [Ptr 7 0, Ptr 8 0]) = Some ([Ptr 7 0, Ptr 8 0], x2)"
  using ring_fifo [of 4 "\<lambda>_. True" "[Ptr 7 0, Ptr 8 0]" "[Ptr 9 0]" DROP]
  by (simp add: pipeline_sizeof_def) blast

subsection \<open>Every interleaving keeps the order of the items\<close>

primrec out_state :: "('s, 'pc) outcome \<Rightarrow> 's" where
  "out_state (Leave x w q) = x"
| "out_state (Keep x w q) = x"
| "out_state (Block x c q) = x"

primrec out_pc :: "('s, 'pc) outcome \<Rightarrow> 'pc" where
  "out_pc (Leave x w q) = q"
| "out_pc (Keep x w q) = q"
| "out_pc (Block x c q) = q"

text \<open>
  A monitor with a property \<open>K\<close> of the shared object that every section keeps, and a
  property \<open>L\<close> that links where a thread is to the object and that no section of another
  thread destroys.
\<close>

locale monitor_data = monitor_lock locked sec client keeps
  for locked :: "'pc \<Rightarrow> bool" and sec :: "'pc \<Rightarrow> 's \<Rightarrow> ('s, 'pc) outcome option"
    and client :: "'pc \<Rightarrow> 'pc \<Rightarrow> bool" and keeps :: "'pc \<Rightarrow> bool" +
  fixes K :: "'s \<Rightarrow> bool" and L :: "'s \<Rightarrow> 'pc \<Rightarrow> bool"
  assumes sec_K: "K x \<Longrightarrow> L x p \<Longrightarrow> sec p x = Some out \<Longrightarrow> K (out_state out)"
    and sec_L: "K x \<Longrightarrow> L x p \<Longrightarrow> sec p x = Some out \<Longrightarrow> L (out_state out) (out_pc out)"
    and sec_stable: "K x \<Longrightarrow> L x p \<Longrightarrow> sec p x = Some out \<Longrightarrow> L x q \<Longrightarrow> L (out_state out) q"
    and client_L: "client p q \<Longrightarrow> L x p \<Longrightarrow> L x q"
begin

lemma woken_L:
  "woken w ts us \<Longrightarrow> \<forall>t \<in> set ts. L x (thread_pc t) \<Longrightarrow> \<forall>t \<in> set us. L x (thread_pc t)"
  by (metis woken_set thread_pc.simps(1,3))

lemma step_data:
  assumes "mstep locked sec client s t" and "K (shared s)" and "\<forall>u \<in> set (threads s). L (shared s) (thread_pc u)"
  shows "K (shared t) \<and> (\<forall>u \<in> set (threads t). L (shared t) (thread_pc u))"
  using assms(1)
proof cases
  case (leave i p x w q ts)
  have L: "L (shared s) p" using assms(3) nth_mem [OF leave(2)] leave(3) by (metis thread_pc.simps(1))
  have "\<forall>u \<in> set ((threads s)[i := At q]). L x (thread_pc u)"
    using assms(3) sec_L [OF assms(2) L leave(5)] sec_stable [OF assms(2) L leave(5)]
    by (auto dest!: set_update_cases)
  with woken_L [OF leave(6)] sec_K [OF assms(2) L leave(5)] leave(1) show ?thesis by simp
next
  case (keep i p x w q ts)
  have L: "L (shared s) p" using assms(3) nth_mem [OF keep(2)] keep(3) by (metis thread_pc.simps(1))
  have "\<forall>u \<in> set ((threads s)[i := At q]). L x (thread_pc u)"
    using assms(3) sec_L [OF assms(2) L keep(5)] sec_stable [OF assms(2) L keep(5)]
    by (auto dest!: set_update_cases)
  with woken_L [OF keep(6)] sec_K [OF assms(2) L keep(5)] keep(1) show ?thesis by simp
next
  case (block i p x c q)
  have L: "L (shared s) p" using assms(3) nth_mem [OF block(2)] block(3) by (metis thread_pc.simps(1))
  show ?thesis
    using assms(3) block(1) sec_K [OF assms(2) L block(5)] sec_L [OF assms(2) L block(5)]
      sec_stable [OF assms(2) L block(5)]
    by (auto dest!: set_update_cases)
next
  case (sleep i c q)
  then show ?thesis using assms(2,3) nth_mem [OF sleep(2)] by (auto dest!: set_update_cases)
next
  case (spurious i c q)
  then show ?thesis using assms(2,3) nth_mem [OF spurious(2)] by (auto dest!: set_update_cases)
next
  case (call i p q)
  then show ?thesis
    using assms(2,3) nth_mem [OF call(2)] client_L [OF call(4)] by (auto dest!: set_update_cases)
qed

lemma reach_data:
  assumes "(mstep locked sec client)\<^sup>*\<^sup>* s t" and "K (shared s)" and "\<forall>u \<in> set (threads s). L (shared s) (thread_pc u)"
  shows "K (shared t) \<and> (\<forall>u \<in> set (threads t). L (shared t) (thread_pc u))"
  using assms by (induction rule: rtranclp_induct) (auto dest: step_data)

end

definition discarded :: "(ptr \<times> fate) list \<Rightarrow> ptr list" where
  "discarded es = filter (\<lambda>p. p \<noteq> Null) (map fst (filter (\<lambda>e. snd e = Discarded) es))"

definition pipe_data :: "pipeline \<Rightarrow> bool" where
  "pipe_data x \<longleftrightarrow> ring_ok x \<and> inserted x = map fst (removed x) @ queue x \<and> freed x = discarded (removed x)"

definition pipe_local :: "pipeline \<Rightarrow> pipe_pc \<Rightarrow> bool" where
  "pipe_local x q \<longleftrightarrow> q \<noteq> Undefined \<and> (\<forall>p. q = Got p \<longrightarrow> p \<noteq> Null \<longrightarrow> (p, Fetched) \<in> set (removed x)) \<and>
     (q \<in> {Close_Input, Close_Output, Close_Drain, Close_Done} \<longrightarrow> closed x)"

text \<open>What a section may do to the object: it never forgets what left the ring, nor reopens.\<close>

definition grows :: "pipeline \<Rightarrow> pipeline \<Rightarrow> bool" where
  "grows x y \<longleftrightarrow> set (removed x) \<subseteq> set (removed y) \<and> (closed x \<longrightarrow> closed y)"

lemma pipe_local_grows: "pipe_local x q \<Longrightarrow> grows x y \<Longrightarrow> pipe_local y q"
  by (auto simp: pipe_local_def grows_def)

lemma discard_data:
  assumes "pipe_data x" and "0 < count x"
  obtains y where "ring_discard x = Some y" and "pipe_data y" and "grows x y" and "closed y = closed x"
    and "count y = count x - 1" and "policy y = policy x" and "psize y = psize x"
proof -
  have "ring_ok x" using assms(1) by (simp add: pipe_data_def)
  then obtain p y where y: "ring_discard x = Some y" "ring_ok y" "queue x = p # queue y" "psize y = psize x"
    "count y = count x - 1" "policy y = policy x" "closed y = closed x"
    "freed y = freed x @ (if p \<noteq> Null then [p] else [])" "inserted y = inserted x"
    "removed y = removed x @ [(p, Discarded)]"
    using ring_discard_spec [OF _ assms(2)] by metis
  then have "pipe_data y" "grows x y" using assms(1) by (auto simp: pipe_data_def discarded_def grows_def)
  with y that show ?thesis by blast
qed

lemma drain_data:
  "pipe_data x \<Longrightarrow> n \<le> count x \<Longrightarrow> \<exists>y. ring_drain x n = Some y \<and> pipe_data y \<and> grows x y \<and>
     closed y = closed x \<and> count y = count x - n \<and> policy y = policy x \<and> psize y = psize x"
proof (induction n arbitrary: x)
  case (Suc n)
  then obtain y where y: "ring_discard x = Some y" "pipe_data y" "grows x y" "closed y = closed x"
    "count y = count x - 1" "policy y = policy x" "psize y = psize x"
    using discard_data [OF Suc.prems(1)] by auto
  have "n \<le> count y" using Suc.prems(2) y(5) by simp
  with Suc.IH [of y] y(2) obtain z where "ring_drain y n = Some z" "pipe_data z" "grows y z"
    "closed z = closed y" "count z = count y - n" "policy z = policy y" "psize z = psize y" by auto
  with y show ?case by (auto simp: grows_def intro!: exI [of _ z])
qed (simp add: grows_def)

text \<open>One section: the data stays consistent and the thread ends at a defined point.\<close>

definition sec_good :: "pipeline \<Rightarrow> (pipeline, pipe_pc) outcome \<Rightarrow> bool" where
  "sec_good x out \<longleftrightarrow> pipe_data (out_state out) \<and> grows x (out_state out) \<and> pipe_local (out_state out) (out_pc out)"

lemma grows_refl: "grows x x"
  by (simp add: grows_def)

lemma put_good:
  assumes "pipe_data x"
  shows "sec_good x (put_pipeline v x)"
proof -
  have ok: "ring_ok x" using assms by (simp add: pipe_data_def)
  consider "closed x" | "\<not> closed x" "count x < psize x" | "\<not> closed x" "\<not> count x < psize x" "policy x = WAIT"
    | "\<not> closed x" "\<not> count x < psize x" "policy x \<noteq> WAIT" by blast
  then show ?thesis
  proof cases
    case 2
    then obtain y where "ring_put x v = Some y" "ring_ok y" "queue y = queue x @ [v]"
      "freed y = freed x" "inserted y = inserted x @ [v]" "removed y = removed x" "closed y = closed x"
      using ring_put_spec [OF ok, of v] by metis
    with 2 assms show ?thesis by (simp add: sec_good_def put_pipeline_def pipe_data_def grows_def pipe_local_def)
  next
    case 4
    then have "0 < count x" using ok by (simp add: ring_ok_def)
    then obtain y where "ring_discard x = Some y" "pipe_data y" "grows x y"
      using discard_data [OF assms] by metis
    with 4 show ?thesis by (simp add: sec_good_def put_pipeline_def pipe_local_def)
  qed (use assms in \<open>simp_all add: sec_good_def put_pipeline_def pipe_local_def grows_refl\<close>)
qed

lemma get_good:
  assumes "pipe_data x"
  shows "sec_good x (get_pipeline x)"
proof (cases "\<not> closed x \<and> 0 < count x")
  case True
  have "ring_ok x" using assms by (simp add: pipe_data_def)
  with True obtain q y where "ring_fetch x = Some (q, y)" "ring_ok y" "queue x = q # queue y" "freed y = freed x"
    "inserted y = inserted x" "removed y = removed x @ [(q, Fetched)]" "closed y = closed x"
    using ring_fetch_spec by metis
  with True assms show ?thesis
    by (auto simp: sec_good_def get_pipeline_def pipe_data_def grows_def pipe_local_def discarded_def)
next
  case False
  with assms show ?thesis by (auto simp: sec_good_def get_pipeline_def pipe_local_def grows_refl)
qed

lemma close_good:
  assumes "pipe_data x" and "close_pipeline p x = Some out" and "pipe_local x p"
  shows "sec_good x out"
proof -
  have "grows x (x\<lparr>closed := True\<rparr>)" "pipe_data (x\<lparr>closed := True\<rparr>)"
    using assms(1) by (auto simp: grows_def pipe_data_def ring_ok_def queue_def)
  moreover obtain y where "ring_drain x (count x) = Some y" "pipe_data y" "grows x y" "closed y = closed x"
    using drain_data [OF assms(1), of "count x"] by auto
  ultimately show ?thesis
    using assms by (cases p) (auto simp: sec_good_def close_flag_def close_drain_def pipe_local_def grows_refl)
qed

lemma pipe_sec_good:
  assumes "pipe_data x" and "pipe_sec p x = Some out" and "pipe_local x p"
  shows "sec_good x out"
proof -
  have "sec_good x (Leave x No_Wake (Is_Result b))" for b
    using assms(1) by (simp add: sec_good_def grows_refl pipe_local_def)
  moreover have "close_pipeline p x = Some out"
    if "\<forall>v. p \<noteq> Put v" "\<forall>v. p \<noteq> Put_Again v" "p \<noteq> Get" "p \<noteq> Is_Open"
    using that assms(2) by (cases p) auto
  ultimately show ?thesis
    using assms(2) put_good [OF assms(1)] get_good [OF assms(1)] close_good [OF assms(1) _ assms(3)] by fastforce
qed

interpretation pdata: monitor_data pipe_locked pipe_sec pipe_client pipe_keeps pipe_data pipe_local
proof
  fix x p out q
  assume "pipe_data x" "pipe_local x p" "pipe_sec p x = Some out"
  then have good: "sec_good x out" by (intro pipe_sec_good)
  then show "pipe_data (out_state out)" "pipe_local (out_state out) (out_pc out)" by (auto simp: sec_good_def)
  show "pipe_local (out_state out) q" if "pipe_local x q"
    using good that by (auto simp: sec_good_def intro: pipe_local_grows)
qed (auto simp: pipe_client_iff pipe_local_def)

lemma make_pipeline_data:
  assumes "0 < sz" and "pipeline_sizeof + 8 * sz < 2 ^ 64" and "make_pipeline grant sz pol = Some x"
  shows "pipe_data x"
proof -
  have "sz_add pipeline_sizeof (sz_mul sz 8) = pipeline_sizeof + 8 * sz"
    using assms(2) by (simp add: size_simps mult.commute)
  with assms(1,3) show ?thesis
    by (auto simp: make_pipeline_def Let_def pipe_data_def ring_ok_def queue_def discarded_def split: if_splits)
qed

text \<open>
  C1. The pipeline under any interleaving of any number of producers, consumers and closers,
  with either policy and a positive size: the indices stay inside the ring and no access is undefined; the
  sequence of pointers accepted by \<^verbatim>\<open>put_pipeline\<close> is the sequence that left the ring
  followed by what it holds, so nothing is lost, duplicated or reordered; exactly the
  discarded non-null pointers were handed to the callback, once each and in order; and a
  pointer that \<^verbatim>\<open>get_pipeline\<close> returned left the ring through a fetch.
\<close>

theorem pipeline_fifo:
  assumes "0 < sz" and "pipeline_sizeof + 8 * sz < 2 ^ 64" and "make_pipeline grant sz pol = Some x"
    and "\<forall>p \<in> set ps. p \<in> {Producing, Consuming, Closing}"
    and "(mstep pipe_locked pipe_sec pipe_client)\<^sup>*\<^sup>* (start x ps) s"
  shows "ring_ok (shared s) \<and> inserted (shared s) = map fst (removed (shared s)) @ queue (shared s) \<and>
    freed (shared s) = discarded (removed (shared s)) \<and>
    (\<forall>t \<in> set (threads s). thread_pc t \<noteq> Undefined) \<and>
    (\<forall>p. p \<noteq> Null \<longrightarrow> At (Got p) \<in> set (threads s) \<longrightarrow> (p, Fetched) \<in> set (removed (shared s)))"
proof -
  have "pipe_data (shared (start x ps))" using make_pipeline_data [OF assms(1-3)] by (simp add: start_def)
  moreover have "\<forall>t \<in> set (threads (start x ps)). pipe_local (shared (start x ps)) (thread_pc t)"
    using assms(4) by (auto simp: start_def pipe_local_def)
  ultimately have "pipe_data (shared s) \<and> (\<forall>t \<in> set (threads s). pipe_local (shared s) (thread_pc t))"
    by (rule pdata.reach_data [OF assms(5)])
  then show ?thesis by (fastforce simp: pipe_data_def pipe_local_def)
qed

text \<open>A run of one producer, for the theorem above.\<close>

definition pipe_init :: "size_t \<Rightarrow> pipeline" where
  "pipe_init sz = \<lparr>policy = WAIT, head = 0, tail = 0, count = 0, psize = sz, closed = False,
     buf = replicate sz Null, freed = [], inserted = [], removed = []\<rparr>"

lemma make_pipe_init:
  "pipeline_sizeof + 8 * sz < 2 ^ 64 \<Longrightarrow> make_pipeline (\<lambda>_. True) sz WAIT = Some (pipe_init sz)"
  by (simp add: make_pipeline_def pipe_init_def Let_def size_simps mult.commute)

lemmas pipe_run_simps = pipe_client.intros can_enter_def pipe_locked_def put_pipeline_def get_pipeline_def
  ring_put_def ring_fetch_def close_flag_def close_drain_def woken.no_wake

theorem pipeline_fifo_witness:
  "\<exists>s. (mstep pipe_locked pipe_sec pipe_client)\<^sup>*\<^sup>* (start (pipe_init 1) [Producing]) s \<and>
     inserted (shared s) = [Ptr 5 0] \<and> queue (shared s) = [Ptr 5 0] \<and>
     inserted (shared s) = map fst (removed (shared s)) @ queue (shared s)"
proof -
  let ?step = "mstep pipe_locked pipe_sec pipe_client"
  let ?x = "pipe_init 1" let ?p = "Ptr 5 0"
  let ?y = "?x\<lparr>buf := [?p], count := 1, inserted := [?p]\<rparr>"
  let ?t = "\<lparr>shared = ?y, owner = None, threads = [At (Put_Result True)]\<rparr>"
  have "?step\<^sup>*\<^sup>* (start ?x [Producing]) (start ?x [Producing])" by simp
  also have "?step \<dots> (start ?x [Put ?p])"
    using mstep.call [of 0 "start ?x [Producing]" Producing pipe_client "Put ?p"]
    by (simp add: start_def pipe_client_iff)
  also have "?step \<dots> ?t"
    using mstep.leave [of 0 "start ?x [Put ?p]" "Put ?p" pipe_locked pipe_sec _ "Signal cnd_output" "Put_Result True"
        "[At (Put_Result True)]" pipe_client] woken.signal_lost [of cnd_output "[At (Put_Result True)]"]
    by (simp add: start_def pipe_run_simps pipe_init_def)
  finally have r: "?step\<^sup>*\<^sup>* (start ?x [Producing]) ?t" .
  have "inserted (shared ?t) = map fst (removed (shared ?t)) @ queue (shared ?t)"
    using pipeline_fifo [OF _ _ make_pipe_init _ r] by (simp add: pipeline_sizeof_def)
  moreover have "inserted (shared ?t) = [?p]" "queue (shared ?t) = [?p]"
    by (simp_all add: queue_def pipe_init_def)
  ultimately show ?thesis using r by blast
qed

text \<open>
  C35. \<^verbatim>\<open>close_pipeline\<close> can leave a consumer asleep for ever: the flag is set and the conditions
  are signalled without the mutex, so a consumer that found the pipeline open and empty
  but has not yet gone to sleep misses the broadcast. One consumer and one closer reach a
  state where the pipeline is closed, the close has finished, and the consumer sleeps in
  \<^verbatim>\<open>get_pipeline\<close> with no thread left that could wake it.
\<close>

theorem close_pipeline_lost_wakeup:
  "\<exists>s. (mstep pipe_locked pipe_sec pipe_client)\<^sup>*\<^sup>* (start (pipe_init 1) [Consuming, Closing]) s \<and>
     closed (shared s) \<and> threads s = [Asleep cnd_output Get, At Close_Done] \<and>
     \<not> can_move pipe_locked pipe_sec s"
proof -
  let ?step = "mstep pipe_locked pipe_sec pipe_client"
  let ?st = "\<lambda>c own ts. \<lparr>shared = (pipe_init 1)\<lparr>closed := c\<rparr>, owner = own, threads = ts\<rparr>"
  note rules = pipe_run_simps pipe_init_def
  have "?step\<^sup>*\<^sup>* (start (pipe_init 1) [Consuming, Closing]) (?st False None [At Consuming, At Closing])"
    by (simp add: start_def pipe_init_def)
  also have "?step \<dots> (?st False None [At Get, At Closing])"
    using mstep.call [of 0 "?st False None [At Consuming, At Closing]" "Consuming" pipe_client "Get"]
    by (simp add: rules)
  also have "?step \<dots> (?st False (Some 0) [Want cnd_output Get, At Closing])"
    using mstep.block [of 0 "?st False None [At Get, At Closing]" "Get" pipe_locked pipe_sec _ cnd_output "Get" pipe_client]
    by (simp add: rules)
  also have "?step \<dots> (?st False (Some 0) [Want cnd_output Get, At Close_Flag])"
    using mstep.call [of 1 "?st False (Some 0) [Want cnd_output Get, At Closing]" "Closing" pipe_client "Close_Flag"]
    by (simp add: rules)
  also have "?step \<dots> (?st True (Some 0) [Want cnd_output Get, At Close_Input])"
    using mstep.leave [of 1 "?st False (Some 0) [Want cnd_output Get, At Close_Flag]" "Close_Flag" pipe_locked pipe_sec _ "No_Wake" "Close_Input" "[Want cnd_output Get, At Close_Input]" pipe_client]
    by (simp add: rules)
  also have "?step \<dots> (?st True (Some 0) [Want cnd_output Get, At Close_Output])"
    using mstep.leave [of 1 "?st True (Some 0) [Want cnd_output Get, At Close_Input]" "Close_Input" pipe_locked pipe_sec _ "Broadcast cnd_input" "Close_Output" "[Want cnd_output Get, At Close_Output]" pipe_client]
      woken.broadcast [of cnd_input "[Want cnd_output Get, At Close_Output]"]
    by (simp add: rules)
  also have "?step \<dots> (?st True (Some 0) [Want cnd_output Get, At Close_Drain])"
    using mstep.leave [of 1 "?st True (Some 0) [Want cnd_output Get, At Close_Output]" "Close_Output" pipe_locked pipe_sec _ "Broadcast cnd_output" "Close_Drain" "[Want cnd_output Get, At Close_Drain]" pipe_client]
      woken.broadcast [of cnd_output "[Want cnd_output Get, At Close_Drain]"]
    by (simp add: rules)
  also have "?step \<dots> (?st True None [Asleep cnd_output Get, At Close_Drain])"
    using mstep.sleep [of 0 "?st True (Some 0) [Want cnd_output Get, At Close_Drain]" cnd_output "Get" pipe_locked pipe_sec pipe_client]
    by (simp add: rules)
  also have "?step \<dots> (?st True None [Asleep cnd_output Get, At Close_Done])"
    using mstep.leave [of 1 "?st True None [Asleep cnd_output Get, At Close_Drain]" "Close_Drain" pipe_locked pipe_sec _ "No_Wake" "Close_Done" "[Asleep cnd_output Get, At Close_Done]" pipe_client]
    by (simp add: rules)
  finally show ?thesis
    by (intro exI conjI) (auto simp: can_move_def less_Suc_eq)
qed

text \<open>
  With two consumers an item can stay in the pipeline while a consumer sleeps: \<^verbatim>\<open>put_pipeline\<close>
  signals only when the ring was empty, so two puts in a row wake one of two sleeping
  consumers. Two consumers and a producer reach a state where the open pipeline holds an
  item, one consumer has returned with the other item, the producer has returned, and the
  second consumer sleeps with no thread left that could wake it.
\<close>

theorem put_pipeline_lost_wakeup:
  "\<exists>s. (mstep pipe_locked pipe_sec pipe_client)\<^sup>*\<^sup>* (start (pipe_init 4) [Consuming, Consuming, Producing]) s \<and>
     \<not> closed (shared s) \<and> queue (shared s) = [Ptr 6 0] \<and>
     threads s = [At (Got (Ptr 5 0)), Asleep cnd_output Get, At (Put_Result True)] \<and>
     \<not> can_move pipe_locked pipe_sec s"
proof -
  let ?step = "mstep pipe_locked pipe_sec pipe_client"
  let ?a = "Ptr 5 0" let ?b = "Ptr 6 0"
  let ?st = "\<lambda>h t n bs ins del own ts. \<lparr>shared = (pipe_init 4)\<lparr>head := h, tail := t, count := n, buf := bs,
      inserted := ins, removed := del\<rparr>, owner = own, threads = ts\<rparr>"
  note rules = pipe_run_simps pipe_init_def
  have "?step\<^sup>*\<^sup>* (start (pipe_init 4) [Consuming, Consuming, Producing])
      (?st 0 0 0 [Null, Null, Null, Null] [] [] None [At Consuming, At Consuming, At Producing])"
    by (simp add: start_def pipe_init_def numeral_eq_Suc)
  also have "?step \<dots> (?st 0 0 0 [Null, Null, Null, Null] [] [] None [At Get, At Consuming, At Producing])"
    using mstep.call [of 0 "?st 0 0 0 [Null, Null, Null, Null] [] [] None [At Consuming, At Consuming, At Producing]" "Consuming" pipe_client "Get"]
    by (simp add: rules)
  also have "?step \<dots> (?st 0 0 0 [Null, Null, Null, Null] [] [] (Some 0) [Want cnd_output Get, At Consuming, At Producing])"
    using mstep.block [of 0 "?st 0 0 0 [Null, Null, Null, Null] [] [] None [At Get, At Consuming, At Producing]" "Get" pipe_locked pipe_sec _ cnd_output "Get" pipe_client]
    by (simp add: rules)
  also have "?step \<dots> (?st 0 0 0 [Null, Null, Null, Null] [] [] None [Asleep cnd_output Get, At Consuming, At Producing])"
    using mstep.sleep [of 0 "?st 0 0 0 [Null, Null, Null, Null] [] [] (Some 0) [Want cnd_output Get, At Consuming, At Producing]" cnd_output "Get" pipe_locked pipe_sec pipe_client]
    by (simp add: rules)
  also have "?step \<dots> (?st 0 0 0 [Null, Null, Null, Null] [] [] None [Asleep cnd_output Get, At Get, At Producing])"
    using mstep.call [of 1 "?st 0 0 0 [Null, Null, Null, Null] [] [] None [Asleep cnd_output Get, At Consuming, At Producing]" "Consuming" pipe_client "Get"]
    by (simp add: rules)
  also have "?step \<dots> (?st 0 0 0 [Null, Null, Null, Null] [] [] (Some 1) [Asleep cnd_output Get, Want cnd_output Get, At Producing])"
    using mstep.block [of 1 "?st 0 0 0 [Null, Null, Null, Null] [] [] None [Asleep cnd_output Get, At Get, At Producing]" "Get" pipe_locked pipe_sec _ cnd_output "Get" pipe_client]
    by (simp add: rules)
  also have "?step \<dots> (?st 0 0 0 [Null, Null, Null, Null] [] [] None [Asleep cnd_output Get, Asleep cnd_output Get, At Producing])"
    using mstep.sleep [of 1 "?st 0 0 0 [Null, Null, Null, Null] [] [] (Some 1) [Asleep cnd_output Get, Want cnd_output Get, At Producing]" cnd_output "Get" pipe_locked pipe_sec pipe_client]
    by (simp add: rules)
  also have "?step \<dots> (?st 0 0 0 [Null, Null, Null, Null] [] [] None [Asleep cnd_output Get, Asleep cnd_output Get, At (Put ?a)])"
    using mstep.call [of 2 "?st 0 0 0 [Null, Null, Null, Null] [] [] None [Asleep cnd_output Get, Asleep cnd_output Get, At Producing]" "Producing" pipe_client "Put ?a"]
    by (simp add: rules)
  also have "?step \<dots> (?st 0 1 1 [?a, Null, Null, Null] [?a] [] None [At Get, Asleep cnd_output Get, At (Put_Result True)])"
    using mstep.leave [of 2 "?st 0 0 0 [Null, Null, Null, Null] [] [] None [Asleep cnd_output Get, Asleep cnd_output Get, At (Put ?a)]" "Put ?a" pipe_locked pipe_sec _ "Signal cnd_output" "Put_Result True" "[At Get, Asleep cnd_output Get, At (Put_Result True)]" pipe_client]
      woken.signal_one [of 0 "[Asleep cnd_output Get, Asleep cnd_output Get, At (Put_Result True)]" cnd_output Get]
    by (simp add: rules)
  also have "?step \<dots> (?st 0 1 1 [?a, Null, Null, Null] [?a] [] None [At Get, Asleep cnd_output Get, At Producing])"
    using mstep.call [of 2 "?st 0 1 1 [?a, Null, Null, Null] [?a] [] None [At Get, Asleep cnd_output Get, At (Put_Result True)]" "Put_Result True" pipe_client "Producing"]
    by (simp add: rules)
  also have "?step \<dots> (?st 0 1 1 [?a, Null, Null, Null] [?a] [] None [At Get, Asleep cnd_output Get, At (Put ?b)])"
    using mstep.call [of 2 "?st 0 1 1 [?a, Null, Null, Null] [?a] [] None [At Get, Asleep cnd_output Get, At Producing]" "Producing" pipe_client "Put ?b"]
    by (simp add: rules)
  also have "?step \<dots> (?st 0 (Suc (Suc 0)) (Suc (Suc 0)) [?a, ?b, Null, Null] [?a, ?b] [] None [At Get, Asleep cnd_output Get, At (Put_Result True)])"
    using mstep.leave [of 2 "?st 0 1 1 [?a, Null, Null, Null] [?a] [] None [At Get, Asleep cnd_output Get, At (Put ?b)]" "Put ?b" pipe_locked pipe_sec _ "No_Wake" "Put_Result True" "[At Get, Asleep cnd_output Get, At (Put_Result True)]" pipe_client]
    by (simp add: rules)
  also have "?step \<dots> (?st 1 (Suc (Suc 0)) 1 [Null, ?b, Null, Null] [?a, ?b] [(?a, Fetched)] None [At (Got ?a), Asleep cnd_output Get, At (Put_Result True)])"
    using mstep.leave [of 0 "?st 0 (Suc (Suc 0)) (Suc (Suc 0)) [?a, ?b, Null, Null] [?a, ?b] [] None [At Get, Asleep cnd_output Get, At (Put_Result True)]" "Get" pipe_locked pipe_sec _ "No_Wake" "Got ?a" "[At (Got ?a), Asleep cnd_output Get, At (Put_Result True)]" pipe_client]
    by (simp add: rules)
  finally show ?thesis
    by (intro exI conjI) (auto simp: can_move_def less_Suc_eq numeral_3_eq_3 queue_def pipe_init_def)
qed

subsection \<open>One producer and one consumer\<close>

definition spsc_inv :: "(pipeline, pipe_pc) mstate \<Rightarrow> bool" where
  "spsc_inv s \<longleftrightarrow> pipe_data (shared s) \<and> \<not> closed (shared s) \<and> policy (shared s) = WAIT \<and>
     (\<exists>a b. threads s = [a, b] \<and>
        (a = At Producing \<or> (\<exists>p. a = At (Put p)) \<or> (\<exists>r. a = At (Put_Result r)) \<or>
         (\<exists>p. (a = Want cnd_input (Put p) \<or> a = Asleep cnd_input (Put p)) \<and> count (shared s) = psize (shared s))) \<and>
        (b = At Consuming \<or> b = At Get \<or> (\<exists>p. b = At (Got p)) \<or> b = At Is_Open \<or> (\<exists>r. b = At (Is_Result r)) \<or>
         (b = Want cnd_output Get \<or> b = Asleep cnd_output Get) \<and> count (shared s) = 0))"

lemma spsc_put:
  assumes "spsc_inv s" and "threads s = [At (Put p), b]" and "\<And>c q. b \<noteq> Want c q"
    and "put_pipeline p (shared s) = Leave x w q" and "woken w [At q, b] us"
  shows "spsc_inv \<lparr>shared = x, owner = own, threads = us\<rparr>"
proof -
  let ?x = "shared s"
  have ok: "ring_ok ?x" "\<not> closed ?x" "policy ?x = WAIT" "pipe_data ?x"
    using assms(1) by (auto simp: spsc_inv_def pipe_data_def)
  have lt: "count ?x < psize ?x" using assms(4) ok by (auto simp: put_pipeline_def split: if_splits)
  have good: "sec_good ?x (put_pipeline p ?x)" by (rule put_good [OF ok(4)])
  obtain y where y: "ring_put ?x p = Some y" "policy y = policy ?x" "closed y = closed ?x" "count y = count ?x + 1"
    using ring_put_spec [OF ok(1) lt, of p] by metis
  with assms(4) ok lt have out: "x = y" "q = Put_Result True" "w = (if count ?x = 0 then Signal cnd_output else No_Wake)"
    by (auto simp: put_pipeline_def)
  have b: "b = At Consuming \<or> b = At Get \<or> (\<exists>p. b = At (Got p)) \<or> b = At Is_Open \<or> (\<exists>r. b = At (Is_Result r)) \<or>
      b = Asleep cnd_output Get \<and> count ?x = 0"
    using assms(1-3) by (auto simp: spsc_inv_def)
  have "us = [At q, b] \<and> b \<noteq> Asleep cnd_output Get \<or> us = [At q, At Get]"
    using assms(5) out b by cases (auto simp: less_Suc_eq nth_Cons' split: if_splits)
  with b out y good ok assms(4) show ?thesis by (auto simp: spsc_inv_def sec_good_def)
qed

lemma spsc_get:
  assumes "spsc_inv s" and "threads s = [a, At Get]" and "\<And>c q. a \<noteq> Want c q"
    and "get_pipeline (shared s) = Leave x w q" and "woken w [a, At q] us"
  shows "spsc_inv \<lparr>shared = x, owner = own, threads = us\<rparr>"
proof -
  let ?x = "shared s"
  have ok: "ring_ok ?x" "\<not> closed ?x" "policy ?x = WAIT" "pipe_data ?x"
    using assms(1) by (auto simp: spsc_inv_def pipe_data_def)
  have pos: "0 < count ?x" using assms(4) ok by (auto simp: get_pipeline_def split: if_splits)
  have good: "sec_good ?x (get_pipeline ?x)" by (rule get_good [OF ok(4)])
  obtain p y where y: "ring_fetch ?x = Some (p, y)" "policy y = policy ?x" "closed y = closed ?x"
    using ring_fetch_spec [OF ok(1) pos] by metis
  with assms(4) ok pos have out: "x = y" "q = Got p" "w = (if count ?x = psize ?x then Signal cnd_input else No_Wake)"
    by (auto simp: get_pipeline_def)
  have a: "a = At Producing \<or> (\<exists>p. a = At (Put p)) \<or> (\<exists>r. a = At (Put_Result r)) \<or>
      (\<exists>p. a = Asleep cnd_input (Put p) \<and> count ?x = psize ?x)"
    using assms(1-3) by (auto simp: spsc_inv_def)
  have "us = [a, At q] \<and> (\<forall>p. a \<noteq> Asleep cnd_input (Put p)) \<or> (\<exists>p. us = [At (Put p), At q])"
    using assms(5) out a by cases (auto simp: less_Suc_eq nth_Cons' split: if_splits)
  with a out y good ok assms(4) show ?thesis by (auto simp: spsc_inv_def sec_good_def)
qed


lemma spsc_inv_step:
  assumes "lock_inv pipe_keeps s" and "spsc_inv s" and "mstep pipe_locked pipe_sec pipe_client s t"
  shows "spsc_inv t"
proof -
  let ?x = "shared s"
  have ok: "\<not> closed ?x" "policy ?x = WAIT" "pipe_data ?x" using assms(2) by (auto simp: spsc_inv_def)
  from assms(2) obtain a b where ts: "threads s = [a, b]" by (auto simp: spsc_inv_def)
  from assms(3) show ?thesis
  proof cases
    case (leave i p x w q us)
    have want: "a \<noteq> Want c r" "b \<noteq> Want c r" if "pipe_locked p" for c r
      using pipe.owner_excludes_want [OF assms(1) leave(2-4) that, of c r] ts by auto
    consider (put) v where "i = 0" "p = Put v" | (get) "i = 1" "p = Get" | (check) "i = 1" "p = Is_Open"
      using assms(2) leave(2,3,5) ts by (auto simp: spsc_inv_def less_Suc_eq)
    then show ?thesis
    proof cases
      case put
      then have lk: "pipe_locked p" by (simp add: pipe_locked_def)
      show ?thesis
        unfolding leave(1) by (rule spsc_put [OF assms(2) _ want(2) [OF lk], of v])
          (use leave(3,5,6) ts put in auto)
    next
      case get
      then have lk: "pipe_locked p" by (simp add: pipe_locked_def)
      show ?thesis
        unfolding leave(1) by (rule spsc_get [OF assms(2) _ want(1) [OF lk]])
          (use leave(3,5,6) ts get in auto)
    next
      case check
      then have "x = ?x" "us = [a, At q]" "\<exists>r. q = Is_Result r"
        using leave ts by (auto elim: woken.cases)
      with assms(2) ts leave(1) show ?thesis by (auto simp: spsc_inv_def)
    qed
  next
    case (keep i p x w q us)
    then show ?thesis
      using assms(2) ok ts by (auto simp: spsc_inv_def less_Suc_eq put_pipeline_def get_pipeline_def
          split: if_splits option.splits prod.splits)
  next
    case (block i p x c q)
    consider (put) v where "i = 0" "p = Put v" | (get) "i = 1" "p = Get"
      using assms(2) block(2,3,5) ts by (auto simp: spsc_inv_def less_Suc_eq)
    then show ?thesis
    proof cases
      case put
      then have "x = ?x" "c = cnd_input" "q = Put v" "\<not> count ?x < psize ?x"
        using block(5) ok by (auto simp: put_pipeline_def split: if_splits option.splits)
      moreover have "count ?x \<le> psize ?x" using ok(3) by (auto simp: pipe_data_def ring_ok_def)
      ultimately show ?thesis using assms(2) ts block(1) put by (auto simp: spsc_inv_def)
    next
      case get
      then have "x = ?x" "c = cnd_output" "q = Get" "count ?x = 0"
        using block(5) ok by (auto simp: get_pipeline_def split: if_splits option.splits prod.splits)
      then show ?thesis using assms(2) ts block(1) get by (auto simp: spsc_inv_def)
    qed
  next
    case (sleep i c q)
    then show ?thesis using assms(2) ts by (auto simp: spsc_inv_def less_Suc_eq)
  next
    case (spurious i c q)
    then show ?thesis using assms(2) ts by (auto simp: spsc_inv_def less_Suc_eq)
  next
    case (call i p q)
    then show ?thesis using assms(2) ts by (auto simp: spsc_inv_def less_Suc_eq pipe_client_iff)
  qed
qed

text \<open>
  C27. With one producer and one consumer and the policy \<^verbatim>\<open>WAIT\<close> the edge-triggered signals are
  enough: in every reachable state a blocked consumer means an empty ring and a blocked
  producer a full one, so no item is stranded, and the two are never blocked together.
\<close>

theorem pipeline_spsc_progress:
  assumes "0 < sz" and "pipeline_sizeof + 8 * sz < 2 ^ 64"
    and "(mstep pipe_locked pipe_sec pipe_client)\<^sup>*\<^sup>* (start (pipe_init sz) [Producing, Consuming]) s"
  shows "\<exists>a b. threads s = [a, b] \<and> (blocked b \<longrightarrow> queue (shared s) = []) \<and>
    (blocked a \<longrightarrow> length (queue (shared s)) = psize (shared s)) \<and> \<not> (blocked a \<and> blocked b)"
proof -
  have l: "lock_inv pipe_keeps (start (pipe_init sz) [Producing, Consuming])"
    by (rule start_lock_inv) (simp add: pipe_keeps_def)
  have "pipe_data (pipe_init sz)" by (rule make_pipeline_data [OF assms(1,2) make_pipe_init [OF assms(2)]])
  then have i: "spsc_inv (start (pipe_init sz) [Producing, Consuming])"
    by (simp add: spsc_inv_def start_def pipe_init_def)
  have inv: "spsc_inv s"
    by (rule pipe.reach_invariant [where J = spsc_inv, OF assms(3) l i]) (rule spsc_inv_step)
  then have "0 < psize (shared s)" by (auto simp: spsc_inv_def pipe_data_def ring_ok_def)
  with inv show ?thesis by (auto simp: spsc_inv_def queue_def)
qed

theorem pipeline_spsc_progress_witness:
  "\<exists>a b. threads (start (pipe_init 4) [Producing, Consuming]) = [a, b] \<and> \<not> (blocked a \<and> blocked b)"
  using pipeline_spsc_progress [of 4 "start (pipe_init 4) [Producing, Consuming]"]
  by (auto simp: pipeline_sizeof_def)

lemma ring_drain_freed:
  "ring_ok x \<Longrightarrow> n \<le> count x \<Longrightarrow> \<exists>y. ring_drain x n = Some y \<and> ring_ok y \<and> queue y = drop n (queue x) \<and>
     freed y = freed x @ filter (\<lambda>p. p \<noteq> Null) (take n (queue x)) \<and> closed y = closed x \<and>
     inserted y = inserted x"
proof (induction n arbitrary: x)
  case (Suc n)
  then obtain p y where y: "ring_discard x = Some y" "ring_ok y" "queue x = p # queue y" "count y = count x - 1"
    "closed y = closed x" "freed y = freed x @ (if p \<noteq> Null then [p] else [])" "inserted y = inserted x"
    using ring_discard_spec [OF Suc.prems(1)] Suc.prems(2)
    by (metis Suc_le_eq gr0I le_zero_eq nat.distinct(1))
  have "n \<le> count y" using Suc.prems(2) y(4) by simp
  with Suc.IH [OF y(2)] y show ?case by auto
qed simp

text \<open>
  \<^verbatim>\<open>free_pipeline\<close> on an open pipeline with no other user empties it: every pointer still in
  the ring that is not null goes to the callback, in order, and the pipeline is closed; on a closed
  or null pipeline it frees nothing.
\<close>

theorem free_pipeline_drains:
  assumes "ring_ok x"
  shows "(\<not> closed x \<longrightarrow> (\<exists>y. free_pipeline (Some x) = Some (Some y) \<and> queue y = [] \<and> closed y \<and>
      freed y = freed x @ filter (\<lambda>p. p \<noteq> Null) (queue x))) \<and>
    (closed x \<longrightarrow> free_pipeline (Some x) = Some (Some x)) \<and> free_pipeline None = Some None"
proof -
  have "ring_ok (x\<lparr>closed := True\<rparr>)" "queue (x\<lparr>closed := True\<rparr>) = queue x"
    using assms by (simp_all add: ring_ok_def queue_def)
  with ring_drain_freed [of "x\<lparr>closed := True\<rparr>" "count x"] show ?thesis
    by (auto simp: free_pipeline_def)
qed

theorem free_pipeline_drains_witness:
  "\<exists>y. free_pipeline (Some ((pipe_init 2)\<lparr>buf := [Ptr 5 0, Null], count := 1, tail := 1\<rparr>)) = Some (Some y) \<and>
     queue y = [] \<and> freed y = [Ptr 5 0]"
  using free_pipeline_drains [of "(pipe_init 2)\<lparr>buf := [Ptr 5 0, Null], count := 1, tail := 1\<rparr>"]
  by (auto simp: ring_ok_def pipe_init_def queue_def)

end
