(* ===== verification/Sync.thy ===== *)
theory Sync
  imports Cpr_Prelude "HOL-Library.Signed_Division"
begin

text \<open>
  \<^verbatim>\<open>src/sync.c\<close> and \<^verbatim>\<open>src/sync.h\<close>: deadlines. A \<^verbatim>\<open>struct timespec\<close> is a record of two
  signed 64-bit numbers kept as \<^typ>\<open>int\<close> with the overflow check written out: a signed
  overflow is undefined behaviour, hence \<^const>\<open>None\<close>. Division and remainder are those of C,
  which truncate towards zero. The clocks belong to the system: their readings are arguments,
  \<^const>\<open>None\<close> when \<^verbatim>\<open>clock_gettime\<close> fails. A pointer argument is \<^const>\<open>None\<close> when null, and the
  object behind it is returned.
\<close>

record timespec =
  tv_sec :: int
  tv_nsec :: int

record timeval =
  tvl_sec :: int
  tv_usec :: int

text \<open>The value of a signed 64-bit expression, undefined outside its range.\<close>

definition s64 :: "int \<Rightarrow> int option" where
  "s64 x = (if - (2 ^ 63) \<le> x \<and> x < 2 ^ 63 then Some x else None)"

lemma s64_in_range [simp]: "- (2 ^ 63) \<le> x \<Longrightarrow> x < 2 ^ 63 \<Longrightarrow> s64 x = Some x"
  by (simp add: s64_def)

definition cpr_adjust :: "timespec option \<Rightarrow> int \<Rightarrow> timespec option option" where
  "cpr_adjust ts ms = (case ts of None \<Rightarrow> Some None | Some t \<Rightarrow> do {
     sec \<leftarrow> s64 (tv_sec t + ms sdiv 1000);
     add \<leftarrow> s64 ((ms smod 1000) * 1000000);
     nsec \<leftarrow> s64 (tv_nsec t + add);
     if nsec \<ge> 1000000000 then do {
       sec \<leftarrow> s64 (sec + 1);
       nsec \<leftarrow> s64 (nsec - 1000000000);
       Some (Some \<lparr>tv_sec = sec, tv_nsec = nsec\<rparr>) }
     else if nsec < 0 then do {
       sec \<leftarrow> s64 (sec - 1);
       nsec \<leftarrow> s64 (nsec + 1000000000);
       Some (Some \<lparr>tv_sec = sec, tv_nsec = nsec\<rparr>) }
     else Some (Some \<lparr>tv_sec = sec, tv_nsec = nsec\<rparr>) })"

text \<open>The POSIX branch; the result is the returned flag and the object behind \<open>ts\<close>.\<close>

definition cpr_deadline ::
  "timespec option \<Rightarrow> timespec option \<Rightarrow> int \<Rightarrow> (bool \<times> timespec option) option" where
  "cpr_deadline clock ts ms = (case ts of None \<Rightarrow> Some (False, None)
     | Some t \<Rightarrow> (case clock of None \<Rightarrow> Some (False, ts)
        | Some now \<Rightarrow> do { t \<leftarrow> cpr_adjust (Some now) ms; Some (True, t) }))"

text \<open>
  \<^verbatim>\<open>clock_nanosleep\<close> until an absolute time, as the error code it returns for that time.
\<close>

definition cpr_until :: "(timespec \<Rightarrow> int) \<Rightarrow> timespec \<Rightarrow> bool" where
  "cpr_until nanosleep ts \<longleftrightarrow> nanosleep ts = 0"

definition cpr_expires ::
  "timespec option \<Rightarrow> timespec option \<Rightarrow> timeval option \<Rightarrow> (int \<times> timeval option) option" where
  "cpr_expires clock deadline tv = (
     let tv = (case tv of None \<Rightarrow> None | Some _ \<Rightarrow> Some \<lparr>tvl_sec = 0, tv_usec = 0\<rparr>) in
     (case deadline of None \<Rightarrow> Some (0, tv) | Some d \<Rightarrow> do {
        (ok, current) \<leftarrow> cpr_deadline clock (Some \<lparr>tv_sec = 0, tv_nsec = 0\<rparr>) 0;
        (case (ok, current) of (True, Some now) \<Rightarrow> do {
           sec \<leftarrow> s64 (tv_sec d - tv_sec now);
           nsec \<leftarrow> s64 (tv_nsec d - tv_nsec now);
           (sec, nsec) \<leftarrow> (if nsec < 0 then do {
               sec \<leftarrow> s64 (sec - 1); nsec \<leftarrow> s64 (nsec + 1000000000); Some (sec, nsec) }
             else Some (sec, nsec));
           if sec < 0 \<or> sec = 0 \<and> nsec \<le> 0 then Some (0, tv)
           else do {
             ms \<leftarrow> s64 (sec * 1000);
             ms \<leftarrow> s64 (ms + nsec sdiv 1000000);
             Some (ms, case tv of None \<Rightarrow> None
               | Some _ \<Rightarrow> Some \<lparr>tvl_sec = sec, tv_usec = nsec sdiv 1000\<rparr>) } }
         | _ \<Rightarrow> Some (0, tv)) }))"

text \<open>
  \<open>real\<close> is what the unchecked \<^verbatim>\<open>clock_gettime(CLOCK_REALTIME, ts)\<close> leaves in \<open>ts\<close>.
\<close>

definition cpr_realtime :: "timespec \<Rightarrow> timespec option \<Rightarrow> timespec option \<Rightarrow>
    (bool \<times> timespec option) option" where
  "cpr_realtime real clock deadline = do {
     (ms, _) \<leftarrow> cpr_expires clock deadline None;
     if ms = 0 then Some (False, Some real)
     else do { t \<leftarrow> cpr_adjust (Some real) ms; Some (True, t) } }"

text \<open>
  The Windows branch of \<^verbatim>\<open>cpr_deadline\<close>: frequency and value of the performance counter are
  \<^const>\<open>None\<close> when the query fails.
\<close>

definition cpr_deadline_win32 :: "(int \<times> int) option \<Rightarrow> timespec option \<Rightarrow> int \<Rightarrow>
    (bool \<times> timespec option) option" where
  "cpr_deadline_win32 counter ts ms = (case ts of None \<Rightarrow> Some (False, None)
     | Some t \<Rightarrow> (case counter of None \<Rightarrow> Some (False, ts)
        | Some (freq, ticks) \<Rightarrow> if freq = 0 then None else do {
            sec \<leftarrow> s64 (ticks sdiv freq);
            scaled \<leftarrow> s64 ((ticks smod freq) * 1000000000);
            nsec \<leftarrow> s64 (scaled sdiv freq);
            nsec \<leftarrow> s64 (((nsec + 5000) sdiv 10000) * 10000);
            nsec \<leftarrow> s64 (nsec + (ms smod 1000) * 1000000);
            sec \<leftarrow> s64 (sec + ms sdiv 1000);
            (sec, nsec) \<leftarrow> (if nsec \<ge> 1000000000 then do {
                sec \<leftarrow> s64 (sec + 1); nsec \<leftarrow> s64 (nsec - 1000000000); Some (sec, nsec) }
              else Some (sec, nsec));
            t \<leftarrow> cpr_adjust (Some \<lparr>tv_sec = sec, tv_nsec = nsec\<rparr>) ms;
            Some (True, t) }))"

subsection \<open>Instants\<close>

text \<open>The instant a time denotes, in nanoseconds, and the times the clock delivers.\<close>

definition nanos :: "timespec \<Rightarrow> int" where
  "nanos t = tv_sec t * 1000000000 + tv_nsec t"

definition normal :: "timespec \<Rightarrow> bool" where
  "normal t \<longleftrightarrow> 0 \<le> tv_nsec t \<and> tv_nsec t < 1000000000"

definition sane :: "timespec \<Rightarrow> bool" where
  "sane t \<longleftrightarrow> normal t \<and> \<bar>tv_sec t\<bar> < 2 ^ 51"

lemma sdiv_1000: "ms sdiv 1000 = (if 0 \<le> ms then ms div 1000 else - (- ms div 1000))" for ms :: int
  by (auto simp: signed_divide_int_def sgn_if)

lemma trunc_1000:
  fixes ms :: int
  shows "ms sdiv 1000 * 1000 + ms smod 1000 = ms" and "\<bar>ms smod 1000\<bar> < 1000"
    and "\<bar>ms sdiv 1000\<bar> \<le> \<bar>ms\<bar>"
proof -
  have mod: "ms smod 1000 = (if 0 \<le> ms then ms mod 1000 else - (- ms mod 1000))"
    by (auto simp: signed_modulo_int_def sgn_if)
  have "ms div 1000 * 1000 + ms mod 1000 = ms" and "- ms div 1000 * 1000 + - ms mod 1000 = - ms"
    by (rule div_mult_mod_eq)+
  then show "ms sdiv 1000 * 1000 + ms smod 1000 = ms"
    unfolding mod sdiv_1000 by (cases "0 \<le> ms"; simp only: if_True if_False)
  show "\<bar>ms smod 1000\<bar> < 1000"
    using pos_mod_bound [of 1000 ms] pos_mod_bound [of 1000 "- ms"] pos_mod_sign [of 1000 ms]
      pos_mod_sign [of 1000 "- ms"] unfolding mod by simp
  show "\<bar>ms sdiv 1000\<bar> \<le> \<bar>ms\<bar>" unfolding sdiv_1000 by (cases "0 \<le> ms"; simp; linarith?)
qed

lemma sdiv_nonneg: "0 \<le> a \<Longrightarrow> 0 \<le> b \<Longrightarrow> a sdiv b = a div (b :: int)"
  by (auto simp: signed_divide_int_def sgn_if)

lemma nanos_less_iff:
  "normal s \<Longrightarrow> normal t \<Longrightarrow> nanos s < nanos t \<longleftrightarrow>
     tv_sec s < tv_sec t \<or> tv_sec s = tv_sec t \<and> tv_nsec s < tv_nsec t"
  unfolding nanos_def normal_def by linarith

text \<open>Adjusting moves the instant by exactly the given milliseconds and keeps the form.\<close>

lemma cpr_adjust_nanos:
  assumes "normal t" and "\<bar>tv_sec t\<bar> + \<bar>ms\<bar> < 2 ^ 63 - 1"
  obtains t' where "cpr_adjust (Some t) ms = Some (Some t')" and "normal t'"
    and "nanos t' = nanos t + ms * 1000000" and "\<bar>tv_sec t' - tv_sec t\<bar> \<le> \<bar>ms\<bar> + 1"
proof -
  define q r where "q = ms sdiv 1000" and "r = ms smod 1000"
  have q: "ms = q * 1000 + r" "\<bar>r\<bar> < 1000" "\<bar>q\<bar> \<le> \<bar>ms\<bar>" using trunc_1000 [of ms] by (auto simp: q_def r_def)
  have n: "0 \<le> tv_nsec t" "tv_nsec t < 1000000000" using assms(1) by (auto simp: normal_def)
  let ?s = "tv_sec t + q" and ?n = "tv_nsec t + r * 1000000"
  define t' where "t' = (if ?n \<ge> 1000000000 then \<lparr>tv_sec = ?s + 1, tv_nsec = ?n - 1000000000\<rparr>
     else if ?n < 0 then \<lparr>tv_sec = ?s - 1, tv_nsec = ?n + 1000000000\<rparr> else \<lparr>tv_sec = ?s, tv_nsec = ?n\<rparr>)"
  have "\<bar>?s\<bar> + 1 < 2 ^ 63" using assms(2) q(3) by simp
  moreover have "\<bar>?n\<bar> + 1000000000 < 2 ^ 63" using q(2) n by (simp add: abs_less_iff)
  moreover have "\<bar>r * 1000000\<bar> < 2 ^ 63" using q(2) by simp
  ultimately have "cpr_adjust (Some t) ms = Some (Some t')"
    by (auto simp: cpr_adjust_def q_def [symmetric] r_def [symmetric] t'_def s64_def)
  moreover have "normal t'" "nanos t' = nanos t + ms * 1000000" "\<bar>tv_sec t' - tv_sec t\<bar> \<le> \<bar>ms\<bar> + 1"
    using n q by (auto simp: t'_def normal_def nanos_def)
  ultimately show ?thesis by (rule that)
qed

text \<open>What is left until a deadline, in nanoseconds, and as the code reports it.\<close>

definition left_ns :: "timespec \<Rightarrow> timespec \<Rightarrow> int" where
  "left_ns d now = max 0 (nanos d - nanos now)"

definition left_tv :: "timespec \<Rightarrow> timespec \<Rightarrow> timeval" where
  "left_tv d now = \<lparr>tvl_sec = left_ns d now div 1000000000,
     tv_usec = left_ns d now mod 1000000000 div 1000\<rparr>"

lemma cpr_deadline_0: "sane now \<Longrightarrow> cpr_deadline (Some now) (Some t) 0 = Some (True, Some now)"
  by (auto simp: cpr_deadline_def cpr_adjust_def s64_def sane_def normal_def)

lemma sec_nsec_of_nanos:
  assumes "0 \<le> n" and "n < (1000000000 :: int)" and "x = s * 1000000000 + n"
  shows "x div 1000000000 = s" and "x mod 1000000000 = n" and "x div 1000000 = s * 1000 + n div 1000000"
proof -
  have "x div 1000000 = (s * 1000 * 1000000 + n) div 1000000" using assms(3) by simp
  then show "x div 1000000 = s * 1000 + n div 1000000" by (simp only: div_mult_self3)
qed (use assms in auto)

lemma cpr_expires_left:
  assumes "normal d" and "\<bar>tv_sec d\<bar> \<le> 2 ^ 52 + 1" and "sane now"
  shows "cpr_expires (Some now) (Some d) tv = Some (left_ns d now div 1000000,
     case tv of None \<Rightarrow> None | Some _ \<Rightarrow> Some (left_tv d now))"
proof -
  let ?s = "tv_sec d - tv_sec now" and ?n = "tv_nsec d - tv_nsec now"
  define s n where "s = (if ?n < 0 then ?s - 1 else ?s)" and "n = (if ?n < 0 then ?n + 1000000000 else ?n)"
  have b: "0 \<le> tv_nsec d" "tv_nsec d < 1000000000" "0 \<le> tv_nsec now" "tv_nsec now < 1000000000"
    "\<bar>tv_sec now\<bar> < 2 ^ 51"
    using assms by (auto simp: normal_def sane_def)
  have n: "0 \<le> n" "n < 1000000000" and x: "nanos d - nanos now = s * 1000000000 + n"
    using b by (auto simp: s_def n_def nanos_def)
  have range: "\<bar>?s\<bar> < 3 * 2 ^ 51 + 2" "\<bar>s\<bar> < 3 * 2 ^ 51 + 3" "\<bar>?n\<bar> < 1000000000" "n div 1000000 < 1000"
    "0 \<le> n div 1000000"
    using b assms(2) n by (auto simp: s_def)
  note deadline0 = cpr_deadline_0 [OF assms(3)]
  show ?thesis
  proof (cases "s < 0 \<or> s = 0 \<and> n \<le> 0")
    case True
    then have "left_ns d now = 0" using n x by (auto simp: left_ns_def)
    with True range show ?thesis
      by (auto simp: cpr_expires_def deadline0 s64_def s_def n_def left_tv_def split: if_splits option.splits)
  next
    case False
    then have l: "left_ns d now = s * 1000000000 + n" using n x by (auto simp: left_ns_def)
    note parts = sec_nsec_of_nanos [OF n l]
    show ?thesis using False range n
      by (auto simp: cpr_expires_def deadline0 s64_def s_def n_def left_tv_def parts sdiv_nonneg
          split: if_splits option.splits)
  qed
qed

lemma cpr_realtime_left:
  assumes "normal d" and "\<bar>tv_sec d\<bar> \<le> 2 ^ 52 + 1" and "sane now" and "sane real"
  shows "if left_ns d now < 1000000 then cpr_realtime real (Some now) (Some d) = Some (False, Some real)
    else \<exists>t. cpr_realtime real (Some now) (Some d) = Some (True, Some t) \<and> normal t \<and>
      nanos t = nanos real + left_ns d now div 1000000 * 1000000"
proof -
  have real: "normal real" "\<bar>tv_sec real\<bar> < 2 ^ 51" using assms(4) by (auto simp: sane_def)
  have "0 \<le> left_ns d now div 1000000" by (simp add: left_ns_def)
  moreover have "left_ns d now < 7000000000000000000 * 1000000"
    using assms(1-3) by (auto simp: left_ns_def nanos_def normal_def sane_def max_def)
  then have "left_ns d now div 1000000 < 7000000000000000000" by simp
  ultimately obtain t where "cpr_adjust (Some real) (left_ns d now div 1000000) = Some (Some t)" "normal t"
    "nanos t = nanos real + left_ns d now div 1000000 * 1000000"
    using cpr_adjust_nanos [OF real(1), of "left_ns d now div 1000000"] real(2) by auto
  moreover have "left_ns d now < 1000000 \<longleftrightarrow> left_ns d now div 1000000 = 0"
    by (auto simp: left_ns_def)
  ultimately show ?thesis
    using assms(1-3) by (auto simp: cpr_realtime_def cpr_expires_left)
qed

text \<open>
  C29. A deadline denotes the clock reading plus exactly the requested milliseconds, negative
  ones too, in normal form. Asking later how much of it is left gives the difference of the
  two instants in whole milliseconds and as seconds and microseconds, rounded down, and zero
  once it has passed; no signed overflow occurs. Translated to the real-time clock the
  deadline is never late and less than a millisecond early, and one less than a millisecond
  away is reported as passed.
\<close>

theorem deadline_expires:
  assumes "sane now" and "\<bar>ms\<bar> < 2 ^ 51" and "sane later" and "sane real"
  shows "\<exists>d. cpr_deadline (Some now) (Some t) ms = Some (True, Some d) \<and> normal d \<and>
     nanos d = nanos now + ms * 1000000 \<and>
     cpr_expires (Some later) (Some d) (Some tv) =
       Some (left_ns d later div 1000000, Some (left_tv d later)) \<and>
     (if left_ns d later < 1000000 then cpr_realtime real (Some later) (Some d) = Some (False, Some real)
      else \<exists>r. cpr_realtime real (Some later) (Some d) = Some (True, Some r) \<and> normal r \<and>
        nanos r = nanos real + left_ns d later div 1000000 * 1000000)"
proof -
  have now: "normal now" "\<bar>tv_sec now\<bar> < 2 ^ 51" using assms(1) by (auto simp: sane_def)
  then obtain d where d: "cpr_adjust (Some now) ms = Some (Some d)" "normal d"
    "nanos d = nanos now + ms * 1000000" "\<bar>tv_sec d - tv_sec now\<bar> \<le> \<bar>ms\<bar> + 1"
    using cpr_adjust_nanos [of now ms] assms(2) by auto
  then have "\<bar>tv_sec d\<bar> \<le> 2 ^ 52 + 1" using now(2) assms(2) by simp
  with d assms(3,4) show ?thesis
    by (intro exI [of _ d]) (simp add: cpr_deadline_def cpr_expires_left cpr_realtime_left)
qed

theorem deadline_expires_witness:
  "\<exists>d. cpr_deadline (Some \<lparr>tv_sec = 7, tv_nsec = 900000000\<rparr>) (Some \<lparr>tv_sec = 0, tv_nsec = 0\<rparr>) 1500 =
       Some (True, Some d) \<and> nanos d = 9400000000 \<and>
     cpr_expires (Some \<lparr>tv_sec = 8, tv_nsec = 5000\<rparr>) (Some d) (Some \<lparr>tvl_sec = 0, tv_usec = 0\<rparr>) =
       Some (1399, Some \<lparr>tvl_sec = 1, tv_usec = 399995\<rparr>)"
proof -
  let ?now = "\<lparr>tv_sec = 7, tv_nsec = 900000000\<rparr>" and ?later = "\<lparr>tv_sec = 8, tv_nsec = 5000\<rparr>"
  have "sane ?now" "sane ?later" by (simp_all add: sane_def normal_def)
  then obtain d where d: "cpr_deadline (Some ?now) (Some \<lparr>tv_sec = 0, tv_nsec = 0\<rparr>) 1500 = Some (True, Some d)"
    "nanos d = nanos ?now + 1500 * 1000000"
    "cpr_expires (Some ?later) (Some d) (Some \<lparr>tvl_sec = 0, tv_usec = 0\<rparr>) =
       Some (left_ns d ?later div 1000000, Some (left_tv d ?later))"
    using deadline_expires [of ?now 1500 ?later ?later "\<lparr>tv_sec = 0, tv_nsec = 0\<rparr>" "\<lparr>tvl_sec = 0, tv_usec = 0\<rparr>"]
    by auto
  have "nanos d = 9400000000" using d(2) by (simp add: nanos_def)
  moreover from this have "left_ns d ?later = 1399995000" by (simp add: left_ns_def nanos_def)
  ultimately show ?thesis using d(1,3) by (intro exI [of _ d]) (simp add: left_tv_def)
qed

text \<open>The Windows branch, up to its final call: a normal time at the given distance.\<close>

lemma round_1e9:
  assumes "0 \<le> x" and "x < (1000000000 :: int)"
  shows "0 \<le> (x + 5000) div 10000 * 10000" and "(x + 5000) div 10000 * 10000 \<le> 1000000000"
  using assms by auto

lemma cpr_deadline_win32_adjust:
  assumes f: "0 < freq" "freq < 2 ^ 33" and "0 \<le> ticks" "ticks < 2 ^ 51" and "0 \<le> ms" "ms < 2 ^ 51"
  defines "s0 \<equiv> ticks div freq" and "n0 \<equiv> (ticks mod freq * 1000000000 div freq + 5000) div 10000 * 10000"
  obtains d where "cpr_deadline_win32 (Some (freq, ticks)) (Some t) ms = Some (True, Some d)"
    and "nanos d = s0 * 1000000000 + n0 + 2 * (ms * 1000000)"
proof -
  let ?x = "ticks mod freq * 1000000000 div freq"
  have m: "0 \<le> ticks mod freq" "ticks mod freq < freq" using f by auto
  then have "ticks mod freq * 1000000000 < 1000000000 * freq" by simp
  moreover have "?x * freq \<le> ticks mod freq * 1000000000"
    using div_mult_mod_eq [of "ticks mod freq * 1000000000" freq] f(1)
      pos_mod_sign [of freq "ticks mod freq * 1000000000"] by linarith
  ultimately have "?x * freq < 1000000000 * freq" by linarith
  then have "?x < 1000000000" using f(1) by (simp only: mult_less_cancel_right_pos)
  moreover have "0 \<le> ?x" using m f(1) by (simp add: pos_imp_zdiv_nonneg_iff)
  ultimately have x: "0 \<le> ?x" "?x < 1000000000" and n0: "0 \<le> n0" "n0 \<le> 1000000000"
    using round_1e9 [of ?x] by (auto simp: n0_def)
  have "ticks div freq \<le> ticks" using assms zdiv_mono2 [of ticks 1 freq] by simp
  then have s0: "0 \<le> s0" "s0 < 2 ^ 51" using assms f by (auto simp: s0_def pos_imp_zdiv_nonneg_iff)
  define n1 where "n1 = n0 + ms mod 1000 * 1000000"
  define t1 where "t1 = (if n1 \<ge> 1000000000 then \<lparr>tv_sec = s0 + ms div 1000 + 1, tv_nsec = n1 - 1000000000\<rparr>
    else \<lparr>tv_sec = s0 + ms div 1000, tv_nsec = n1\<rparr>)"
  have r: "0 \<le> ms mod 1000" "ms mod 1000 < 1000" by auto
  have eq: "ms div 1000 * 1000000000 + ms mod 1000 * 1000000 = ms * 1000000"
    using div_mult_mod_eq [of ms 1000] by linarith
  have t1: "normal t1" "nanos t1 = s0 * 1000000000 + n0 + ms * 1000000" "\<bar>tv_sec t1\<bar> < 2 ^ 53"
    using n0 r s0 assms(5,6) eq by (auto simp: t1_def n1_def normal_def nanos_def)
  from cpr_adjust_nanos [OF t1(1), of ms] t1(3) assms(5,6)
  obtain d where d: "cpr_adjust (Some t1) ms = Some (Some d)" "nanos d = nanos t1 + ms * 1000000"
    by auto
  have sm: "ms sdiv 1000 = ms div 1000" "ms smod 1000 = ms mod 1000" "ticks sdiv freq = s0"
    "ticks smod freq = ticks mod freq" "ticks mod freq * 1000000000 sdiv freq = ?x"
    "(?x + 5000) sdiv 10000 * 10000 = n0"
    using assms m x f by (auto simp: sdiv_nonneg signed_modulo_int_def sgn_if s0_def n0_def)
  have b: "0 \<le> n1" "n1 < 2000000000" using n0 r unfolding n1_def by linarith+
  have "freq < 8589934592" using f(2) by simp
  then have b': "0 \<le> ticks mod freq * 1000000000" "ticks mod freq * 1000000000 < 9000000000000000000"
    using m by linarith+
  have b'': "0 \<le> s0 + ms div 1000" "s0 + ms div 1000 < 2 ^ 52" using s0 assms(5,6) by simp_all
  have range: "s64 s0 = Some s0" "s64 (ticks mod freq * 1000000000) = Some (ticks mod freq * 1000000000)"
    "s64 ?x = Some ?x" "s64 n0 = Some n0" "s64 n1 = Some n1" "s64 (s0 + ms div 1000) = Some (s0 + ms div 1000)"
    "s64 (s0 + ms div 1000 + 1) = Some (s0 + ms div 1000 + 1)" "s64 (n1 - 1000000000) = Some (n1 - 1000000000)"
    by (rule s64_in_range; use s0 x n0 b b' b'' in simp)+
  have "cpr_deadline_win32 (Some (freq, ticks)) (Some t) ms = Some (True, Some d)"
    using f d(1) by (simp add: cpr_deadline_win32_def sm range n1_def [symmetric] t1_def split: if_splits)
  with d(2) t1(2) show ?thesis by (intro that [of d]) auto
qed

text \<open>
  The Windows branch adds the interval itself and then calls the adjustment as well, so
  its deadline lies twice the requested milliseconds ahead.
\<close>

theorem cpr_deadline_win32_doubles:
  assumes "0 < freq" and "freq < 2 ^ 33" and "0 \<le> ticks" and "ticks < 2 ^ 51"
    and "0 \<le> ms" and "ms < 2 ^ 51"
  shows "\<exists>d0 d. cpr_deadline_win32 (Some (freq, ticks)) (Some t) 0 = Some (True, Some d0) \<and>
     cpr_deadline_win32 (Some (freq, ticks)) (Some t) ms = Some (True, Some d) \<and>
     nanos d = nanos d0 + 2 * (ms * 1000000)"
proof -
  note win = cpr_deadline_win32_adjust [OF assms(1-4)]
  obtain d0 where "cpr_deadline_win32 (Some (freq, ticks)) (Some t) 0 = Some (True, Some d0)"
    "nanos d0 = ticks div freq * 1000000000 +
       (ticks mod freq * 1000000000 div freq + 5000) div 10000 * 10000 + 2 * (0 * 1000000)"
    by (rule win [of 0]) auto
  moreover obtain d where "cpr_deadline_win32 (Some (freq, ticks)) (Some t) ms = Some (True, Some d)"
    "nanos d = ticks div freq * 1000000000 +
       (ticks mod freq * 1000000000 div freq + 5000) div 10000 * 10000 + 2 * (ms * 1000000)"
    by (rule win [OF assms(5,6)])
  ultimately show ?thesis by auto
qed

theorem cpr_deadline_win32_doubles_witness:
  "\<exists>d0 d. cpr_deadline_win32 (Some (10000000, 123456789)) (Some \<lparr>tv_sec = 0, tv_nsec = 0\<rparr>) 0 =
       Some (True, Some d0) \<and>
     cpr_deadline_win32 (Some (10000000, 123456789)) (Some \<lparr>tv_sec = 0, tv_nsec = 0\<rparr>) 250 =
       Some (True, Some d) \<and> nanos d = nanos d0 + 500000000"
  using cpr_deadline_win32_doubles [of 10000000 123456789 250 "\<lparr>tv_sec = 0, tv_nsec = 0\<rparr>"] by simp

end
