(* ===== verification/Mempager.thy ===== *)
theory Mempager
  imports Strchar
begin

text \<open>
  \<^verbatim>\<open>src/mempager.c\<close> and \<^verbatim>\<open>src/mempager.h\<close>: an arena of equally sized pages. A page is a block
  of the store whose first 24 bytes are its \<^verbatim>\<open>struct _mempage\<close>. The headers are kept as
  records beside the bytes of the store, by block; an access to a header is undefined
  unless its block is live and large enough for it and the header has been written. The
  pager object is a record, \<^const>\<open>None\<close> for the null pointer.

  The second part is the contract of an allocator that only ever moves forward in its
  blocks, as a locale: the regions it hands out never overlap. The pager interprets it.
\<close>

record mempage =
  page_next :: ptr
  page_prev :: ptr
  page_used :: size_t

record mempager =
  pager_addr :: ptr
  pager_head :: ptr
  pager_tail :: ptr
  pager_spare :: ptr
  pager_size :: size_t
  pager_limit :: "32 word"
  pager_count :: "32 word"

record pstate =
  pmem :: heap
  phdr :: "nat \<Rightarrow> mempage option"

definition mempage_sizeof :: size_t where "mempage_sizeof = 24"
definition mempager_sizeof :: size_t where "mempager_sizeof = 40"

definition has_header :: "pstate \<Rightarrow> ptr \<Rightarrow> bool" where
  "has_header st p \<longleftrightarrow> (case p of Null \<Rightarrow> False
     | Ptr b k \<Rightarrow> k = 0 \<and> (case hblk (pmem st) b of None \<Rightarrow> False
        | Some bs \<Rightarrow> mempage_sizeof \<le> length bs))"

definition get_page :: "pstate \<Rightarrow> ptr \<Rightarrow> mempage option" where
  "get_page st p = (if has_header st p then phdr st (ptr_block p) else None)"

definition set_page :: "pstate \<Rightarrow> ptr \<Rightarrow> mempage \<Rightarrow> pstate option" where
  "set_page st p pg =
     (if has_header st p then Some (st\<lparr>phdr := (phdr st)(ptr_block p \<mapsto> pg)\<rparr>) else None)"

subsection \<open>Operations\<close>

definition pager_create :: "heap \<Rightarrow> size_t \<Rightarrow> 32 word \<Rightarrow> mempager option \<times> heap" where
  "pager_create h pagesize lim =
     (let (p, h) = c_malloc h mempager_sizeof in
        if p = Null then (None, h)
        else (Some \<lparr>pager_addr = p, pager_head = Null, pager_tail = Null, pager_spare = Null,
                pager_size = pagesize, pager_limit = lim, pager_count = 0\<rparr>, h))"

definition pager_data :: "pstate \<Rightarrow> ptr \<Rightarrow> ptr option" where
  "pager_data st page =
     (if page = Null then Some Null else do { pg \<leftarrow> get_page st page; Some (padd page (page_used pg)) })"

text \<open>The loops of \<^verbatim>\<open>pager_reset\<close>; a list that loops would make them read a freed page.\<close>

partial_function (option) free_pages :: "pstate \<Rightarrow> ptr \<Rightarrow> pstate option" where
  "free_pages st page =
     (if page = Null then Some st
      else do {
        pg \<leftarrow> get_page st page;
        h \<leftarrow> c_free (pmem st) page;
        free_pages (st\<lparr>pmem := h\<rparr>) (page_next pg) })"

definition pager_reset :: "pstate \<Rightarrow> mempager \<Rightarrow> (mempager \<times> pstate) option" where
  "pager_reset st pager = do {
     st \<leftarrow> free_pages st (pager_spare pager);
     st \<leftarrow> free_pages st (pager_head pager);
     Some (pager\<lparr>pager_count := 0, pager_head := Null, pager_tail := Null, pager_spare := Null\<rparr>, st) }"

definition pager_free :: "pstate \<Rightarrow> mempager option \<Rightarrow> pstate option" where
  "pager_free st pager = (case pager of None \<Rightarrow> Some st
     | Some pg \<Rightarrow> do {
         (pg, st) \<leftarrow> pager_reset st pg;
         h \<leftarrow> c_free (pmem st) (pager_addr pg);
         Some (st\<lparr>pmem := h\<rparr>) })"

text \<open>The part of \<^verbatim>\<open>pager_request\<close> behind its early returns: the page joins the tail.\<close>

definition link_page :: "pstate \<Rightarrow> mempager \<Rightarrow> ptr \<Rightarrow> (ptr \<times> mempager \<times> pstate) option" where
  "link_page st pager page = do {
     (pager, st) \<leftarrow> (if pager_tail pager \<noteq> Null then do {
         t \<leftarrow> get_page st (pager_tail pager);
         st \<leftarrow> set_page st (pager_tail pager) (t\<lparr>page_next := page\<rparr>);
         Some (pager, st) }
       else Some (pager\<lparr>pager_head := page\<rparr>, st));
     st \<leftarrow> set_page st page
       \<lparr>page_next = Null, page_prev = pager_tail pager, page_used = mempage_sizeof\<rparr>;
     Some (page, pager\<lparr>pager_tail := page\<rparr>, st) }"

definition pager_request :: "pstate \<Rightarrow> mempager \<Rightarrow> (ptr \<times> mempager \<times> pstate) option" where
  "pager_request st pager =
     (if pager_spare pager \<noteq> Null then do {
        pg \<leftarrow> get_page st (pager_spare pager);
        link_page st (pager\<lparr>pager_spare := page_next pg\<rparr>) (pager_spare pager) }
      else if pager_limit pager \<noteq> 0 \<and> pager_count pager \<ge> pager_limit pager then
        Some (Null, pager, st)
      else
        (let (page, h) = c_malloc (pmem st) (pager_size pager); st = st\<lparr>pmem := h\<rparr> in
           if page = Null then Some (Null, pager, st)
           else link_page st (pager\<lparr>pager_count := pager_count pager + 1\<rparr>) page))"

text \<open>The search of \<^verbatim>\<open>pager_alloc\<close> for a page with room, null when there is none.\<close>

partial_function (option) find_page :: "pstate \<Rightarrow> size_t \<Rightarrow> size_t \<Rightarrow> ptr \<Rightarrow> ptr option" where
  "find_page st psz n page =
     (if page = Null then Some Null
      else do {
        pg \<leftarrow> get_page st page;
        if sz_add (page_used pg) n \<le> psz then Some page
        else find_page st psz n (page_next pg) })"

definition take_room :: "pstate \<Rightarrow> ptr \<Rightarrow> size_t \<Rightarrow> pstate option" where
  "take_room st page n = do {
     pg \<leftarrow> get_page st page;
     set_page st page (pg\<lparr>page_used := sz_add (page_used pg) n\<rparr>) }"

definition pager_alloc :: "pstate \<Rightarrow> mempager \<Rightarrow> size_t \<Rightarrow> (ptr \<times> mempager \<times> pstate) option" where
  "pager_alloc st pager n =
     (if sz_add n mempage_sizeof > pager_size pager then Some (Null, pager, st)
      else do {
        page \<leftarrow> find_page st (pager_size pager) n (pager_head pager);
        if page \<noteq> Null then do {
          out \<leftarrow> pager_data st page;
          st \<leftarrow> take_room st page n;
          Some (out, pager, st) }
        else do {
          (page, pager, st) \<leftarrow> pager_request st pager;
          if page = Null then Some (Null, pager, st)
          else do {
            st \<leftarrow> take_room st page n;
            Some (padd page mempage_sizeof, pager, st) } } })"

definition pager_strdup :: "pstate \<Rightarrow> mempager \<Rightarrow> ptr \<Rightarrow> (ptr \<times> mempager \<times> pstate) option" where
  "pager_strdup st pager str = do {
     n \<leftarrow> cpr_strlen (pmem st) str (sz_sub (sz_sub (pager_size pager) mempage_sizeof) 1);
     let n = sz_add n 1;
     (out, pager, st) \<leftarrow> pager_alloc st pager n;
     if out = Null then Some (Null, pager, st)
     else do {
       (_, h) \<leftarrow> cpr_strcpy (pmem st) out str n;
       Some (out, pager, st\<lparr>pmem := h\<rparr>) } }"

subsection \<open>The list of pages\<close>

text \<open>\<open>chain st prev p bs\<close>: the pages from \<open>p\<close> on are the blocks \<open>bs\<close>, linked both ways.\<close>

primrec chain :: "(nat \<Rightarrow> mempage option) \<Rightarrow> ptr \<Rightarrow> ptr \<Rightarrow> nat list \<Rightarrow> bool" where
  "chain hs prev p [] \<longleftrightarrow> p = Null"
| "chain hs prev p (b # bs) \<longleftrightarrow> p = Ptr b 0 \<and> (case hs b of None \<Rightarrow> False
     | Some pg \<Rightarrow> page_prev pg = prev \<and> chain hs (Ptr b 0) (page_next pg) bs)"

definition page_ok :: "pstate \<Rightarrow> size_t \<Rightarrow> nat \<Rightarrow> bool" where
  "page_ok st psz b \<longleftrightarrow>
     (case (hblk (pmem st) b, phdr st b) of
        (Some bs, Some pg) \<Rightarrow> length bs = psz \<and> mempage_sizeof \<le> page_used pg \<and> page_used pg \<le> psz
      | _ \<Rightarrow> False)"

definition last_page :: "nat list \<Rightarrow> ptr" where
  "last_page bs = (if bs = [] then Null else Ptr (last bs) 0)"

text \<open>The invariant; no operation ever puts a page on the spare list.\<close>

definition pager_ok :: "pstate \<Rightarrow> mempager \<Rightarrow> nat list \<Rightarrow> bool" where
  "pager_ok st pg bs \<longleftrightarrow> heap_ok (pmem st) \<and> pager_size pg < 2 ^ 63 \<and> distinct bs \<and>
     chain (phdr st) Null (pager_head pg) bs \<and> pager_tail pg = last_page bs \<and> pager_spare pg = Null \<and>
     (\<forall>b \<in> set bs. page_ok st (pager_size pg) b) \<and> pager_count pg = of_nat (length bs) \<and>
     (pager_limit pg \<noteq> 0 \<longrightarrow> length bs \<le> unat (pager_limit pg))"

lemma chain_cong: "(\<And>b. b \<in> set bs \<Longrightarrow> f b = g b) \<Longrightarrow> chain f prev p bs \<longleftrightarrow> chain g prev p bs"
  by (induction bs arbitrary: prev p) (auto split: option.splits)

lemma chain_append:
  assumes "chain f prev p bs" and "c \<notin> set bs" and "bs \<noteq> []" and "f (last bs) = Some t" and "distinct bs"
    and "g c = Some \<lparr>page_next = Null, page_prev = Ptr (last bs) 0, page_used = u\<rparr>"
    and "g (last bs) = Some (t\<lparr>page_next := Ptr c 0\<rparr>)"
    and "\<And>b. b \<noteq> c \<Longrightarrow> b \<noteq> last bs \<Longrightarrow> g b = f b"
  shows "chain g prev p (bs @ [c])"
  using assms
proof (induction bs arbitrary: prev p)
  case (Cons b bs)
  show ?case
  proof (cases "bs = []")
    case True
    with Cons.prems show ?thesis by (auto split: option.splits)
  next
    case False
    then have "b \<noteq> last bs" using Cons.prems(5) by auto
    then have "g b = f b" using Cons.prems by (auto simp: False)
    moreover from this Cons.prems obtain pg where pg: "f b = Some pg" "chain f (Ptr b 0) (page_next pg) bs"
      by (auto split: option.splits)
    have "chain g (Ptr b 0) (page_next pg) (bs @ [c])"
      by (rule Cons.IH [OF pg(2)]) (use Cons.prems False in auto)
    ultimately show ?thesis using Cons.prems pg by auto
  qed
qed simp

text \<open>Changing nothing but the room left in a page keeps the list.\<close>

lemma chain_update:
  "chain f prev p bs \<Longrightarrow> f b = Some pg \<Longrightarrow>
   chain (f(b \<mapsto> pg\<lparr>page_used := u\<rparr>)) prev p bs"
  by (induction bs arbitrary: prev p) (auto split: option.splits)

lemma page_okE:
  assumes "page_ok st psz b"
  obtains pg bs where "phdr st b = Some pg" and "hblk (pmem st) b = Some bs" and "length bs = psz"
    and "24 \<le> page_used pg" and "page_used pg \<le> psz" and "has_header st (Ptr b 0)"
    and "get_page st (Ptr b 0) = Some pg"
  using assms by (auto simp: page_ok_def mempage_sizeof_def has_header_def get_page_def split: option.splits)

lemma chain_links:
  "chain f prev p (b # bs) \<longleftrightarrow> p = Ptr b 0 \<and>
     (\<exists>pg. f b = Some pg \<and> page_prev pg = prev \<and> chain f (Ptr b 0) (page_next pg) bs)"
  by (auto split: option.splits)

subsection \<open>First fit\<close>

text \<open>
  The arena as its clients see it: how far each page is used. An allocation goes to the first
  page with room, or to a new page while the limit allows one and the system grants it.
\<close>

primrec first_room :: "size_t \<Rightarrow> size_t \<Rightarrow> size_t list \<Rightarrow> nat option" where
  "first_room psz n [] = None"
| "first_room psz n (u # us) = (if u + n \<le> psz then Some 0 else map_option Suc (first_room psz n us))"

definition arena_alloc :: "size_t \<Rightarrow> nat \<Rightarrow> bool \<Rightarrow> size_t \<Rightarrow> size_t list \<Rightarrow>
    (nat \<times> nat) option \<times> size_t list" where
  "arena_alloc psz limit granted n us =
     (if n + mempage_sizeof > psz then (None, us)
      else (case first_room psz n us of
         Some i \<Rightarrow> (Some (i, us ! i), us[i := us ! i + n])
       | None \<Rightarrow> if limit \<noteq> 0 \<and> limit \<le> length us \<or> \<not> granted then (None, us)
                 else (Some (length us, mempage_sizeof), us @ [mempage_sizeof + n])))"

definition arena :: "pstate \<Rightarrow> nat list \<Rightarrow> size_t list" where
  "arena st bs = map (\<lambda>b. page_used (the (phdr st b))) bs"

lemma first_room_Some:
  "first_room psz n us = Some i \<Longrightarrow> i < length us \<and> us ! i + n \<le> psz"
  by (induction us arbitrary: i) (auto split: if_splits)

lemma find_page_first:
  assumes "chain (phdr st) prev p bs" and "\<forall>b \<in> set bs. page_ok st psz b" and "psz < 2 ^ 63"
    and "n \<le> psz"
  shows "find_page st psz n p =
    Some (case first_room psz n (arena st bs) of None \<Rightarrow> Null | Some i \<Rightarrow> Ptr (bs ! i) 0)"
  using assms
proof (induction bs arbitrary: prev p)
  case Nil
  then show ?case by (subst find_page.simps) (simp add: arena_def)
next
  case (Cons b bs)
  then obtain pg where pg: "phdr st b = Some pg" "get_page st (Ptr b 0) = Some pg"
    "chain (phdr st) (Ptr b 0) (page_next pg) bs" "p = Ptr b 0" "page_used pg \<le> psz"
    by (auto simp: chain_links elim!: page_okE simp del: chain.simps)
  have "find_page st psz n (page_next pg) =
    Some (case first_room psz n (arena st bs) of None \<Rightarrow> Null | Some i \<Rightarrow> Ptr (bs ! i) 0)"
    by (rule Cons.IH [OF pg(3)]) (use Cons.prems in auto)
  moreover have "sz_add (page_used pg) n = page_used pg + n"
    using pg(5) Cons.prems(3,4) by (simp add: size_simps)
  ultimately show ?case using pg
    by (subst find_page.simps) (auto simp: arena_def split: option.splits)
qed

lemma take_room_page:
  assumes "page_ok st psz b" and "page_used (the (phdr st b)) + n \<le> psz" and "psz < 2 ^ 63"
  obtains pg where "phdr st b = Some pg"
    and "take_room st (Ptr b 0) n =
      Some (st\<lparr>phdr := (phdr st)(b \<mapsto> pg\<lparr>page_used := page_used pg + n\<rparr>)\<rparr>)"
  using assms by (auto elim!: page_okE simp: take_room_def set_page_def size_simps)

lemma pager_ok_take_room:
  assumes "pager_ok st pg bs" and "i < length bs" and "arena st bs ! i + n \<le> pager_size pg"
  obtains st' where "take_room st (Ptr (bs ! i) 0) n = Some st'" and "pager_ok st' pg bs"
    and "arena st' bs = (arena st bs)[i := arena st bs ! i + n]" and "pmem st' = pmem st"
    and "\<And>b. b \<notin> set bs \<Longrightarrow> phdr st' b = phdr st b"
proof -
  let ?b = "bs ! i"
  have b: "?b \<in> set bs" "page_ok st (pager_size pg) ?b" using assms by (auto simp: pager_ok_def)
  have u: "page_used (the (phdr st ?b)) = arena st bs ! i" using assms(2) by (simp add: arena_def)
  with b(2) assms obtain hdr where hdr: "phdr st ?b = Some hdr"
    and t: "take_room st (Ptr ?b 0) n = Some (st\<lparr>phdr := (phdr st)(?b \<mapsto> hdr\<lparr>page_used := page_used hdr + n\<rparr>)\<rparr>)"
      (is "_ = Some ?st")
    using take_room_page [OF b(2), of n] by (auto simp: pager_ok_def)
  show ?thesis
  proof (rule that [OF t])
    have "page_ok ?st (pager_size pg) c" if "c \<in> set bs" for c
      using assms(1,3) b hdr u that by (auto simp: pager_ok_def page_ok_def split: option.splits)
    then show "pager_ok ?st pg bs"
      using assms(1) hdr by (auto simp: pager_ok_def chain_update)
    have "bs ! j = ?b \<longleftrightarrow> j = i" if "j < length bs" for j
      using assms(1,2) that by (auto simp: pager_ok_def nth_eq_iff_index_eq)
    then show "arena ?st bs = (arena st bs)[i := arena st bs ! i + n]"
      using hdr assms(2) by (auto simp: arena_def intro!: nth_equalityI simp: nth_list_update)
  qed (use b(1) in auto)
qed

lemma link_page_ok:
  assumes "pager_ok st pg bs" and "hblk (pmem st) c = Some cs" and "length cs = pager_size pg"
    and "24 \<le> pager_size pg" and "c \<notin> set bs"
    and "pager_limit pg \<noteq> 0 \<longrightarrow> length bs < unat (pager_limit pg)"
  obtains pg' st' where "link_page st (pg\<lparr>pager_count := pager_count pg + 1\<rparr>) (Ptr c 0) = Some (Ptr c 0, pg', st')"
    and "pager_ok st' pg' (bs @ [c])" and "arena st' (bs @ [c]) = arena st bs @ [24]"
    and "pmem st' = pmem st" and "pager_size pg' = pager_size pg" and "pager_limit pg' = pager_limit pg"
    and "pager_addr pg' = pager_addr pg" and "\<And>b. b \<notin> set (bs @ [c]) \<Longrightarrow> phdr st' b = phdr st b"
proof -
  let ?new = "\<lparr>page_next = Null, page_prev = last_page bs, page_used = 24\<rparr>"
  define hs where "hs = (if bs = [] then phdr st
    else (phdr st)(last bs \<mapsto> (the (phdr st (last bs)))\<lparr>page_next := Ptr c 0\<rparr>))"
  let ?st = "st\<lparr>phdr := hs(c \<mapsto> ?new)\<rparr>"
  let ?pg = "pg\<lparr>pager_count := pager_count pg + 1, pager_head := (if bs = [] then Ptr c 0 else pager_head pg),
    pager_tail := Ptr c 0\<rparr>"
  have last: "bs \<noteq> [] \<Longrightarrow> \<exists>t. phdr st (last bs) = Some t \<and> get_page st (Ptr (last bs) 0) = Some t \<and>
      has_header st (Ptr (last bs) 0)"
    using assms(1) by (auto simp: pager_ok_def elim!: page_okE ballE [of _ _ "last bs"])
  have link: "link_page st (pg\<lparr>pager_count := pager_count pg + 1\<rparr>) (Ptr c 0) = Some (Ptr c 0, ?pg, ?st)"
    using assms(1-4) last
    by (auto simp: link_page_def pager_ok_def last_page_def set_page_def has_header_def mempage_sizeof_def hs_def)
  have page: "page_ok ?st (pager_size pg) b" if "b \<in> set (bs @ [c])" for b
  proof (cases "b = c")
    case False
    with that assms(1) have "page_ok st (pager_size pg) b" by (auto simp: pager_ok_def)
    with False show ?thesis by (elim page_okE) (auto simp: page_ok_def mempage_sizeof_def hs_def)
  qed (use assms in \<open>simp add: page_ok_def mempage_sizeof_def\<close>)
  have "chain (hs(c \<mapsto> ?new)) Null (pager_head ?pg) (bs @ [c])"
  proof (cases "bs = []")
    case False
    with last obtain t where t: "phdr st (last bs) = Some t" by auto
    have "last bs \<noteq> c" using False assms(5) by auto
    with False assms(1,5) t show ?thesis
      by (auto intro!: chain_append [of "phdr st"] simp: pager_ok_def hs_def last_page_def)
  qed (simp add: last_page_def)
  then have "pager_ok ?st ?pg (bs @ [c])"
    using assms page by (auto simp: pager_ok_def last_page_def)
  moreover have "arena ?st (bs @ [c]) = arena st bs @ [24]"
    using assms(5) last by (auto simp: arena_def hs_def)
  ultimately show ?thesis using link by (intro that [of ?pg ?st]) (auto simp: hs_def)
qed

text \<open>What an operation of the pager leaves alone: the bytes of every live block.\<close>

definition pager_frame :: "pstate \<Rightarrow> mempager \<Rightarrow> nat list \<Rightarrow> pstate \<Rightarrow> mempager \<Rightarrow> nat list \<Rightarrow> bool" where
  "pager_frame st pg bs st' pg' bs' \<longleftrightarrow>
     pager_ok st' pg' bs' \<and> pager_size pg' = pager_size pg \<and> pager_limit pg' = pager_limit pg \<and>
     pager_addr pg' = pager_addr pg \<and> take (length bs) bs' = bs \<and>
     (\<forall>b. hblk (pmem st) b \<noteq> None \<longrightarrow> b \<notin> set bs \<longrightarrow> b \<notin> set bs') \<and>
     (\<forall>b. b \<notin> set bs' \<longrightarrow> phdr st' b = phdr st b) \<and>
     (\<forall>b. b \<notin> set bs' \<or> hblk (pmem st) b \<noteq> None \<longrightarrow> hblk (pmem st') b = hblk (pmem st) b)"

lemma count_limit:
  assumes "pager_ok st pg bs" and "pager_limit pg \<noteq> 0"
  shows "pager_count pg \<ge> pager_limit pg \<longleftrightarrow> unat (pager_limit pg) \<le> length bs"
proof -
  have le: "length bs \<le> unat (pager_limit pg)" using assms by (simp add: pager_ok_def)
  also have "\<dots> < 2 ^ 32" using unsigned_less [of "pager_limit pg"] by simp
  finally have "unat (pager_count pg) = length bs"
    using assms(1) by (simp add: pager_ok_def unat_of_nat take_bit_nat_eq_self)
  then show ?thesis by (simp add: word_le_nat_alt)
qed

lemma pager_ok_mem:
  assumes "pager_ok st pg bs" and "heap_ok h" and "\<And>b. b \<in> set bs \<Longrightarrow> hblk h b = hblk (pmem st) b"
  shows "pager_ok (st\<lparr>pmem := h\<rparr>) pg bs"
  using assms by (auto simp: pager_ok_def page_ok_def)

lemma pager_request_refines:
  assumes "pager_ok st pg bs" and "24 \<le> pager_size pg"
  defines "granted \<equiv> hgrant (pmem st) (hseq (pmem st)) (pager_size pg)"
  shows "\<exists>p pg' st'. pager_request st pg = Some (p, pg', st') \<and>
    (if pager_limit pg \<noteq> 0 \<and> unat (pager_limit pg) \<le> length bs \<or> \<not> granted
     then p = Null \<and> pager_frame st pg bs st' pg' bs \<and> arena st' bs = arena st bs
     else p = Ptr (hseq (pmem st)) 0 \<and> pager_frame st pg bs st' pg' (bs @ [hseq (pmem st)]) \<and>
       arena st' (bs @ [hseq (pmem st)]) = arena st bs @ [24])"
proof -
  let ?c = "hseq (pmem st)"
  have ok: "pager_spare pg = Null" "heap_ok (pmem st)" using assms(1) by (auto simp: pager_ok_def)
  have live: "b < ?c" if "hblk (pmem st) b \<noteq> None" for b
    using that heap_ok_live [OF ok(2)] by auto
  then have fresh: "?c \<notin> set bs"
    using assms(1) by (fastforce simp: pager_ok_def elim: page_okE)
  show ?thesis
  proof (cases "pager_limit pg \<noteq> 0 \<and> unat (pager_limit pg) \<le> length bs")
    case True
    then show ?thesis using assms(1) ok(1) count_limit [OF assms(1)]
      by (auto simp: pager_request_def pager_frame_def)
  next
    case False
    then have not_full: "\<not> (pager_limit pg \<noteq> 0 \<and> pager_count pg \<ge> pager_limit pg)"
      using count_limit [OF assms(1)] by auto
    show ?thesis
    proof (cases granted)
      case False
      let ?h = "(pmem st)\<lparr>hseq := Suc ?c\<rparr>"
      have "pager_ok (st\<lparr>pmem := ?h\<rparr>) pg bs"
        by (rule pager_ok_mem [OF assms(1)]) (use ok(2) in \<open>auto simp: heap_ok_def\<close>)
      with False ok(1) not_full show ?thesis
        by (auto simp: pager_request_def pager_frame_def c_malloc_denied granted_def arena_def)
    next
      case True
      with ok(2) obtain h junk where h: "c_malloc (pmem st) (pager_size pg) = (Ptr ?c 0, h)"
        "length junk = pager_size pg" "hblk h = (hblk (pmem st))(?c \<mapsto> junk)" "heap_ok h"
        by (auto simp: granted_def elim: c_malloc_granted)
      let ?st = "st\<lparr>pmem := h\<rparr>"
      have "pager_ok ?st pg bs"
        by (rule pager_ok_mem [OF assms(1) h(4)]) (use fresh h(3) in auto)
      then obtain pg' st' where l: "link_page ?st (pg\<lparr>pager_count := pager_count pg + 1\<rparr>) (Ptr ?c 0) = Some (Ptr ?c 0, pg', st')"
        "pager_ok st' pg' (bs @ [?c])" "arena st' (bs @ [?c]) = arena ?st bs @ [24]"
        "pmem st' = h" "pager_size pg' = pager_size pg" "pager_limit pg' = pager_limit pg"
        "pager_addr pg' = pager_addr pg" "\<And>b. b \<notin> set (bs @ [?c]) \<Longrightarrow> phdr st' b = phdr st b"
        by (rule link_page_ok [of ?st pg bs ?c junk])
          (use h(2,3) assms(2) fresh False in auto)
      moreover have "pager_request st pg = Some (Ptr ?c 0, pg', st')"
        using ok(1) not_full h(1) l(1) by (auto simp: pager_request_def)
      moreover have "pager_frame st pg bs st' pg' (bs @ [?c])"
        using l h(3) live by (auto simp: pager_frame_def)
      ultimately show ?thesis using True \<open>\<not> (_ \<and> unat _ \<le> _)\<close> by (auto simp: arena_def)
    qed
  qed
qed

text \<open>The search, the request and the bookkeeping together are first fit.\<close>

lemma pager_alloc_refines:
  assumes "pager_ok st pg bs" and "n + 24 < 2 ^ 64"
  shows "\<exists>p pg' st' bs' r. pager_alloc st pg n = Some (p, pg', st') \<and>
    arena_alloc (pager_size pg) (unat (pager_limit pg))
      (hgrant (pmem st) (hseq (pmem st)) (pager_size pg)) n (arena st bs) = (r, arena st' bs') \<and>
    p = (case r of None \<Rightarrow> Null | Some (i, k) \<Rightarrow> Ptr (bs' ! i) k) \<and>
    pager_frame st pg bs st' pg' bs'"
proof (cases "pager_size pg < n + 24")
  case True
  then show ?thesis using assms
    by (auto simp: pager_alloc_def arena_alloc_def pager_frame_def size_simps mempage_sizeof_def)
next
  case False
  let ?granted = "hgrant (pmem st) (hseq (pmem st)) (pager_size pg)"
  have sz: "sz_add n mempage_sizeof = n + 24" using assms(2) by (simp add: size_simps mempage_sizeof_def)
  have fits: "\<not> pager_size pg < n + mempage_sizeof" using False by (simp add: mempage_sizeof_def)
  have len: "length (arena st bs) = length bs" by (simp add: arena_def)
  have find: "find_page st (pager_size pg) n (pager_head pg) =
    Some (case first_room (pager_size pg) n (arena st bs) of None \<Rightarrow> Null | Some i \<Rightarrow> Ptr (bs ! i) 0)"
    using assms(1) False by (intro find_page_first) (auto simp: pager_ok_def)
  show ?thesis
  proof (cases "first_room (pager_size pg) n (arena st bs)")
    case (Some i)
    then have i: "i < length bs" "arena st bs ! i + n \<le> pager_size pg"
      using first_room_Some [OF Some] len by auto
    obtain st' where st': "take_room st (Ptr (bs ! i) 0) n = Some st'" "pager_ok st' pg bs"
      "arena st' bs = (arena st bs)[i := arena st bs ! i + n]" "pmem st' = pmem st"
      "\<And>b. b \<notin> set bs \<Longrightarrow> phdr st' b = phdr st b"
      using pager_ok_take_room [OF assms(1) i] by metis
    have "page_ok st (pager_size pg) (bs ! i)" using assms(1) i by (auto simp: pager_ok_def)
    then have "pager_data st (Ptr (bs ! i) 0) = Some (Ptr (bs ! i) (arena st bs ! i))"
      using i by (elim page_okE) (auto simp: pager_data_def arena_def)
    with st' Some find sz False have "pager_alloc st pg n = Some (Ptr (bs ! i) (arena st bs ! i), pg, st')"
      by (simp add: pager_alloc_def)
    then show ?thesis using st' Some fits
      by (intro exI [of _ bs] exI) (auto simp: arena_alloc_def pager_frame_def)
  next
    case None
    let ?c = "hseq (pmem st)" and ?deny = "pager_limit pg \<noteq> 0 \<and> unat (pager_limit pg) \<le> length bs \<or> \<not> ?granted"
    obtain p pg' st' where req: "pager_request st pg = Some (p, pg', st')"
      "if ?deny then p = Null \<and> pager_frame st pg bs st' pg' bs \<and> arena st' bs = arena st bs
       else p = Ptr ?c 0 \<and> pager_frame st pg bs st' pg' (bs @ [?c]) \<and> arena st' (bs @ [?c]) = arena st bs @ [24]"
      using pager_request_refines [OF assms(1)] False by auto
    show ?thesis
    proof (cases ?deny)
      case True
      with req None find sz False fits len show ?thesis
        by (intro exI [of _ Null] exI [of _ pg'] exI [of _ st'] exI [of _ bs] exI [of _ "None :: (nat \<times> nat) option"])
          (auto simp: pager_alloc_def arena_alloc_def unat_eq_0)
    next
      case deny: False
      then have r: "p = Ptr ?c 0" "pager_frame st pg bs st' pg' (bs @ [?c])" "arena st' (bs @ [?c]) = arena st bs @ [24]"
        using req(2) by auto
      then have "pager_ok st' pg' (bs @ [?c])" and psz: "pager_size pg' = pager_size pg" by (auto simp: pager_frame_def)
      then obtain st'' where t: "take_room st' (Ptr ((bs @ [?c]) ! length bs) 0) n = Some st''"
        "pager_ok st'' pg' (bs @ [?c])" "pmem st'' = pmem st'"
        "\<And>b. b \<notin> set (bs @ [?c]) \<Longrightarrow> phdr st'' b = phdr st' b"
        "arena st'' (bs @ [?c]) = (arena st' (bs @ [?c]))[length bs := arena st' (bs @ [?c]) ! length bs + n]"
        using pager_ok_take_room [of st' pg' "bs @ [?c]" "length bs" n] r(3) len False by (auto simp: nth_append)
      have "arena_alloc (pager_size pg) (unat (pager_limit pg)) ?granted n (arena st bs) =
          (Some (length bs, 24), arena st'' (bs @ [?c]))"
        using None fits deny t(5) r(3) len by (auto simp: arena_alloc_def mempage_sizeof_def nth_append list_update_append unat_eq_0)
      moreover have "pager_alloc st pg n = Some (Ptr ?c 24, pg', st'')"
        using None find sz False req(1) r(1) t(1) by (simp add: pager_alloc_def mempage_sizeof_def)
      moreover have "pager_frame st pg bs st'' pg' (bs @ [?c])"
        using r(2) t(2-4) by (simp add: pager_frame_def)
      ultimately show ?thesis by (intro exI conjI) (auto simp: nth_append)
    qed
  qed
qed

subsection \<open>Allocators that only move forward\<close>

primrec alloc_all :: "('s \<Rightarrow> size_t \<Rightarrow> (ptr \<times> 's) option) \<Rightarrow> 's \<Rightarrow> size_t list \<Rightarrow> (ptr list \<times> 's) option" where
  "alloc_all alloc s [] = Some ([], s)"
| "alloc_all alloc s (n # ns) = do {
     (p, s) \<leftarrow> alloc s n;
     (ps, s) \<leftarrow> alloc_all alloc s ns;
     Some (p # ps, s) }"

text \<open>
  The contract: \<open>page s b\<close> says that block \<open>b\<close> is a page of the arena and \<open>fill s b\<close> how far
  it is in use. An allocation is refused or lies between the old and the new fill of a page;
  pages stay pages and their fill never shrinks.
\<close>

locale bump_allocator =
  fixes alloc :: "'s \<Rightarrow> size_t \<Rightarrow> (ptr \<times> 's) option"
    and inv :: "'s \<Rightarrow> bool"
    and page :: "'s \<Rightarrow> nat \<Rightarrow> bool"
    and fill :: "'s \<Rightarrow> nat \<Rightarrow> nat"
    and base bound :: nat
  assumes alloc_step: "inv s \<Longrightarrow> n < bound \<Longrightarrow> \<exists>p s'. alloc s n = Some (p, s') \<and> inv s' \<and>
      (\<forall>b. page s b \<longrightarrow> page s' b) \<and> (\<forall>b. fill s b \<le> fill s' b) \<and>
      (p = Null \<or> page s' (ptr_block p) \<and> base \<le> ptr_off p \<and> fill s (ptr_block p) \<le> ptr_off p \<and>
         ptr_off p + n \<le> fill s' (ptr_block p))"
begin

lemma alloc_all_regions:
  assumes "inv s" and "\<forall>n \<in> set ns. n < bound"
  shows "\<exists>ps s'. alloc_all alloc s ns = Some (ps, s') \<and> inv s' \<and> length ps = length ns \<and>
    (\<forall>b. page s b \<longrightarrow> page s' b) \<and> (\<forall>b. fill s b \<le> fill s' b) \<and>
    (\<forall>i < length ns. ps ! i \<noteq> Null \<longrightarrow> page s' (ptr_block (ps ! i)) \<and> base \<le> ptr_off (ps ! i) \<and>
       fill s (ptr_block (ps ! i)) \<le> ptr_off (ps ! i) \<and>
       ptr_off (ps ! i) + ns ! i \<le> fill s' (ptr_block (ps ! i))) \<and>
    (\<forall>j < length ns. \<forall>i < j. ps ! i \<noteq> Null \<longrightarrow> ps ! j \<noteq> Null \<longrightarrow>
       ptr_block (ps ! i) = ptr_block (ps ! j) \<longrightarrow> ptr_off (ps ! i) + ns ! i \<le> ptr_off (ps ! j))"
  using assms
proof (induction ns arbitrary: s)
  case (Cons n ns)
  then obtain p s1 where a: "alloc s n = Some (p, s1)" "inv s1" "\<forall>b. page s b \<longrightarrow> page s1 b"
    "\<forall>b. fill s b \<le> fill s1 b"
    "p = Null \<or> page s1 (ptr_block p) \<and> base \<le> ptr_off p \<and> fill s (ptr_block p) \<le> ptr_off p \<and>
       ptr_off p + n \<le> fill s1 (ptr_block p)"
    using alloc_step [of s n] by auto
  then obtain ps s2 where b: "alloc_all alloc s1 ns = Some (ps, s2)" "inv s2" "length ps = length ns"
    "\<forall>b. page s1 b \<longrightarrow> page s2 b" "\<forall>b. fill s1 b \<le> fill s2 b"
    and regions: "\<And>i. i < length ns \<Longrightarrow> ps ! i \<noteq> Null \<Longrightarrow> page s2 (ptr_block (ps ! i)) \<and> base \<le> ptr_off (ps ! i) \<and>
       fill s1 (ptr_block (ps ! i)) \<le> ptr_off (ps ! i) \<and>
       ptr_off (ps ! i) + ns ! i \<le> fill s2 (ptr_block (ps ! i))"
    and apart: "\<And>i j. j < length ns \<Longrightarrow> i < j \<Longrightarrow> ps ! i \<noteq> Null \<Longrightarrow> ps ! j \<noteq> Null \<Longrightarrow>
       ptr_block (ps ! i) = ptr_block (ps ! j) \<Longrightarrow> ptr_off (ps ! i) + ns ! i \<le> ptr_off (ps ! j)"
    using Cons.IH [of s1] Cons.prems(2) by auto
  have "page s2 (ptr_block ((p # ps) ! i)) \<and> base \<le> ptr_off ((p # ps) ! i) \<and>
      fill s (ptr_block ((p # ps) ! i)) \<le> ptr_off ((p # ps) ! i) \<and>
      ptr_off ((p # ps) ! i) + (n # ns) ! i \<le> fill s2 (ptr_block ((p # ps) ! i))"
    if "i < length (n # ns)" "(p # ps) ! i \<noteq> Null" for i
  proof (cases i)
    case 0
    with that a(5) b(4,5) show ?thesis by (auto intro: le_trans)
  next
    case (Suc k)
    with that regions [of k] a(4) show ?thesis by (auto intro: le_trans)
  qed
  moreover have "ptr_off ((p # ps) ! i) + (n # ns) ! i \<le> ptr_off ((p # ps) ! j)"
    if "j < length (n # ns)" "i < j" "(p # ps) ! i \<noteq> Null" "(p # ps) ! j \<noteq> Null"
      "ptr_block ((p # ps) ! i) = ptr_block ((p # ps) ! j)" for i j
  proof -
    from that(2) obtain l where l: "j = Suc l" by (cases j) auto
    show ?thesis
    proof (cases i)
      case 0
      with that l a(5) regions [of l] show ?thesis by (auto intro: le_trans)
    next
      case (Suc k)
      with that l apart [of l k] show ?thesis by auto
    qed
  qed
  ultimately show ?case using a b by (intro exI [of _ "p # ps"] exI [of _ s2]) (auto intro: le_trans)
qed simp

end

text \<open>The pager as such an allocator, in a store whose blocks outside the arena are those of \<open>h\<close>.\<close>

definition pager_step :: "mempager \<times> pstate \<Rightarrow> size_t \<Rightarrow> (ptr \<times> mempager \<times> pstate) option" where
  "pager_step s n = (case s of (pg, st) \<Rightarrow> pager_alloc st pg n)"

definition pager_in :: "heap \<Rightarrow> mempager \<Rightarrow> mempager \<times> pstate \<Rightarrow> nat list \<Rightarrow> bool" where
  "pager_in h pg0 s bs \<longleftrightarrow> (case s of (pg, st) \<Rightarrow> pager_ok st pg bs \<and> pager_size pg = pager_size pg0 \<and>
     pager_limit pg = pager_limit pg0 \<and> pager_addr pg = pager_addr pg0 \<and>
     (\<forall>b \<in> set bs. hblk h b = None) \<and> (\<forall>b. b \<notin> set bs \<longrightarrow> hblk (pmem st) b = hblk h b))"

definition pager_inv :: "heap \<Rightarrow> mempager \<Rightarrow> mempager \<times> pstate \<Rightarrow> bool" where
  "pager_inv h pg0 s \<longleftrightarrow> (\<exists>bs. pager_in h pg0 s bs)"

definition is_page :: "mempager \<times> pstate \<Rightarrow> nat \<Rightarrow> bool" where
  "is_page s b \<longleftrightarrow> (case s of (pg, st) \<Rightarrow> page_ok st (pager_size pg) b)"

definition page_fill :: "mempager \<times> pstate \<Rightarrow> nat \<Rightarrow> nat" where
  "page_fill s b = (if is_page s b then page_used (the (phdr (snd s) b)) else 0)"

text \<open>First fit hands out the space above the old fill of one page.\<close>

lemma arena_alloc_Some:
  assumes "arena_alloc psz limit granted n us = (Some (i, k), us')"
  shows "us' ! i = k + n" and "i < length us'"
    and "i < length us \<and> k = us ! i \<or> i = length us \<and> k = mempage_sizeof"
  using assms
  by (auto simp: arena_alloc_def nth_append nth_list_update split: option.splits if_splits dest!: first_room_Some)

lemma arena_alloc_mono:
  assumes "arena_alloc psz limit granted n us = (r, us')"
  shows "j < length us \<Longrightarrow> us ! j \<le> us' ! j"
  using assms
  by (auto simp: arena_alloc_def nth_append nth_list_update split: option.splits if_splits dest!: first_room_Some)

lemma is_page_member: "pager_ok st pg bs \<Longrightarrow> b \<in> set bs \<Longrightarrow> is_page (pg, st) b"
  by (simp add: pager_ok_def is_page_def)

lemma page_fill_nth:
  "pager_ok st pg bs \<Longrightarrow> i < length bs \<Longrightarrow> page_fill (pg, st) (bs ! i) = arena st bs ! i"
  by (simp add: page_fill_def is_page_member arena_def)

lemma page_fill_ge: "is_page s b \<Longrightarrow> mempage_sizeof \<le> page_fill s b"
  by (auto simp: page_fill_def is_page_def page_ok_def split: prod.splits option.splits)

lemma frame_prefix:
  assumes "pager_frame st pg bs st' pg' bs'"
  obtains cs where "bs' = bs @ cs"
  using assms by (metis append_take_drop_id pager_frame_def)

lemma frame_page:
  assumes "pager_frame st pg bs st' pg' bs'" and "is_page (pg, st) b"
  shows "is_page (pg', st') b" and "b \<in> set bs' \<Longrightarrow> b \<in> set bs"
    and "b \<notin> set bs \<Longrightarrow> page_fill (pg', st') b = page_fill (pg, st) b"
proof -
  have live: "hblk (pmem st) b \<noteq> None" using assms(2) by (auto simp: is_page_def page_ok_def split: option.splits)
  with assms(1) show old: "b \<in> set bs' \<Longrightarrow> b \<in> set bs" by (auto simp: pager_frame_def)
  have same: "hblk (pmem st') b = hblk (pmem st) b" "b \<notin> set bs' \<Longrightarrow> phdr st' b = phdr st b"
    "pager_size pg' = pager_size pg" and ok: "pager_ok st' pg' bs'"
    using assms(1) live by (auto simp: pager_frame_def)
  show page: "is_page (pg', st') b"
  proof (cases "b \<in> set bs'")
    case False
    with same assms(2) show ?thesis by (simp add: is_page_def page_ok_def split: option.splits)
  qed (rule is_page_member [OF ok])
  show "page_fill (pg', st') b = page_fill (pg, st) b" if "b \<notin> set bs"
  proof -
    from that old have "b \<notin> set bs'" by blast
    then show ?thesis using same(2) page assms(2) by (simp add: page_fill_def)
  qed
qed

lemma pager_in_frame:
  assumes "pager_in h pg0 (pg, st) bs" and "pager_frame st pg bs st' pg' bs'"
  shows "pager_in h pg0 (pg', st') bs'"
proof -
  obtain cs where cs: "bs' = bs @ cs" using assms(2) by (rule frame_prefix)
  have "hblk h b = None" if "b \<in> set bs'" for b
  proof (cases "b \<in> set bs")
    case False
    with that assms show ?thesis by (auto simp: pager_in_def pager_frame_def) (metis option.exhaust)
  qed (use assms(1) in \<open>simp add: pager_in_def\<close>)
  moreover have "hblk (pmem st') b = hblk h b" if "b \<notin> set bs'" for b
    using that assms cs by (simp add: pager_in_def pager_frame_def)
  ultimately show ?thesis using assms by (simp add: pager_in_def pager_frame_def)
qed

lemma pager_alloc_bumps:
  assumes "pager_in h pg0 (pg, st) bs" and "n < 2 ^ 64 - 24"
  shows "\<exists>p s' bs'. pager_step (pg, st) n = Some (p, s') \<and> pager_in h pg0 s' bs' \<and>
    (\<forall>b. is_page (pg, st) b \<longrightarrow> is_page s' b) \<and> (\<forall>b. page_fill (pg, st) b \<le> page_fill s' b) \<and>
    (p = Null \<or> is_page s' (ptr_block p) \<and> 24 \<le> ptr_off p \<and> page_fill (pg, st) (ptr_block p) \<le> ptr_off p \<and>
       ptr_off p + n \<le> page_fill s' (ptr_block p))"
proof -
  have ok: "pager_ok st pg bs" using assms(1) by (simp add: pager_in_def)
  obtain p pg' st' bs' r where a: "pager_alloc st pg n = Some (p, pg', st')"
    and ar: "arena_alloc (pager_size pg) (unat (pager_limit pg))
      (hgrant (pmem st) (hseq (pmem st)) (pager_size pg)) n (arena st bs) = (r, arena st' bs')"
    and p: "p = (case r of None \<Rightarrow> Null | Some (i, k) \<Rightarrow> Ptr (bs' ! i) k)"
    and f: "pager_frame st pg bs st' pg' bs'"
    using pager_alloc_refines [OF ok, of n] assms(2) by auto
  obtain cs where cs: "bs' = bs @ cs" using f by (rule frame_prefix)
  have ok': "pager_ok st' pg' bs'" using f by (simp add: pager_frame_def)
  have len: "length (arena st bs) = length bs" "length (arena st' bs') = length bs'" by (auto simp: arena_def)
  have mono: "page_fill (pg, st) b \<le> page_fill (pg', st') b" for b
  proof (cases "is_page (pg, st) b")
    case True
    show ?thesis
    proof (cases "b \<in> set bs")
      case True
      then obtain j where "j < length bs" "b = bs ! j" by (metis in_set_conv_nth)
      with arena_alloc_mono [OF ar, of j] show ?thesis
        using page_fill_nth [OF ok, of j] page_fill_nth [OF ok', of j] cs len by (simp add: nth_append)
    qed (use frame_page [OF f True] in simp)
  qed (simp add: page_fill_def)
  have "is_page (pg', st') (ptr_block p) \<and> 24 \<le> ptr_off p \<and> page_fill (pg, st) (ptr_block p) \<le> ptr_off p \<and>
       ptr_off p + n \<le> page_fill (pg', st') (ptr_block p)" if "p \<noteq> Null"
  proof -
    from that p obtain i k where r: "r = Some (i, k)" "p = Ptr (bs' ! i) k" by (cases r) auto
    note s = arena_alloc_Some [OF ar [unfolded r(1)], unfolded len]
    have i: "bs' ! i \<in> set bs'" "is_page (pg', st') (bs' ! i)"
      using s(2) ok' by (auto intro: is_page_member)
    have "24 \<le> k \<and> page_fill (pg, st) (bs' ! i) \<le> k"
    proof (cases "i < length bs")
      case True
      then have "page_fill (pg, st) (bs' ! i) = k" "is_page (pg, st) (bs' ! i)"
        using s(3) cs page_fill_nth [OF ok True] is_page_member [OF ok] by (auto simp: nth_append)
      then show ?thesis using page_fill_ge [of "(pg, st)" "bs' ! i"] by (simp add: mempage_sizeof_def)
    next
      case False
      then have "bs' ! i \<notin> set bs" using ok' s(2) cs by (auto simp: pager_ok_def nth_append)
      with i(1) have "\<not> is_page (pg, st) (bs' ! i)" using frame_page(2) [OF f] by auto
      then show ?thesis using s(3) False by (simp add: page_fill_def mempage_sizeof_def)
    qed
    moreover have "page_fill (pg', st') (bs' ! i) = k + n" using page_fill_nth [OF ok' s(2)] s(1) by simp
    ultimately show ?thesis using r(2) i(2) by simp
  qed
  with a mono frame_page(1) [OF f] pager_in_frame [OF assms(1) f] show ?thesis
    by (intro exI [of _ p] exI [of _ "(pg', st')"] exI [of _ bs']) (auto simp: pager_step_def)
qed

interpretation pgr: bump_allocator pager_step "pager_inv h pg0" is_page page_fill 24 "2 ^ 64 - 24" for h pg0
proof
  fix s n assume "pager_inv h pg0 s" and "n < 2 ^ 64 - (24 :: nat)"
  then show "\<exists>p s'. pager_step s n = Some (p, s') \<and> pager_inv h pg0 s' \<and>
      (\<forall>b. is_page s b \<longrightarrow> is_page s' b) \<and> (\<forall>b. page_fill s b \<le> page_fill s' b) \<and>
      (p = Null \<or> is_page s' (ptr_block p) \<and> 24 \<le> ptr_off p \<and> page_fill s (ptr_block p) \<le> ptr_off p \<and>
         ptr_off p + n \<le> page_fill s' (ptr_block p))"
    using pager_alloc_bumps [of h pg0 "fst s" "snd s" _ n] unfolding pager_inv_def by (cases s) fastforce
qed

subsection \<open>Releasing the arena\<close>

lemma free_pages_chain:
  assumes "chain (phdr st) prev p bs" and "\<forall>b \<in> set bs. page_ok st psz b" and "distinct bs"
  shows "\<exists>h. free_pages st p = Some (st\<lparr>pmem := h\<rparr>) \<and> (heap_ok (pmem st) \<longrightarrow> heap_ok h) \<and>
    hblk h = (\<lambda>b. if b \<in> set bs then None else hblk (pmem st) b)"
  using assms
proof (induction bs arbitrary: st prev p)
  case Nil
  then show ?case by (subst free_pages.simps) (auto intro!: exI [of _ "pmem st"])
next
  case (Cons b bs)
  then obtain pg cs where pg: "get_page st (Ptr b 0) = Some pg" "hblk (pmem st) b = Some cs"
    "chain (phdr st) (Ptr b 0) (page_next pg) bs" "p = Ptr b 0"
    by (auto simp: chain_links elim!: page_okE simp del: chain.simps)
  let ?h = "(pmem st)\<lparr>hblk := (hblk (pmem st))(b := None)\<rparr>"
  let ?st = "st\<lparr>pmem := ?h\<rparr>"
  have fr: "c_free (pmem st) (Ptr b 0) = Some ?h" using pg(2) by (simp add: c_free_def)
  have "\<exists>h. free_pages ?st (page_next pg) = Some (?st\<lparr>pmem := h\<rparr>) \<and> (heap_ok (pmem ?st) \<longrightarrow> heap_ok h) \<and>
    hblk h = (\<lambda>b. if b \<in> set bs then None else hblk (pmem ?st) b)"
    by (rule Cons.IH [where prev = "Ptr b 0"]) (use Cons.prems pg(3) in \<open>auto simp: page_ok_def\<close>)
  then obtain h where h: "free_pages ?st (page_next pg) = Some (?st\<lparr>pmem := h\<rparr>)" "heap_ok (pmem ?st) \<longrightarrow> heap_ok h"
    "hblk h = (\<lambda>c. if c \<in> set bs then None else hblk (pmem ?st) c)" by blast
  moreover have "heap_ok (pmem st) \<longrightarrow> heap_ok ?h" using heap_ok_free [OF _ fr] by blast
  ultimately show ?case using pg(1,4) fr by (subst free_pages.simps) (auto intro!: exI [of _ h])
qed

lemma pager_reset_ok:
  assumes "pager_ok st pg bs"
  obtains pg' st' where "pager_reset st pg = Some (pg', st')" and "pager_ok st' pg' []"
    and "pager_addr pg' = pager_addr pg"
    and "hblk (pmem st') = (\<lambda>b. if b \<in> set bs then None else hblk (pmem st) b)"
proof -
  have "free_pages st (pager_spare pg) = Some st"
    using assms by (subst free_pages.simps) (simp add: pager_ok_def)
  moreover obtain h where h: "free_pages st (pager_head pg) = Some (st\<lparr>pmem := h\<rparr>)"
    "heap_ok h" "hblk h = (\<lambda>b. if b \<in> set bs then None else hblk (pmem st) b)"
    using free_pages_chain [of st Null "pager_head pg" bs "pager_size pg"] assms by (auto simp: pager_ok_def)
  ultimately show ?thesis using assms
    by (intro that [of "pg\<lparr>pager_count := 0, pager_head := Null, pager_tail := Null, pager_spare := Null\<rparr>" "st\<lparr>pmem := h\<rparr>"])
      (auto simp: pager_reset_def pager_ok_def last_page_def)
qed

lemma pager_free_in:
  assumes "pager_in h pg0 (pg, st) bs" and "pager_addr pg0 = Ptr a 0" and "hblk h a \<noteq> None"
  shows "\<exists>st'. pager_free st (Some pg) = Some st' \<and> hblk (pmem st') = (hblk h)(a := None)"
proof -
  have "pager_ok st pg bs" and "pager_addr pg = Ptr a 0" using assms(1,2) by (auto simp: pager_in_def)
  then obtain pg' st' where r: "pager_reset st pg = Some (pg', st')" "pager_addr pg' = Ptr a 0"
    "hblk (pmem st') = (\<lambda>b. if b \<in> set bs then None else hblk (pmem st) b)"
    by (auto elim: pager_reset_ok)
  then have "hblk (pmem st') = hblk h"
    using assms(1) by (auto simp: pager_in_def)
  with r assms(3) show ?thesis by (auto simp: pager_free_def c_free_def)
qed

lemma pager_create_in:
  assumes "heap_ok h" and "hgrant h (hseq h) 40" and "psz < 2 ^ 63"
  obtains pg h1 where "pager_create h psz lim = (Some pg, h1)" and "pager_addr pg = Ptr (hseq h) 0"
    and "pager_size pg = psz" and "pager_limit pg = lim" and "hblk h1 (hseq h) \<noteq> None"
    and "(hblk h1)(hseq h := None) = hblk h" and "pager_in h1 pg (pg, \<lparr>pmem = h1, phdr = Map.empty\<rparr>) []"
proof -
  from assms(1,2) obtain h1 junk where m: "c_malloc h 40 = (Ptr (hseq h) 0, h1)"
    "hblk h1 = (hblk h)(hseq h \<mapsto> junk)" "heap_ok h1"
    by (metis c_malloc_granted)
  have "hblk h (hseq h) = None" using assms(1) by (simp add: heap_ok_def)
  with m assms(3) show ?thesis
    by (intro that) (auto simp: pager_create_def mempager_sizeof_def pager_in_def pager_ok_def last_page_def)
qed

text \<open>
  C6. The arena is memory safe and leaks nothing: after creating a pager, any sequence of
  allocation requests is answered, every region handed out lies behind the header of a live
  page and inside it, no two regions overlap, the pages never exceed the limit when there is
  one, and freeing the pager gives back exactly the memory the arena took.
\<close>

theorem pager_arena:
  assumes "heap_ok h" and "hgrant h (hseq h) 40" and "psz < 2 ^ 63"
    and "\<forall>n \<in> set ns. n < 2 ^ 64 - 24"
  shows "\<exists>pg h1 ps pg' st' st''. pager_create h psz lim = (Some pg, h1) \<and>
    alloc_all pager_step (pg, \<lparr>pmem = h1, phdr = Map.empty\<rparr>) ns = Some (ps, pg', st') \<and>
    length ps = length ns \<and>
    (\<forall>i < length ns. ps ! i \<noteq> Null \<longrightarrow> (\<exists>b k cs. ps ! i = Ptr b k \<and> 24 \<le> k \<and>
       hblk (pmem st') b = Some cs \<and> k + ns ! i \<le> length cs)) \<and>
    (\<forall>j < length ns. \<forall>i < j. ps ! i \<noteq> Null \<longrightarrow> ps ! j \<noteq> Null \<longrightarrow>
       ptr_block (ps ! i) = ptr_block (ps ! j) \<longrightarrow> ptr_off (ps ! i) + ns ! i \<le> ptr_off (ps ! j)) \<and>
    (lim \<noteq> 0 \<longrightarrow> pager_count pg' \<le> lim) \<and>
    pager_free st' (Some pg') = Some st'' \<and> hblk (pmem st'') = hblk h"
proof -
  from assms(1-3) obtain pg h1 where c: "pager_create h psz lim = (Some pg, h1)"
    "pager_addr pg = Ptr (hseq h) 0" "pager_limit pg = lim" "hblk h1 (hseq h) \<noteq> None"
    "(hblk h1)(hseq h := None) = hblk h" "pager_in h1 pg (pg, \<lparr>pmem = h1, phdr = Map.empty\<rparr>) []"
    by (rule pager_create_in)
  then have "pager_inv h1 pg (pg, \<lparr>pmem = h1, phdr = Map.empty\<rparr>)" by (auto simp: pager_inv_def)
  from pgr.alloc_all_regions [OF this assms(4)] obtain ps pg' st' where
    a: "alloc_all pager_step (pg, \<lparr>pmem = h1, phdr = Map.empty\<rparr>) ns = Some (ps, pg', st')"
    "pager_inv h1 pg (pg', st')" "length ps = length ns"
    and reg: "\<And>i. i < length ns \<Longrightarrow> ps ! i \<noteq> Null \<Longrightarrow> is_page (pg', st') (ptr_block (ps ! i)) \<and>
      24 \<le> ptr_off (ps ! i) \<and> ptr_off (ps ! i) + ns ! i \<le> page_fill (pg', st') (ptr_block (ps ! i))"
    and apart: "\<forall>j < length ns. \<forall>i < j. ps ! i \<noteq> Null \<longrightarrow> ps ! j \<noteq> Null \<longrightarrow>
       ptr_block (ps ! i) = ptr_block (ps ! j) \<longrightarrow> ptr_off (ps ! i) + ns ! i \<le> ptr_off (ps ! j)"
    by force
  from a(2) obtain bs where bs: "pager_in h1 pg (pg', st') bs" by (auto simp: pager_inv_def)
  then have "lim \<noteq> 0 \<longrightarrow> pager_count pg' \<le> lim"
    using c(3) by (auto simp: pager_in_def pager_ok_def word_le_nat_alt unat_of_nat
        intro: le_trans [OF take_bit_nat_less_eq_self])
  moreover obtain st'' where "pager_free st' (Some pg') = Some st''" "hblk (pmem st'') = hblk h"
    using pager_free_in [OF bs c(2,4)] c(5) by auto
  moreover have "\<exists>b k cs. ps ! i = Ptr b k \<and> 24 \<le> k \<and> hblk (pmem st') b = Some cs \<and> k + ns ! i \<le> length cs"
    if "i < length ns" "ps ! i \<noteq> Null" for i
    using reg [OF that] that(2)
    by (cases "ps ! i") (auto simp: page_fill_def is_page_def page_ok_def split: option.splits)
  ultimately show ?thesis using c(1) a(1,3) apart by blast
qed

theorem pager_arena_witness:
  "\<exists>pg h1 ps pg' st' st''. pager_create (heap_of [[7]]) 64 2 = (Some pg, h1) \<and>
    alloc_all pager_step (pg, \<lparr>pmem = h1, phdr = Map.empty\<rparr>) [30, 20, 8] = Some (ps, pg', st') \<and>
    length ps = 3 \<and> pager_count pg' \<le> 2 \<and>
    pager_free st' (Some pg') = Some st'' \<and> hblk (pmem st'') = hblk (heap_of [[7]])"
proof -
  have ns: "\<forall>n \<in> set [30, 20, 8]. n < 2 ^ 64 - (24 :: nat)" and sz: "(64 :: nat) < 2 ^ 63" by simp_all
  show ?thesis
    using pager_arena [of "heap_of [[7]]" 64 "[30, 20, 8]" 2, OF heap_ok_heap_of hgrant_heap_of sz ns]
    by (elim exE conjE)
      (intro exI conjI, assumption, assumption, simp only: list.size, simp, assumption, assumption)
qed

text \<open>
  C12. The page walk, the page request and the bookkeeping of \<^verbatim>\<open>pager_alloc\<close> together are first
  fit: on an arena whose pages are used as far as \<open>us\<close> says, the answer and the new fill are
  those of the reference allocator, null exactly when that one refuses, and no other block
  and no page's bytes change.
\<close>

theorem pager_alloc_first_fit:
  assumes "pager_ok st pg bs" and "n + 24 < 2 ^ 64"
  shows "\<exists>p pg' st' bs' r. pager_alloc st pg n = Some (p, pg', st') \<and>
    arena_alloc (pager_size pg) (unat (pager_limit pg))
      (hgrant (pmem st) (hseq (pmem st)) (pager_size pg)) n (arena st bs) = (r, arena st' bs') \<and>
    p = (case r of None \<Rightarrow> Null | Some (i, k) \<Rightarrow> Ptr (bs' ! i) k) \<and>
    pager_ok st' pg' bs' \<and> take (length bs) bs' = bs \<and>
    (\<forall>b. hblk (pmem st) b \<noteq> None \<longrightarrow> hblk (pmem st') b = hblk (pmem st) b)"
  using pager_alloc_refines [OF assms] unfolding pager_frame_def by blast

definition empty_pager :: mempager where
  "empty_pager = \<lparr>pager_addr = Ptr 0 0, pager_head = Null, pager_tail = Null, pager_spare = Null,
     pager_size = 64, pager_limit = 0, pager_count = 0\<rparr>"

theorem pager_alloc_first_fit_witness:
  "\<exists>pg' st' bs'. pager_alloc \<lparr>pmem = heap_of [], phdr = Map.empty\<rparr> empty_pager 40 =
       Some (Ptr (bs' ! 0) 24, pg', st') \<and> arena st' bs' = [64] \<and> pager_ok st' pg' bs'"
proof -
  have "pager_ok \<lparr>pmem = heap_of [], phdr = Map.empty\<rparr> empty_pager []"
    by (simp add: pager_ok_def empty_pager_def last_page_def)
  from pager_alloc_first_fit [OF this, of 40] show ?thesis
    by (auto simp: arena_alloc_def arena_def [of _ "[]"] mempage_sizeof_def empty_pager_def [THEN arg_cong [where f = pager_size]]
        empty_pager_def [THEN arg_cong [where f = pager_limit]])
qed

subsection \<open>Copies of strings\<close>

lemma pager_alloc_region:
  assumes "pager_ok st pg bs" and "n + 24 < 2 ^ 64"
  obtains p pg' st' bs' where "pager_alloc st pg n = Some (p, pg', st')" and "pager_frame st pg bs st' pg' bs'"
    and "p = Null \<or> (\<exists>b k cs. p = Ptr b k \<and> b \<in> set bs' \<and> hblk (pmem st') b = Some cs \<and> k + n \<le> length cs)"
proof -
  obtain p pg' st' bs' r where a: "pager_alloc st pg n = Some (p, pg', st')"
    and ar: "arena_alloc (pager_size pg) (unat (pager_limit pg))
      (hgrant (pmem st) (hseq (pmem st)) (pager_size pg)) n (arena st bs) = (r, arena st' bs')"
    and p: "p = (case r of None \<Rightarrow> Null | Some (i, k) \<Rightarrow> Ptr (bs' ! i) k)"
    and f: "pager_frame st pg bs st' pg' bs'"
    using pager_alloc_refines [OF assms] by auto
  have "\<exists>b k cs. p = Ptr b k \<and> b \<in> set bs' \<and> hblk (pmem st') b = Some cs \<and> k + n \<le> length cs" if "p \<noteq> Null"
  proof -
    from that p obtain i k where r: "r = Some (i, k)" "p = Ptr (bs' ! i) k" by (cases r) auto
    note s = arena_alloc_Some [OF ar [unfolded r(1)]]
    have i: "i < length bs'" using s(2) by (simp add: arena_def)
    then have "page_ok st' (pager_size pg') (bs' ! i)" using f by (auto simp: pager_frame_def pager_ok_def)
    moreover have "page_used (the (phdr st' (bs' ! i))) = k + n" using s(1) i by (simp add: arena_def)
    ultimately show ?thesis using r(2) i by (elim page_okE) auto
  qed
  with a f show ?thesis by (intro that) auto
qed

lemma pager_ok_bytes:
  assumes "pager_ok st pg bs" and "hblk (pmem st) b = Some cs" and "length ds = length cs"
  shows "pager_ok (st\<lparr>pmem := put_block (pmem st) b ds\<rparr>) pg bs"
proof -
  have "page_ok (st\<lparr>pmem := put_block (pmem st) b ds\<rparr>) psz c" if "page_ok st psz c" for psz c
    using that assms(2,3) by (auto simp: page_ok_def split: option.splits)
  moreover have "heap_ok (put_block (pmem st) b ds)"
    using assms by (auto simp: pager_ok_def intro: heap_ok_put_block heap_ok_live)
  ultimately show ?thesis using assms(1) by (auto simp: pager_ok_def)
qed

lemma length_splice:
  "length xs + 1 = m \<Longrightarrow> k + m \<le> length cs \<Longrightarrow> length (take k cs @ xs @ y # drop (k + m) cs) = length cs"
  by simp

text \<open>
  \<^verbatim>\<open>pager_strdup\<close> is memory safe and leaves the source alone, but the copy of a string that
  fits a page lacks its last character: the length passed to \<^verbatim>\<open>cpr_strcpy\<close> counts the
  terminator, which that function stores over the last character it copied. Only a string
  that has to be cut, to the page size less the header and a terminator, arrives as
  the code intends.
\<close>

theorem pager_strdup_effect:
  assumes "pager_ok st pg bs" and "26 \<le> pager_size pg" and "cstr (pmem st) p s" and "s \<noteq> []"
    and "ptr_block p \<notin> set bs"
  shows "\<exists>q pg' st' bs'. pager_strdup st pg p = Some (q, pg', st') \<and> pager_ok st' pg' bs' \<and>
    cstr (pmem st') p s \<and>
    (q = Null \<or> cstr (pmem st') q (if length s \<le> pager_size pg - 25 then butlast s
                                   else take (pager_size pg - 25) s))"
proof -
  let ?room = "pager_size pg - 25" and ?n = "min (length s) (pager_size pg - 25) + 1"
  have psz: "pager_size pg < 2 ^ 63" using assms(1) by (simp add: pager_ok_def)
  have "sz_sub (sz_sub (pager_size pg) mempage_sizeof) 1 = ?room"
    using assms(2) psz by (simp add: size_simps mempage_sizeof_def)
  then have "cpr_strlen (pmem st) p (sz_sub (sz_sub (pager_size pg) mempage_sizeof) 1) = Some (min (length s) ?room)"
    using cpr_strlen_cstr [OF assms(3)] max_absorb2 [of 1 ?room] assms(2) by (simp add: length_clip)
  moreover have "sz_add (min (length s) ?room) 1 = ?n" using psz by (simp add: size_simps)
  moreover obtain q pg' st' bs' where al: "pager_alloc st pg ?n = Some (q, pg', st')"
    and f: "pager_frame st pg bs st' pg' bs'"
    and q: "q = Null \<or> (\<exists>b k cs. q = Ptr b k \<and> b \<in> set bs' \<and> hblk (pmem st') b = Some cs \<and> k + ?n \<le> length cs)"
  proof -
    have "?n + 24 < 2 ^ 64" using psz min.cobounded2 [of "length s" ?room] by simp
    from pager_alloc_region [OF assms(1) this] that show ?thesis by blast
  qed
  ultimately have dup: "pager_strdup st pg p = (if q = Null then Some (Null, pg', st') else
      do { (_, h) \<leftarrow> cpr_strcpy (pmem st') q p ?n; Some (q, pg', st'\<lparr>pmem := h\<rparr>) })"
    by (simp add: pager_strdup_def)
  have live: "hblk (pmem st) (ptr_block p) \<noteq> None"
    using assms(3,4) cstr_nonempty [OF assms(3,4)] by (auto simp: load_def split: ptr.splits option.splits)
  then have src: "cstr (pmem st') p s" and other: "ptr_block p \<notin> set bs'"
    using f assms(3,5) cstr_same_block [OF assms(3)] by (auto simp: pager_frame_def)
  have ok: "pager_ok st' pg' bs'" using f by (simp add: pager_frame_def)
  show ?thesis
  proof (cases "q = Null")
    case True
    with dup ok src show ?thesis by auto
  next
    case False
    with q obtain b k cs where q: "q = Ptr b k" "b \<in> set bs'" "hblk (pmem st') b = Some cs" "k + ?n \<le> length cs"
      by auto
    let ?m = "min (length s) ?n" let ?txt = "butlast (take ?n s)"
    let ?pre = "take k cs" and ?post = "drop (k + ?m) cs"
    let ?h = "put_block (pmem st') b (?pre @ ?txt @ 0 # ?post)"
    have pb: "ptr_block p \<noteq> b" using q(2) other by auto
    have "hblk (pmem st') b = Some (?pre @ take ?m (drop k cs) @ ?post)"
      using q(3) by (metis split_run)
    from cpr_strcpy_block [OF src assms(4) _ this, of ?n k] q(4) pb
    have "cpr_strcpy (pmem st') (Ptr b k) p ?n = Some (Ptr b k, ?h)" by simp
    with dup q(1) have "pager_strdup st pg p = Some (q, pg', st'\<lparr>pmem := ?h\<rparr>)" by simp
    moreover have "length (?pre @ ?txt @ 0 # ?post) = length cs"
    proof -
      have "length ?txt + 1 = ?m" using assms(4) by (cases s) (auto simp: min_def)
      moreover have "k + ?m \<le> length cs" using q(4) min.cobounded2 [of "length s" ?n] by linarith
      ultimately show ?thesis by (rule length_splice)
    qed
    then have "pager_ok (st'\<lparr>pmem := ?h\<rparr>) pg' bs'" by (rule pager_ok_bytes [OF ok q(3)])
    moreover have "0 \<notin> set ?txt"
      using cstr_nonzero [OF assms(3)] by (meson in_set_butlastD in_set_takeD)
    then have "cstr ?h q ?txt" unfolding q(1) by (intro cstr_mid [where pre = ?pre and post = ?post]) (simp, use q(4) in simp, assumption)
    moreover have "cstr ?h p s" using pb by (intro cstr_same_block [OF src]) simp
    moreover have "?txt = (if length s \<le> ?room then butlast s else take ?room s)"
    proof (cases "length s \<le> ?room")
      case True
      then show ?thesis by (simp add: min_def)
    next
      case False
      then have "?n = Suc ?room" by simp
      with False show ?thesis by (simp add: butlast_take)
    qed
    ultimately show ?thesis
      by (intro exI [of _ q] exI [of _ pg'] exI [of _ "st'\<lparr>pmem := ?h\<rparr>"] exI [of _ bs']) simp
  qed
qed

theorem pager_strdup_effect_witness:
  "\<exists>q pg' st'. pager_strdup \<lparr>pmem = heap_of [str_bytes ''hello'' @ [0]], phdr = Map.empty\<rparr> empty_pager (Ptr 0 0) =
       Some (q, pg', st') \<and> (q = Null \<or> cstr (pmem st') q (str_bytes ''hell''))"
proof -
  let ?st = "\<lparr>pmem = heap_of [str_bytes ''hello'' @ [0]], phdr = Map.empty\<rparr>"
  have "pager_ok ?st empty_pager []" by (simp add: pager_ok_def empty_pager_def last_page_def)
  moreover have "cstr (pmem ?st) (Ptr 0 0) (str_bytes ''hello'')"
    by (rule cstr_mid [of _ _ "[]" _ "[]"]) (auto simp: str_bytes_def char_byte_def)
  moreover have "26 \<le> pager_size empty_pager" "str_bytes ''hello'' \<noteq> []"
    "length (str_bytes ''hello'') \<le> pager_size empty_pager - 25" "butlast (str_bytes ''hello'') = str_bytes ''hell''"
    by (simp_all add: empty_pager_def str_bytes_def)
  ultimately show ?thesis
    using pager_strdup_effect [of ?st empty_pager "[]" "Ptr 0 0" "str_bytes ''hello''"] by auto
qed

text \<open>
  C40. The size check of \<^verbatim>\<open>pager_alloc\<close> adds the header size without an overflow check: a
  request within 24 bytes of the largest \<open>size_t\<close> is granted from a page whatever the page
  size, and moves the page's fill back, so that the next allocation overlaps older ones.
\<close>

theorem pager_alloc_wraps:
  assumes "pager_ok st pg [b]" and "arena st [b] = [u]" and "0 < j" and "j \<le> 24" and "24 - j \<le> pager_size pg"
  shows "\<exists>st'. pager_alloc st pg (2 ^ 64 - j) = Some (Ptr b u, pg, st') \<and> arena st' [b] = [u - j]"
proof -
  have page: "page_ok st (pager_size pg) b" "pager_head pg = Ptr b 0" "pager_size pg < 2 ^ 63"
    using assms(1) by (auto simp: pager_ok_def chain_links simp del: chain.simps)
  from page(1) obtain hdr where hdr: "phdr st b = Some hdr" "get_page st (Ptr b 0) = Some hdr"
    "has_header st (Ptr b 0)" "24 \<le> u" "u \<le> pager_size pg" "page_used hdr = u"
    using assms(2) by (elim page_okE) (auto simp: arena_def)
  have e: "2 ^ 64 - j + 24 = (24 - j) + 2 ^ 64" "u + (2 ^ 64 - j) = (u - j) + 2 ^ 64"
    using assms(3,4) hdr(4) by auto
  have "sz_add (2 ^ 64 - j) 24 = (24 - j) mod 2 ^ 64" "sz_add u (2 ^ 64 - j) = (u - j) mod 2 ^ 64"
    by (simp_all only: sz_add_def e mod_add_self2)
  moreover have "24 - j < 2 ^ 64" "u - j < 2 ^ 64" using hdr(5) page(3) by auto
  ultimately have wrap: "sz_add (2 ^ 64 - j) 24 = 24 - j" "sz_add u (2 ^ 64 - j) = u - j"
    by (simp_all only: mod_less)
  have "find_page st (pager_size pg) (2 ^ 64 - j) (Ptr b 0) = Some (Ptr b 0)"
    using hdr wrap(2) le_trans [OF diff_le_self hdr(5)] by (subst find_page.simps) simp
  with hdr wrap page(2) assms(5) show ?thesis
    by (auto simp: pager_alloc_def mempage_sizeof_def pager_data_def take_room_def set_page_def arena_def)
qed

definition one_page :: pstate where
  "one_page = \<lparr>pmem = heap_of [replicate 64 0],
     phdr = [0 \<mapsto> \<lparr>page_next = Null, page_prev = Null, page_used = 40\<rparr>]\<rparr>"

theorem pager_alloc_wraps_witness:
  "\<exists>st'. pager_alloc one_page (empty_pager\<lparr>pager_head := Ptr 0 0, pager_tail := Ptr 0 0, pager_count := 1\<rparr>) (2 ^ 64 - 16) =
     Some (Ptr 0 40, empty_pager\<lparr>pager_head := Ptr 0 0, pager_tail := Ptr 0 0, pager_count := 1\<rparr>, st') \<and>
     arena st' [0] = [24]"
proof -
  let ?pg = "empty_pager\<lparr>pager_head := Ptr 0 0, pager_tail := Ptr 0 0, pager_count := 1\<rparr>"
  have "pager_ok one_page ?pg [0]"
    by (simp add: pager_ok_def empty_pager_def one_page_def last_page_def page_ok_def mempage_sizeof_def)
  moreover have "arena one_page [0] = [40]" by (simp add: arena_def one_page_def)
  moreover have "24 - 16 \<le> pager_size ?pg" by (simp add: empty_pager_def)
  ultimately show ?thesis using pager_alloc_wraps [of one_page ?pg 0 40 16] by (simp only:) simp
qed

end
