(* ===== verification/Strtype.thy ===== *)
theory Strtype
  imports Strchar
begin

text \<open>
  \<^verbatim>\<open>src/strtype.c\<close> and \<^verbatim>\<open>src/strtype.h\<close>: a string object with a fixed capacity. The object
  is a block of the store: two 16-bit fields, capacity and length, then the text. The
  fields are read and written as the little endian bytes they are, so that a stray write
  to the block is seen. The arithmetic follows the integer promotions: \<^verbatim>\<open>str->size - 1\<close> is
  an \<^verbatim>\<open>int\<close>, and \<open>-1\<close> for a capacity of 0, which becomes the largest \<open>size_t\<close>.

  A string of capacity at least 2 refines an abstract bounded string; the operations run
  in any order through the simulation locale below.
\<close>

definition string_sizeof :: size_t where "string_sizeof = 4"

definition str_size :: "heap \<Rightarrow> ptr \<Rightarrow> size_t option" where
  "str_size h str = map_option unat (le_get16 h str)"

definition str_used :: "heap \<Rightarrow> ptr \<Rightarrow> size_t option" where
  "str_used h str = map_option unat (le_get16 h (padd str 2))"

definition set_used :: "heap \<Rightarrow> ptr \<Rightarrow> size_t \<Rightarrow> heap option" where
  "set_used h str n = le_set16 h (padd str 2) (of_nat n)"

subsection \<open>Operations\<close>

text \<open>\<^verbatim>\<open>free_string\<close> takes the address of the variable; \<^const>\<open>None\<close> when that is null.\<close>

definition free_string :: "heap \<Rightarrow> ptr option \<Rightarrow> (ptr option \<times> heap) option" where
  "free_string h str = (case str of None \<Rightarrow> Some (None, h)
     | Some p \<Rightarrow> do { h \<leftarrow> (if p \<noteq> Null then c_free h p else Some h); Some (Some Null, h) })"

definition new_string :: "heap \<Rightarrow> size_t \<Rightarrow> (ptr \<times> heap) option" where
  "new_string h sz =
     (let (str, h) = c_malloc h (sz_add sz string_sizeof) in
        if str = Null then Some (Null, h)
        else do {
          h \<leftarrow> le_set16 h str (of_nat sz);
          h \<leftarrow> set_used h str 0;
          Some (str, h) })"

definition string_size :: "heap \<Rightarrow> ptr \<Rightarrow> size_t option" where
  "string_size h str = (if str = Null then Some 0 else str_size h str)"

definition string_get :: "ptr \<Rightarrow> ptr" where
  "string_get str = (if str = Null then Null else padd str string_sizeof)"

definition string_commit :: "heap \<Rightarrow> ptr \<Rightarrow> (size_t \<times> heap) option" where
  "string_commit h str =
     (if str = Null then Some (0, h)
      else do {
        sz \<leftarrow> str_size h str;
        n \<leftarrow> cpr_strlen h (string_get str) (sz_sub sz 1);
        h \<leftarrow> set_used h str n;
        Some (n mod 2 ^ 16, h) })"

definition string_count :: "heap \<Rightarrow> ptr \<Rightarrow> size_t option" where
  "string_count h str = (if str = Null then Some 0 else str_used h str)"

definition string_clear :: "heap \<Rightarrow> ptr \<Rightarrow> heap option" where
  "string_clear h str =
     (if str = Null then Some h else do { h \<leftarrow> set_used h str 0; store h (string_get str) 0 })"

definition string_clone :: "heap \<Rightarrow> ptr \<Rightarrow> (ptr \<times> heap) option" where
  "string_clone h str =
     (if str = Null then Some (Null, h)
      else do {
        n \<leftarrow> str_size h str;
        let n = sz_add n string_sizeof;
        let (dup, h) = c_malloc h n;
        if dup = Null then Some (Null, h)
        else do { (_, h) \<leftarrow> cpr_memcpy h dup n str n; Some (dup, h) } })"

text \<open>The loop \<^verbatim>\<open>while(len--) *(mem++) = *(val++)\<close>, which copies forwards even on overlap.\<close>

primrec copy_loop :: "heap \<Rightarrow> ptr \<Rightarrow> ptr \<Rightarrow> nat \<Rightarrow> heap option" where
  "copy_loop h mem val 0 = Some h"
| "copy_loop h mem val (Suc n) = do {
     c \<leftarrow> load h val;
     h \<leftarrow> store h mem c;
     copy_loop h (padd mem 1) (padd val 1) n }"

definition string_copy :: "heap \<Rightarrow> ptr \<Rightarrow> ptr \<Rightarrow> (ptr \<times> heap) option" where
  "string_copy h str val =
     (if str = Null then Some (Null, h)
      else do {
        sz \<leftarrow> str_size h str;
        len \<leftarrow> cpr_strlen h val (sz_sub sz 1);
        let mem = string_get str;
        h \<leftarrow> set_used h str len;
        h \<leftarrow> (if mem = val then Some h else copy_loop h mem val len);
        h \<leftarrow> store h (padd mem len) 0;
        Some (str, h) })"

definition string_append :: "heap \<Rightarrow> ptr \<Rightarrow> ptr \<Rightarrow> (ptr \<times> heap) option" where
  "string_append h str val = do {
     used \<leftarrow> str_used h str;
     sz \<leftarrow> str_size h str;
     if int used \<ge> int sz - 1 then Some (str, h)
     else do {
       let mem = padd (string_get str) used;
       let room = sz_sub (sz_sub sz used) 1;
       len \<leftarrow> cpr_strlen h val room;
       h \<leftarrow> (if len \<noteq> 0 then do { (_, h) \<leftarrow> cpr_memcpy h mem room val len; Some h } else Some h);
       h \<leftarrow> store h (padd mem len) 0;
       h \<leftarrow> set_used h str (used + len);
       Some (str, h) } }"

definition make_string :: "heap \<Rightarrow> ptr \<Rightarrow> size_t \<Rightarrow> (ptr \<times> heap) option" where
  "make_string h val lim = do {
     n \<leftarrow> cpr_strlen h val lim;
     (str, h) \<leftarrow> new_string h (sz_add n 1);
     if str = Null then Some (Null, h) else string_copy h str val }"

text \<open>The loops of \<^verbatim>\<open>string_upper\<close> and \<^verbatim>\<open>string_lower\<close>; they run to the terminator.\<close>

function recase_loop :: "(byte \<Rightarrow> byte) \<Rightarrow> heap \<Rightarrow> ptr \<Rightarrow> heap option" where
  "recase_loop f h mem = (case load h mem of None \<Rightarrow> None
     | Some c \<Rightarrow> if c = 0 then Some h
        else (case store h mem (f c) of None \<Rightarrow> None | Some h' \<Rightarrow> recase_loop f h' (padd mem 1)))"
  by pat_completeness auto
termination
  by (relation "measure (\<lambda>(f, h, p). block_rest h p)")
    (auto dest: block_rest_step simp: block_rest_store)

declare recase_loop.simps [simp del]

definition string_upper :: "heap \<Rightarrow> ptr \<Rightarrow> (ptr \<times> heap) option" where
  "string_upper h str = do { h \<leftarrow> recase_loop c_toupper h (string_get str); Some (str, h) }"

definition string_lower :: "heap \<Rightarrow> ptr \<Rightarrow> (ptr \<times> heap) option" where
  "string_lower h str = do { h \<leftarrow> recase_loop c_tolower h (string_get str); Some (str, h) }"

definition string_trim :: "heap \<Rightarrow> ptr \<Rightarrow> ptr \<Rightarrow> (ptr \<times> heap) option" where
  "string_trim h str trim =
     (if str = Null then Some (Null, h)
      else do {
        sz \<leftarrow> str_size h str;
        q \<leftarrow> cpr_strtrim h (string_get str) trim sz;
        string_copy h str q })"

definition string_chop :: "heap \<Rightarrow> ptr \<Rightarrow> ptr \<Rightarrow> (ptr \<times> heap) option" where
  "string_chop h str chop =
     (if str = Null then Some (Null, h)
      else do {
        sz \<leftarrow> str_size h str;
        (q, h) \<leftarrow> cpr_strchop h (string_get str) chop sz;
        string_copy h str q })"

definition string_tail :: "heap \<Rightarrow> ptr \<Rightarrow> size_t \<Rightarrow> (ptr \<times> heap) option" where
  "string_tail h str n =
     (if str = Null then Some (Null, h)
      else do {
        used \<leftarrow> str_used h str;
        let n = (if n > used then used else n);
        h \<leftarrow> store h (padd (string_get str) n) 0;
        h \<leftarrow> set_used h str n;
        Some (str, h) })"

definition string_head :: "heap \<Rightarrow> ptr \<Rightarrow> size_t \<Rightarrow> (ptr \<times> heap) option" where
  "string_head h str n =
     (if str = Null then Some (Null, h)
      else do {
        used \<leftarrow> str_used h str;
        let n = (if n > used then used else n);
        string_copy h str (padd (string_get str) (used - n)) })"

text \<open>
  \<^verbatim>\<open>vsscanf\<close> is a parameter, the number of conversions it makes on the text at a pointer;
  the values it stores go to the caller's variables.
\<close>

definition string_scanf :: "(heap \<Rightarrow> ptr \<Rightarrow> int option) \<Rightarrow> heap \<Rightarrow> ptr \<Rightarrow> int option" where
  "string_scanf vsscanf h str = (if str = Null then Some 0 else vsscanf h (string_get str))"

text \<open>The format and its arguments are given as the text they expand to.\<close>

definition string_printf :: "heap \<Rightarrow> ptr \<Rightarrow> byte list \<Rightarrow> bool \<Rightarrow> (int \<times> heap) option" where
  "string_printf h str expansion failed =
     (if str = Null then Some (0, h)
      else do {
        sz \<leftarrow> str_size h str;
        (out, h) \<leftarrow> c_vsnprintf h (string_get str) sz expansion failed;
        if out < 1 then do { h \<leftarrow> string_clear h str; Some (out, h) }
        else do {
          h \<leftarrow> set_used h str (nat out);
          h \<leftarrow> store h (padd (string_get str) (nat out)) 0;
          Some (out, h) } })"

subsection \<open>The object in the store\<close>

definition strblk :: "nat \<Rightarrow> nat \<Rightarrow> byte list \<Rightarrow> byte list" where
  "strblk sz u body = le_bytes (of_nat sz :: 16 word) @ le_bytes (of_nat u :: 16 word) @ body"

text \<open>\<open>string_at h b sz s\<close>: block \<open>b\<close> is a string object of capacity \<open>sz\<close> that holds \<open>s\<close>.\<close>

definition string_at :: "heap \<Rightarrow> nat \<Rightarrow> nat \<Rightarrow> byte list \<Rightarrow> bool" where
  "string_at h b sz s \<longleftrightarrow> 2 \<le> sz \<and> sz < 2 ^ 16 \<and> 0 \<notin> set s \<and>
     (\<exists>rest. hblk h b = Some (strblk sz (length s) (s @ 0 # rest)) \<and> length s + 1 + length rest = sz)"

lemma unat_16: "n < 2 ^ 16 \<Longrightarrow> unat (of_nat n :: 16 word) = n"
  by (simp add: unsigned_of_nat take_bit_nat_eq_self)

lemma length_strblk [simp]: "length (strblk sz u body) = 4 + length body"
  by (simp add: strblk_def)

lemma str_size_blk: "hblk h b = Some (strblk sz u body) \<Longrightarrow> sz < 2 ^ 16 \<Longrightarrow> str_size h (Ptr b 0) = Some sz"
  using le16.getw_reads [of h b "[]" "of_nat sz" "le_bytes (of_nat u :: 16 word) @ body"]
  by (simp add: strblk_def str_size_def unat_16)

lemma str_used_blk: "hblk h b = Some (strblk sz u body) \<Longrightarrow> u < 2 ^ 16 \<Longrightarrow> str_used h (Ptr b 0) = Some u"
  using le16.getw_reads [of h b "le_bytes (of_nat sz :: 16 word)" "of_nat u" body]
  by (simp add: strblk_def str_used_def unat_16 numeral_2_eq_2)

lemma set_used_blk:
  "hblk h b = Some (strblk sz u body) \<Longrightarrow> set_used h (Ptr b 0) n = Some (put_block h b (strblk sz n body))"
  using le16.setw_writes [of h b "le_bytes (of_nat sz :: 16 word)" "le_bytes (of_nat u :: 16 word)" body "of_nat n"]
  by (simp add: strblk_def set_used_def numeral_2_eq_2)

lemma string_get_Ptr [simp]: "string_get (Ptr b 0) = Ptr b 4"
  by (simp add: string_get_def string_sizeof_def)

lemma load_body: "hblk h b = Some (strblk sz u body) \<Longrightarrow> i < length body \<Longrightarrow> load h (Ptr b (4 + i)) = Some (body ! i)"
  by (simp add: load_Ptr) (simp add: strblk_def nth_append le_bytes_16)

lemma store_body:
  "hblk h b = Some (strblk sz u body) \<Longrightarrow> i < length body \<Longrightarrow>
   store h (Ptr b (4 + i)) v = Some (put_block h b (strblk sz u (body[i := v])))"
  by (simp add: store_Ptr) (simp add: strblk_def list_update_append le_bytes_16)

lemma cstr_body:
  "hblk h b = Some (strblk sz u (pre @ s @ 0 # rest)) \<Longrightarrow> 0 \<notin> set s \<Longrightarrow> k = 4 + length pre \<Longrightarrow> cstr h (Ptr b k) s"
  by (rule cstr_mid [where pre = "le_bytes (of_nat sz :: 16 word) @ le_bytes (of_nat u :: 16 word) @ pre"])
    (auto simp: strblk_def)

lemma string_atE:
  assumes "string_at h b sz s"
  obtains rest where "hblk h b = Some (strblk sz (length s) (s @ 0 # rest))" and "length s + 1 + length rest = sz"
    and "0 \<notin> set s" and "2 \<le> sz" and "sz < 2 ^ 16" and "length s < 2 ^ 16" and "cstr h (Ptr b 4) s"
  using assms unfolding string_at_def
  by (metis (no_types, lifting) add_lessD1 append_Nil cstr_body less_add_one list.size(3) add.right_neutral less_trans)

lemma string_atI:
  assumes "2 \<le> sz" and "sz < 2 ^ 16" and "0 \<notin> set s"
    and "hblk h b = Some (strblk sz (length s) body)" and "length body = sz"
    and "take (length s + 1) body = s @ [0]"
  shows "string_at h b sz s"
proof -
  have "body = s @ 0 # drop (length s + 1) body"
    using assms(6) by (metis append.assoc append_Cons append_Nil append_take_drop_id)
  moreover have "length (take (length s + 1) body) = length s + 1" using assms(6) by simp
  then have "length s + 1 \<le> length body" by simp
  ultimately show ?thesis using assms unfolding string_at_def
    by (intro conjI exI [of _ "drop (length s + 1) body"]) auto
qed

subsection \<open>Copying into the object\<close>

lemma copy_loop_other:
  assumes "load_list h v n = Some cs" and "ptr_block v \<noteq> b" and "v \<noteq> Null"
    and "hblk h b = Some (pre @ old @ post)" and "length pre = k" and "length old = n"
  shows "copy_loop h (Ptr b k) v n = Some (put_block h b (pre @ cs @ post))"
  using assms
proof (induction n arbitrary: h v cs pre old k)
  case (Suc n)
  then obtain c cs' where c: "load h v = Some c" "load_list h (padd v 1) n = Some cs'" "cs = c # cs'"
    by (auto simp: bind_eq_Some_conv)
  obtain x old' where old: "old = x # old'" "length old' = n" using Suc.prems(6) by (cases old) auto
  let ?h = "put_block h b ((pre @ [c]) @ old' @ post)"
  have st: "store h (Ptr b k) c = Some ?h" using Suc.prems old by (auto simp: mem_simps)
  obtain d j where v: "v = Ptr d j" using Suc.prems(3) by (cases v) auto
  have same: "load_list ?h (Ptr d i) m = load_list h (Ptr d i) m" for i m
    using Suc.prems(2) v by (induction m arbitrary: i) (auto simp: load_def)
  have "copy_loop ?h (Ptr b (k + 1)) (padd v 1) n = Some (put_block ?h b ((pre @ [c]) @ cs' @ post))"
    by (rule Suc.IH [of _ _ _ _ old']) (use c(2) v same Suc.prems old in auto)
  with c(1,3) st show ?case by simp
qed simp

text \<open>Moving a run of bytes down over a gap in the same block.\<close>

lemma copy_loop_down:
  assumes "hblk h b = Some (pre @ gap @ cs @ post)" and "length pre = k"
  shows "copy_loop h (Ptr b k) (Ptr b (k + length gap)) (length cs) =
    Some (put_block h b (pre @ cs @ drop (length cs) (gap @ cs) @ post))"
  using assms
proof (induction cs arbitrary: h pre gap k)
  case (Cons c cs)
  let ?gap = "(if gap = [] then [] else tl gap @ [c])"
  let ?h = "put_block h b ((pre @ [c]) @ ?gap @ cs @ post)"
  have "load h (Ptr b (k + length gap)) = Some c" using Cons.prems by (simp add: load_Ptr nth_append)
  moreover have "store h (Ptr b k) c = Some ?h"
    using Cons.prems by (cases gap) (auto simp: store_Ptr list_update_append)
  moreover have "copy_loop ?h (Ptr b (k + 1)) (Ptr b (k + 1 + length ?gap)) (length cs) =
      Some (put_block ?h b ((pre @ [c]) @ cs @ drop (length cs) (?gap @ cs) @ post))"
    by (rule Cons.IH) (use Cons.prems in auto)
  moreover have "k + 1 + length ?gap = k + length gap + 1" by (cases gap) auto
  ultimately show ?case by (cases gap) auto
qed simp

text \<open>What a call on the object may change: the block of the object.\<close>

definition only_block :: "nat \<Rightarrow> heap \<Rightarrow> heap \<Rightarrow> bool" where
  "only_block b h h' \<longleftrightarrow> (\<forall>c. c \<noteq> b \<longrightarrow> hblk h' c = hblk h c)"

lemma only_block_refl [simp]: "only_block b h h"
  by (simp add: only_block_def)

lemma only_block_put [simp]: "only_block b h (put_block h' b bs) \<longleftrightarrow> only_block b h h'"
  by (auto simp: only_block_def)

lemma only_block_trans: "only_block b h h' \<Longrightarrow> only_block b h' h'' \<Longrightarrow> only_block b h h''"
  by (simp add: only_block_def)

lemma terminate_body:
  assumes "hblk h b = Some (strblk sz (length t) body)" and "length body = sz" and "take (length t) body = t"
    and "length t < sz" and "0 \<notin> set t" and "2 \<le> sz" and "sz < 2 ^ 16"
  obtains h' where "store h (Ptr b (4 + length t)) 0 = Some h'" and "string_at h' b sz t" and "only_block b h h'"
proof -
  have st: "store h (Ptr b (4 + length t)) 0 = Some (put_block h b (strblk sz (length t) (body[length t := 0])))"
    using store_body [OF assms(1)] assms(2,4) by simp
  moreover have "string_at (put_block h b (strblk sz (length t) (body[length t := 0]))) b sz t"
    using assms by (intro string_atI [where body = "body[length t := 0]"])
      (auto simp: take_Suc_conv_app_nth)
  ultimately show ?thesis by (intro that) auto
qed

lemma load_list_take: "cstr h p s \<Longrightarrow> load_list h p (length (take n s)) = Some (take n s)"
  using load_list_cstr [of h p s "length (take n s)"] by (simp add: min_def)

lemma string_copy_blk:
  assumes blk: "hblk h b = Some (strblk sz u0 old)" and "cstr h v t" and lb: "length old = sz"
    and s: "2 \<le> sz" "sz < 2 ^ 16"
    and "ptr_block v \<noteq> b \<or> (\<exists>gap rest. v = Ptr b (4 + length gap) \<and> old = gap @ t @ 0 # rest)"
  obtains h' where "string_copy h (Ptr b 0) v = Some (Ptr b 0, h')"
    and "string_at h' b sz (take (sz - 1) t)" and "only_block b h h'"
proof -
  define u where "u = take (sz - 1) t"
  have n: "length u < sz" "0 \<notin> set u" using s cstr_nonzero [OF assms(2)] by (auto simp: u_def dest: in_set_takeD)
  have "clip (sz_sub sz 1) t = u" using s max_absorb2 [of 1 "sz - 1"] by (simp add: clip_def size_simps u_def)
  then have strlen: "cpr_strlen h v (sz_sub sz 1) = Some (length u)" using cpr_strlen_cstr [OF assms(2)] by simp
  let ?h = "put_block h b (strblk sz (length u) old)"
  have used: "set_used h (Ptr b 0) (length u) = Some ?h" by (rule set_used_blk [OF blk])
  let ?hdr = "le_bytes (of_nat sz :: 16 word) @ le_bytes (of_nat (length u) :: 16 word)"
  have "\<exists>body. (if Ptr b 4 = v then Some ?h else copy_loop ?h (Ptr b 4) v (length u)) =
      Some (put_block h b (strblk sz (length u) body)) \<and> length body = sz \<and> take (length u) body = u"
  proof (cases "ptr_block v = b")
    case False
    let ?body' = "u @ drop (length u) old"
    have "load_list h v (length u) = Some u" unfolding u_def by (rule load_list_take [OF assms(2)])
    moreover have "load_list ?h v m = load_list h v m" for m
      using False by (induction m arbitrary: v) (auto simp: load_def padd_def split: ptr.splits)
    moreover have "hblk ?h b = Some (?hdr @ take (length u) old @ drop (length u) old)"
      by (simp only: strblk_def append_assoc append_take_drop_id hblk_put_block fun_upd_same)
    moreover have "length (take (length u) old) = length u" using n(1) lb by (simp only: length_take min_absorb2 less_imp_le)
    ultimately have "copy_loop ?h (Ptr b 4) v (length u) = Some (put_block ?h b (?hdr @ ?body'))"
      using False cstr_not_Null [OF assms(2)]
      by (intro copy_loop_other [where old = "take (length u) old"]) simp_all
    then show ?thesis using False n lb by (intro exI [of _ ?body']) (auto simp: strblk_def)
  next
    case True
    then obtain gap rest where gap: "v = Ptr b (4 + length gap)" "old = gap @ t @ 0 # rest" using assms(6) by blast
    then have t: "u = t" using lb by (simp add: u_def)
    show ?thesis
    proof (cases "gap = []")
      case True
      with gap t lb show ?thesis by (intro exI [of _ old]) auto
    next
      case False
      have "hblk ?h b = Some (?hdr @ gap @ t @ 0 # rest)" using gap by (simp add: strblk_def)
      from copy_loop_down [OF this, of 4] t
      have "copy_loop ?h (Ptr b 4) v (length u) =
          Some (put_block ?h b (?hdr @ t @ drop (length t) (gap @ t) @ 0 # rest))"
        by (simp add: gap(1))
      with False gap t lb show ?thesis
        by (intro exI [of _ "t @ drop (length t) (gap @ t) @ 0 # rest"]) (auto simp: strblk_def)
    qed
  qed
  then obtain body where copied: "(if Ptr b 4 = v then Some ?h else copy_loop ?h (Ptr b 4) v (length u)) =
      Some (put_block h b (strblk sz (length u) body))" and b: "length body = sz" "take (length u) body = u"
    by blast
  have "hblk (put_block h b (strblk sz (length u) body)) b = Some (strblk sz (length u) body)" by simp
  from terminate_body [OF this b n s] obtain h' where
    "store (put_block h b (strblk sz (length u) body)) (Ptr b (4 + length u)) 0 = Some h'" "string_at h' b sz u"
    "only_block b (put_block h b (strblk sz (length u) body)) h'" .
  moreover from this have "string_copy h (Ptr b 0) v = Some (Ptr b 0, h')"
    using str_size_blk [OF blk s(2)] strlen used copied by (simp add: string_copy_def Let_def)
  ultimately show ?thesis by (intro that) (auto simp: only_block_def u_def)
qed

lemma string_copy_from:
  assumes "string_at h b sz s" and "cstr h v t"
    and "ptr_block v \<noteq> b \<or> (\<exists>gap. v = Ptr b (4 + length gap) \<and> s = gap @ t)"
  obtains h' where "string_copy h (Ptr b 0) v = Some (Ptr b 0, h')"
    and "string_at h' b sz (take (sz - 1) t)" and "only_block b h h'"
  using assms(1)
proof (rule string_atE)
  fix rest assume "hblk h b = Some (strblk sz (length s) (s @ 0 # rest))" "length s + 1 + length rest = sz"
    "2 \<le> sz" "sz < 2 ^ 16"
  moreover from this assms(3) have "ptr_block v \<noteq> b \<or>
      (\<exists>gap rs. v = Ptr b (4 + length gap) \<and> s @ 0 # rest = gap @ t @ 0 # rs)" by auto
  ultimately show ?thesis using assms(2) that string_copy_blk [of h b sz "length s" "s @ 0 # rest" v t] by auto
qed

subsection \<open>The other operations\<close>

lemma string_clear_at:
  assumes "hblk h b = Some (strblk sz u body)" and "length body = sz" and "2 \<le> sz" and "sz < 2 ^ 16"
  obtains h' where "string_clear h (Ptr b 0) = Some h'" and "string_at h' b sz []" and "only_block b h h'"
proof -
  have u: "set_used h (Ptr b 0) 0 = Some (put_block h b (strblk sz 0 body))" by (rule set_used_blk [OF assms(1)])
  obtain h' where "store (put_block h b (strblk sz 0 body)) (Ptr b (4 + length ([] :: byte list))) 0 = Some h'"
    "string_at h' b sz []" "only_block b (put_block h b (strblk sz 0 body)) h'"
    by (rule terminate_body [of "put_block h b (strblk sz 0 body)" b sz "[]" body]) (use assms in auto)
  with u show ?thesis by (intro that) (auto simp: string_clear_def only_block_def)
qed

lemma string_commit_at:
  assumes "string_at h b sz s"
  shows "string_commit h (Ptr b 0) = Some (length s, h)"
proof -
  obtain rest where blk: "hblk h b = Some (strblk sz (length s) (s @ 0 # rest))" and s: "length s + 1 + length rest = sz"
    "2 \<le> sz" "sz < 2 ^ 16" and c: "cstr h (Ptr b 4) s"
    using assms by (rule string_atE)
  have "clip (sz_sub sz 1) s = s" using s by (intro clip_pred) auto
  then have "cpr_strlen h (Ptr b 4) (sz_sub sz 1) = Some (length s)" using cpr_strlen_cstr [OF c] by simp
  moreover have "set_used h (Ptr b 0) (length s) = Some h" using set_used_blk [OF blk] blk by simp
  ultimately show ?thesis using str_size_blk [OF blk s(3)] s by (simp add: string_commit_def)
qed

lemma string_append_at:
  assumes "string_at h b sz s" and "cstr h v t" and "ptr_block v \<noteq> b"
  obtains h' where "string_append h (Ptr b 0) v = Some (Ptr b 0, h')"
    and "string_at h' b sz (s @ take (sz - 1 - length s) t)" and "only_block b h h'"
proof -
  obtain rest where blk: "hblk h b = Some (strblk sz (length s) (s @ 0 # rest))" and s: "length s + 1 + length rest = sz"
    "0 \<notin> set s" "2 \<le> sz" "sz < 2 ^ 16" "length s < 2 ^ 16"
    using assms(1) by (rule string_atE)
  have f: "str_size h (Ptr b 0) = Some sz" "str_used h (Ptr b 0) = Some (length s)"
    using str_size_blk [OF blk] str_used_blk [OF blk] s by auto
  show ?thesis
  proof (cases "rest = []")
    case True
    with f s have "string_append h (Ptr b 0) v = Some (Ptr b 0, h)" by (auto simp: string_append_def)
    with True s assms(1) show ?thesis by (intro that) auto
  next
    case False
    define r u where "r = sz - 1 - length s" and "u = take r t"
    have room: "r = length rest" "0 < r" using False s by (auto simp: r_def)
    have sub: "sz_sub (sz_sub sz (length s)) 1 = r" using s by (simp add: size_simps r_def)
    have "clip r t = u" using max_absorb2 [of 1 r] room(2) by (simp add: clip_def u_def)
    then have strlen: "cpr_strlen h v r = Some (length u)" using cpr_strlen_cstr [OF assms(2)] by simp
    have v: "v \<noteq> Null" by (rule cstr_not_Null [OF assms(2)])
    have nz: "0 \<notin> set (s @ u)" using s(2) cstr_nonzero [OF assms(2)] by (auto simp: u_def dest: in_set_takeD)
    let ?old = "take (length u) (0 # rest)" and ?new = "drop (length u) (0 # rest)"
    let ?body = "s @ u @ ?new" let ?h = "put_block h b (strblk sz (length s) ?body)"
    let ?hdr = "le_bytes (of_nat sz :: 16 word) @ le_bytes (of_nat (length s) :: 16 word)"
    have blk': "hblk h b = Some ((?hdr @ s) @ ?old @ ?new)"
      using blk by (simp only: strblk_def append_assoc append_take_drop_id)
    have len': "length ?old = length u" "length (?hdr @ s) = 4 + length s" using room by (auto simp: u_def)
    have apart: "\<not> ranges_overlap (Ptr b (4 + length s)) v (length u)" using v assms(3) by (cases v) auto
    have "cpr_memcpy h (Ptr b (4 + length s)) r v (length u) = Some (True, put_block h b ((?hdr @ s) @ u @ ?new))"
      by (rule cpr_memcpy_mid [OF load_list_take [OF assms(2), of r, folded u_def] blk' len'(1) _ len'(2) apart v]) (simp add: u_def)
    then have cp: "(if length u \<noteq> 0 then do { (_, h) \<leftarrow> cpr_memcpy h (Ptr b (4 + length s)) r v (length u); Some h }
        else Some h) = Some ?h"
      using blk by (auto simp: strblk_def)
    let ?z = "?body[length (s @ u) := 0]"
    have len: "length ?body = sz" using s room by (auto simp: u_def)
    have lt: "length (s @ u) < sz" using s room by (auto simp: u_def)
    have st: "store ?h (Ptr b (4 + length (s @ u))) 0 = Some (put_block h b (strblk sz (length s) ?z))"
      using store_body [of ?h b sz "length s" ?body "length (s @ u)" 0] len lt by simp
    let ?h' = "put_block h b (strblk sz (length (s @ u)) ?z)"
    have us: "set_used (put_block h b (strblk sz (length s) ?z)) (Ptr b 0) (length (s @ u)) = Some ?h'"
      by (subst set_used_blk [where sz = sz and u = "length s" and body = ?z]) auto
    have guard: "\<not> int (length s) \<ge> int sz - 1" using s False by (cases rest) auto
    have "string_append h (Ptr b 0) v = Some (Ptr b 0, ?h')"
      unfolding string_append_def using f guard sub strlen cp st us
      by (simp add: Let_def del: list_update.simps) (simp add: add.assoc)
    moreover have "string_at ?h' b sz (s @ u)"
      using s nz len lt by (intro string_atI [where body = ?z]) (auto simp: take_Suc_conv_app_nth nth_append)
    ultimately show ?thesis by (intro that) (auto simp: u_def r_def)
  qed
qed

lemma recase_loop_mid:
  assumes "hblk h b = Some (pre @ s @ 0 # post)" and "length pre = k" and "0 \<notin> set s"
  shows "recase_loop f h (Ptr b k) = Some (put_block h b (pre @ map f s @ 0 # post))"
  using assms
proof (induction s arbitrary: h pre k)
  case Nil
  then show ?case by (subst recase_loop.simps) (auto simp: mem_simps)
next
  case (Cons c s)
  let ?h = "put_block h b ((pre @ [f c]) @ s @ 0 # post)"
  have "load h (Ptr b k) = Some c" "store h (Ptr b k) (f c) = Some ?h" using Cons.prems by (auto simp: mem_simps)
  moreover have "recase_loop f ?h (Ptr b (k + 1)) = Some (put_block ?h b ((pre @ [f c]) @ map f s @ 0 # post))"
    by (rule Cons.IH) (use Cons.prems in auto)
  ultimately show ?case using Cons.prems(3) by (subst recase_loop.simps) auto
qed

lemma recase_at:
  assumes "string_at h b sz s" and "\<And>c. c \<noteq> 0 \<Longrightarrow> f c \<noteq> 0"
  obtains h' where "recase_loop f h (Ptr b 4) = Some h'" and "string_at h' b sz (map f s)" and "only_block b h h'"
proof -
  obtain rest where blk: "hblk h b = Some (strblk sz (length s) (s @ 0 # rest))" and s: "length s + 1 + length rest = sz"
    "0 \<notin> set s" "2 \<le> sz" "sz < 2 ^ 16"
    using assms(1) by (rule string_atE)
  let ?hdr = "le_bytes (of_nat sz :: 16 word) @ le_bytes (of_nat (length s) :: 16 word)"
  have "hblk h b = Some (?hdr @ s @ 0 # rest)" using blk by (simp add: strblk_def)
  from recase_loop_mid [OF this _ s(2), of 4 f]
  have "recase_loop f h (Ptr b 4) = Some (put_block h b (strblk sz (length (map f s)) (map f s @ 0 # rest)))"
    by (simp add: strblk_def)
  moreover have "0 \<notin> set (map f s)" using s(2) assms(2) by (auto simp: image_iff) metis
  ultimately show ?thesis using s by (intro that) (auto simp: string_at_def)
qed

lemma string_tail_at:
  assumes "string_at h b sz s"
  obtains h' where "string_tail h (Ptr b 0) n = Some (Ptr b 0, h')" and "string_at h' b sz (take n s)" and "only_block b h h'"
proof -
  obtain rest where blk: "hblk h b = Some (strblk sz (length s) (s @ 0 # rest))" and s: "length s + 1 + length rest = sz"
    "0 \<notin> set s" "2 \<le> sz" "sz < 2 ^ 16" "length s < 2 ^ 16"
    using assms(1) by (rule string_atE)
  let ?n = "if n > length s then length s else n" let ?z = "(s @ 0 # rest)[?n := 0]"
  have n: "?n = length (take n s)" by auto
  have "store h (Ptr b (4 + ?n)) 0 = Some (put_block h b (strblk sz (length s) ?z))"
    by (rule store_body [OF blk]) auto
  moreover have "set_used (put_block h b (strblk sz (length s) ?z)) (Ptr b 0) ?n = Some (put_block h b (strblk sz ?n ?z))"
    by (subst set_used_blk [where sz = sz and u = "length s" and body = ?z]) auto
  ultimately have "string_tail h (Ptr b 0) n = Some (Ptr b 0, put_block h b (strblk sz ?n ?z))"
    using str_used_blk [OF blk s(5)] by (simp add: string_tail_def Let_def)
  moreover have "string_at (put_block h b (strblk sz ?n ?z)) b sz (take n s)"
    using s by (intro string_atI [where body = ?z])
      (auto simp: take_Suc_conv_app_nth list_update_append nth_append dest: in_set_takeD)
  ultimately show ?thesis by (intro that) auto
qed

lemma cstr_suffix:
  "hblk h b = Some (strblk sz u (s @ 0 # rest)) \<Longrightarrow> s = gap @ t \<Longrightarrow> 0 \<notin> set s \<Longrightarrow>
   cstr h (Ptr b (4 + length gap)) t"
  by (rule cstr_body [where pre = gap and rest = rest]) auto

lemma takeWhile_False [simp]: "takeWhile (\<lambda>c. False) xs = []"
  by (cases xs) auto

lemma length_span: "length (takeWhile P xs) + length (dropWhile P xs) = length xs"
  by (induction xs) auto

lemma string_trim_at:
  assumes "string_at h b sz s" and "cstr h ls l" and "ptr_block ls \<noteq> b"
  obtains h' where "string_trim h (Ptr b 0) ls = Some (Ptr b 0, h')"
    and "string_at h' b sz (dropWhile (\<lambda>c. c \<in> set l) s)" and "only_block b h h'"
proof -
  obtain rest where blk: "hblk h b = Some (strblk sz (length s) (s @ 0 # rest))" and s: "length s + 1 + length rest = sz"
    "0 \<notin> set s" "2 \<le> sz" "sz < 2 ^ 16" and c: "cstr h (Ptr b 4) s"
    using assms(1) by (rule string_atE)
  let ?gap = "takeWhile (\<lambda>c. c \<in> set l) s" and ?t = "dropWhile (\<lambda>c. c \<in> set l) s"
  have "clip (sz_sub sz 1) s = s" using s by (intro clip_pred) auto
  then have "cpr_strlen h (Ptr b 4) (sz_sub sz 1) = Some (length s)" using cpr_strlen_cstr [OF c] by simp
  moreover have "strtrim_loop h (Ptr b 4) ls (length s) = Some (Ptr b (4 + length ?gap))"
    using strtrim_loop_cstr [OF assms(2) c, of "length s"] by simp
  ultimately have q: "cpr_strtrim h (Ptr b 4) ls sz = Some (Ptr b (4 + length ?gap))"
    using cstr_not_Null [OF assms(2)] assms(2) by (cases l) (auto simp: cpr_strtrim_def takeWhile_eq_Nil_iff)
  have t: "cstr h (Ptr b (4 + length ?gap)) ?t"
    by (rule cstr_suffix [OF blk _ s(2)]) simp
  have "take (sz - 1) ?t = ?t" using s length_dropWhile_le [of "\<lambda>c. c \<in> set l" s] by simp
  with string_copy_from [OF assms(1) t] obtain h' where "string_copy h (Ptr b 0) (Ptr b (4 + length ?gap)) = Some (Ptr b 0, h')"
    "string_at h' b sz ?t" "only_block b h h'"
    by (metis takeWhile_dropWhile_id)
  then show ?thesis using q str_size_blk [OF blk s(4)] by (intro that) (auto simp: string_trim_def)
qed

lemma string_chop_at:
  assumes "string_at h b sz s" and "cstr h ls l" and "ptr_block ls \<noteq> b"
  obtains h' where "string_chop h (Ptr b 0) ls = Some (Ptr b 0, h')"
    and "string_at h' b sz (rev (dropWhile (\<lambda>c. c \<in> set l) (rev s)))" and "only_block b h h'"
proof -
  obtain rest where blk: "hblk h b = Some (strblk sz (length s) (s @ 0 # rest))" and s: "length s + 1 + length rest = sz"
    "0 \<notin> set s" "2 \<le> sz" "sz < 2 ^ 16" and c: "cstr h (Ptr b 4) s"
    using assms(1) by (rule string_atE)
  define t where "t = rev (dropWhile (\<lambda>c. c \<in> set l) (rev s))"
  define m where "m = length (takeWhile (\<lambda>c. c \<in> set l) (rev s))"
  let ?hdr = "le_bytes (of_nat sz :: 16 word) @ le_bytes (of_nat (length s) :: 16 word)"
  let ?h = "put_block h b (strblk sz (length s) (t @ 0 # replicate m 0 @ rest))"
  have lt: "length t + m = length s"
    using length_span [of "\<lambda>c. c \<in> set l" "rev s"] by (simp add: t_def m_def)
  have "clip (sz_sub sz 1) s = s" using s by (intro clip_pred) auto
  then have "cpr_strlen h (Ptr b 4) (sz_sub sz 1) = Some (length s)" using cpr_strlen_cstr [OF c] by simp
  moreover have "hblk h b = Some (?hdr @ s @ 0 # rest)" using blk by (simp add: strblk_def)
  then have "strchop_loop h (Ptr b 4) ls (length s) = Some ?h"
    using strchop_loop_block [OF assms(2,3) _ _ s(2), of ?hdr "0 # rest" 4]
    by (simp add: strblk_def t_def m_def replicate_app_Cons_same)
  ultimately have q: "cpr_strchop h (Ptr b 4) ls sz = Some (Ptr b 4, ?h)"
    using cstr_not_Null [OF assms(2)] assms(2) blk by (cases l) (auto simp: cpr_strchop_def t_def m_def dropWhile_eq_self_iff takeWhile_eq_Nil_iff)
  have nz: "0 \<notin> set t" using s(2) by (auto simp: t_def dest: set_dropWhileD)
  have blk': "hblk ?h b = Some (strblk sz (length s) (t @ 0 # replicate m 0 @ rest))" by simp
  have t: "cstr ?h (Ptr b 4) t"
    using nz by (intro cstr_body [where pre = "[]" and rest = "replicate m 0 @ rest"]) auto
  have len: "length (t @ 0 # replicate m 0 @ rest) = sz" using lt s(1) by simp
  have "ptr_block (Ptr b 4) \<noteq> b \<or>
      (\<exists>gap rs. Ptr b 4 = Ptr b (4 + length gap) \<and> t @ 0 # replicate m 0 @ rest = gap @ t @ 0 # rs)" by auto
  with string_copy_blk [OF blk' t len s(3,4)] obtain h' where h': "string_copy ?h (Ptr b 0) (Ptr b 4) = Some (Ptr b 0, h')"
    "string_at h' b sz (take (sz - 1) t)" "only_block b ?h h'" by blast
  moreover have "take (sz - 1) t = t" using lt s(1) by simp
  ultimately show ?thesis using q str_size_blk [OF blk s(4)]
    by (intro that) (auto simp: string_chop_def t_def only_block_def)
qed

lemma string_head_at:
  assumes "string_at h b sz s"
  obtains h' where "string_head h (Ptr b 0) n = Some (Ptr b 0, h')"
    and "string_at h' b sz (drop (length s - n) s)" and "only_block b h h'"
proof -
  obtain rest where blk: "hblk h b = Some (strblk sz (length s) (s @ 0 # rest))" and s: "length s + 1 + length rest = sz"
    "0 \<notin> set s" "2 \<le> sz" "sz < 2 ^ 16" "length s < 2 ^ 16"
    using assms(1) by (rule string_atE)
  let ?k = "length s - n" let ?gap = "take ?k s" and ?t = "drop ?k s"
  have k: "length s - (if length s < n then length s else n) = ?k" "4 + length ?gap = 4 + ?k" by auto
  have t: "cstr h (Ptr b (4 + ?k)) ?t"
    using cstr_suffix [OF blk _ s(2), of ?gap ?t] by simp
  have "ptr_block (Ptr b (4 + ?k)) \<noteq> b \<or> (\<exists>gap. Ptr b (4 + ?k) = Ptr b (4 + length gap) \<and> s = gap @ ?t)"
    by (intro disjI2 exI [of _ ?gap]) simp
  with string_copy_from [OF assms(1) t] obtain h' where "string_copy h (Ptr b 0) (Ptr b (4 + ?k)) = Some (Ptr b 0, h')"
    "string_at h' b sz (take (sz - 1) ?t)" "only_block b h h'" by blast
  moreover have "take (sz - 1) ?t = ?t" using s by simp
  ultimately show ?thesis using str_used_blk [OF blk s(5)] k(1) by (intro that) (auto simp: string_head_def Let_def)
qed

subsection \<open>The object as a bounded string\<close>

datatype str_op =
  Clear | Commit | Copy ptr "byte list" | Append ptr "byte list" | Upper | Lower
| Trim ptr "byte list" | Chop ptr "byte list" | Tail nat | Head nat

text \<open>A call on the object at \<open>p\<close>; the second argument of an operation is the text at its pointer.\<close>

primrec str_step :: "ptr \<Rightarrow> str_op \<Rightarrow> heap \<Rightarrow> heap option" where
  "str_step p Clear h = string_clear h p"
| "str_step p Commit h = map_option snd (string_commit h p)"
| "str_step p (Copy v t) h = map_option snd (string_copy h p v)"
| "str_step p (Append v t) h = map_option snd (string_append h p v)"
| "str_step p Upper h = map_option snd (string_upper h p)"
| "str_step p Lower h = map_option snd (string_lower h p)"
| "str_step p (Trim v t) h = map_option snd (string_trim h p v)"
| "str_step p (Chop v t) h = map_option snd (string_chop h p v)"
| "str_step p (Tail n) h = map_option snd (string_tail h p n)"
| "str_step p (Head n) h = map_option snd (string_head h p n)"

text \<open>What the call means for the text of a string of capacity \<open>sz\<close>.\<close>

primrec str_spec :: "nat \<Rightarrow> str_op \<Rightarrow> byte list \<Rightarrow> byte list" where
  "str_spec sz Clear s = []"
| "str_spec sz Commit s = s"
| "str_spec sz (Copy v t) s = take (sz - 1) t"
| "str_spec sz (Append v t) s = s @ take (sz - 1 - length s) t"
| "str_spec sz Upper s = map c_toupper s"
| "str_spec sz Lower s = map c_tolower s"
| "str_spec sz (Trim v l) s = dropWhile (\<lambda>c. c \<in> set l) s"
| "str_spec sz (Chop v l) s = rev (dropWhile (\<lambda>c. c \<in> set l) (rev s))"
| "str_spec sz (Tail n) s = take n s"
| "str_spec sz (Head n) s = drop (length s - n) s"

primrec str_arg :: "heap \<Rightarrow> nat \<Rightarrow> str_op \<Rightarrow> bool" where
  "str_arg h b Clear = True"
| "str_arg h b Commit = True"
| "str_arg h b (Copy v t) = (cstr h v t \<and> ptr_block v \<noteq> b)"
| "str_arg h b (Append v t) = (cstr h v t \<and> ptr_block v \<noteq> b)"
| "str_arg h b Upper = True"
| "str_arg h b Lower = True"
| "str_arg h b (Trim v t) = (cstr h v t \<and> ptr_block v \<noteq> b)"
| "str_arg h b (Chop v t) = (cstr h v t \<and> ptr_block v \<noteq> b)"
| "str_arg h b (Tail n) = True"
| "str_arg h b (Head n) = True"

text \<open>The object represents \<open>s\<close>, in a store whose other blocks are those of \<open>h0\<close>.\<close>

definition str_rel :: "heap \<Rightarrow> nat \<Rightarrow> nat \<Rightarrow> heap \<Rightarrow> byte list \<Rightarrow> bool" where
  "str_rel h0 b sz h s \<longleftrightarrow> string_at h b sz s \<and> only_block b h0 h"

lemma cstr_only_block: "cstr h0 v t \<Longrightarrow> ptr_block v \<noteq> b \<Longrightarrow> only_block b h0 h \<Longrightarrow> cstr h v t"
  by (auto simp: only_block_def intro: cstr_same_block)

interpretation bstr: simulates "str_step (Ptr b 0)" "str_spec sz" "str_rel h0 b sz" "str_arg h0 b" for h0 b sz
proof
  fix h s x assume r: "str_rel h0 b sz h s" and a: "str_arg h0 b x"
  then have at: "string_at h b sz s" and f: "only_block b h0 h" by (auto simp: str_rel_def)
  have arg: "cstr h v t" if "cstr h0 v t" "ptr_block v \<noteq> b" for v t
    using that f by (rule cstr_only_block)
  have "\<exists>h'. str_step (Ptr b 0) x h = Some h' \<and> string_at h' b sz (str_spec sz x s) \<and> only_block b h h'"
  proof (cases x)
    case Clear
    from at obtain rest where "hblk h b = Some (strblk sz (length s) (s @ 0 # rest))"
      "length s + 1 + length rest = sz" "2 \<le> sz" "sz < 2 ^ 16" by (rule string_atE)
    then show ?thesis using Clear string_clear_at [of h b sz "length s" "s @ 0 # rest"] by auto
  next
    case Commit
    with at show ?thesis by (auto simp: string_commit_at)
  next
    case (Copy v t)
    with a have "cstr h v t" "ptr_block v \<noteq> b" using arg by auto
    then obtain h' where "string_copy h (Ptr b 0) v = Some (Ptr b 0, h')"
      "string_at h' b sz (take (sz - 1) t)" "only_block b h h'"
      using string_copy_from [OF at] by blast
    with Copy show ?thesis by auto
  next
    case (Append v t)
    with a have "cstr h v t" "ptr_block v \<noteq> b" using arg by auto
    with at obtain h' where "string_append h (Ptr b 0) v = Some (Ptr b 0, h')"
      "string_at h' b sz (s @ take (sz - 1 - length s) t)" "only_block b h h'" by (rule string_append_at)
    with Append show ?thesis by auto
  next
    case Upper
    from recase_at [OF at, of c_toupper] c_toupper_nonzero obtain h' where "recase_loop c_toupper h (Ptr b 4) = Some h'"
      "string_at h' b sz (map c_toupper s)" "only_block b h h'" by blast
    with Upper show ?thesis by (auto simp: string_upper_def)
  next
    case Lower
    from recase_at [OF at, of c_tolower] lowdup.f_nonzero obtain h' where "recase_loop c_tolower h (Ptr b 4) = Some h'"
      "string_at h' b sz (map c_tolower s)" "only_block b h h'" by blast
    with Lower show ?thesis by (auto simp: string_lower_def)
  next
    case (Trim v t)
    with a have "cstr h v t" "ptr_block v \<noteq> b" using arg by auto
    with at obtain h' where "string_trim h (Ptr b 0) v = Some (Ptr b 0, h')"
      "string_at h' b sz (dropWhile (\<lambda>c. c \<in> set t) s)" "only_block b h h'" by (rule string_trim_at)
    with Trim show ?thesis by auto
  next
    case (Chop v t)
    with a have "cstr h v t" "ptr_block v \<noteq> b" using arg by auto
    with at obtain h' where "string_chop h (Ptr b 0) v = Some (Ptr b 0, h')"
      "string_at h' b sz (rev (dropWhile (\<lambda>c. c \<in> set t) (rev s)))" "only_block b h h'" by (rule string_chop_at)
    with Chop show ?thesis by auto
  next
    case (Tail n)
    from at obtain h' where "string_tail h (Ptr b 0) n = Some (Ptr b 0, h')"
      "string_at h' b sz (take n s)" "only_block b h h'" by (rule string_tail_at)
    with Tail show ?thesis by auto
  next
    case (Head n)
    from at obtain h' where "string_head h (Ptr b 0) n = Some (Ptr b 0, h')"
      "string_at h' b sz (drop (length s - n) s)" "only_block b h h'" by (rule string_head_at)
    with Head show ?thesis by auto
  qed
  with f show "\<exists>h'. str_step (Ptr b 0) x h = Some h' \<and> str_rel h0 b sz h' (str_spec sz x s)"
    by (auto simp: str_rel_def only_block_def)
qed

subsection \<open>Construction\<close>

lemma new_string_blk:
  assumes "heap_ok h" and "sz + 4 < 2 ^ 64" and "hgrant h (hseq h) (sz + 4)"
  obtains h' junk where "new_string h sz = Some (Ptr (hseq h) 0, h')" and "heap_ok h'" and "length junk = sz"
    and "hblk h' = (hblk h)(hseq h \<mapsto> strblk sz 0 junk)"
proof -
  let ?b = "hseq h"
  from assms(1,3) obtain h1 junk where m: "c_malloc h (sz + 4) = (Ptr ?b 0, h1)" "length junk = sz + 4"
    "hblk h1 = (hblk h)(?b \<mapsto> junk)" "heap_ok h1" by (rule c_malloc_granted)
  have junk: "junk = take 2 junk @ take 2 (drop 2 junk) @ drop 4 junk"
    using split_run [of junk 2 2] by simp
  let ?sz = "le_bytes (of_nat sz :: 16 word)" and ?z = "le_bytes (0 :: 16 word)"
  let ?h2 = "put_block h1 ?b (?sz @ take 2 (drop 2 junk) @ drop 4 junk)"
  let ?h3 = "put_block h1 ?b (strblk sz 0 (drop 4 junk))"
  have "hblk h1 ?b = Some ([] @ take 2 junk @ take 2 (drop 2 junk) @ drop 4 junk)" using m(3) junk by simp
  from le16.setw_writes [OF this] m(2) have "le_set16 h1 (Ptr ?b 0) (of_nat sz) = Some ?h2" by simp
  moreover have "hblk ?h2 ?b = Some (?sz @ take 2 (drop 2 junk) @ drop 4 junk)" by simp
  from le16.setw_writes [OF this, of 0] m(2) have "set_used ?h2 (Ptr ?b 0) 0 = Some ?h3"
    by (simp add: set_used_def strblk_def numeral_2_eq_2)
  ultimately have "new_string h sz = Some (Ptr ?b 0, ?h3)"
    using m(1) assms(2) by (simp add: new_string_def string_sizeof_def size_simps)
  moreover have "heap_ok ?h3" using m(3,4) by (intro heap_ok_put_block heap_ok_live [of h1 ?b junk]) auto
  ultimately show ?thesis using m by (intro that) auto
qed

text \<open>
  C4. A string object is a bounded string. An object of any capacity from 2 to 65535 bytes, made by
  \<^verbatim>\<open>new_string\<close> and filled by \<^verbatim>\<open>string_copy\<close>, is fresh and holds the text cut to one less than its
  capacity; \<^verbatim>\<open>make_string\<close> does the same with the capacity that fits the text, cut to its limit. From
  then on any sequence of clear, commit, copy, append, case, trim, chop, tail and head calls, in any
  order, is memory safe, touches no other block and leaves the object holding
  the text the abstract operations give, terminated and with its length field right. The allocation is
  assumed to be granted and the texts of the arguments to lie outside the object. Capacity 1 and
  capacities from 65536 on are left out: see \<open>string_writes_past_end\<close> and \<open>new_string_truncates\<close>.
\<close>

theorem string_refines_text:
  assumes "heap_ok h" and "cstr h v t" and "2 \<le> sz" and "sz < 2 ^ 16" and "hgrant h (hseq h) (sz + 4)"
  shows "\<exists>h0 h1. new_string h sz = Some (Ptr (hseq h) 0, h0) \<and> string_copy h0 (Ptr (hseq h) 0) v = Some (Ptr (hseq h) 0, h1) \<and>
    (sz = length (clip lim t) + 1 \<longrightarrow> make_string h v lim = Some (Ptr (hseq h) 0, h1)) \<and>
    string_at h1 (hseq h) sz (take (sz - 1) t) \<and> (\<forall>b. b \<noteq> hseq h \<longrightarrow> hblk h1 b = hblk h b) \<and>
    ((\<forall>x \<in> set ops. str_arg h1 (hseq h) x) \<longrightarrow>
      (\<exists>h2. run_ops (str_step (Ptr (hseq h) 0)) ops h1 = Some h2 \<and>
        string_at h2 (hseq h) sz (fold (str_spec sz) ops (take (sz - 1) t)) \<and>
        (\<forall>b. b \<noteq> hseq h \<longrightarrow> hblk h2 b = hblk h b)))"
proof -
  let ?b = "hseq h" and ?t = "take (sz - 1) t"
  obtain h0 junk where n: "new_string h sz = Some (Ptr ?b 0, h0)" "length junk = sz"
    "hblk h0 = (hblk h)(?b \<mapsto> strblk sz 0 junk)"
    by (rule new_string_blk [OF assms(1) _ assms(5)]) (use assms(4) in auto)
  have vb: "ptr_block v \<noteq> ?b"
  proof -
    obtain c where "load h v = Some c" using assms(2) by (cases t) auto
    then show ?thesis using heap_ok_live [OF assms(1)] by (elim load_SomeE) auto
  qed
  then have v: "cstr h0 v t" using cstr_same_block [OF assms(2)] n(3) by simp
  have "hblk h0 ?b = Some (strblk sz 0 junk)" using n(3) by simp
  then obtain h1 where c: "string_copy h0 (Ptr ?b 0) v = Some (Ptr ?b 0, h1)"
    "string_at h1 ?b sz ?t" "only_block ?b h0 h1" using string_copy_blk [OF _ v n(2) assms(3,4)] vb by blast
  have mk: "make_string h v lim = Some (Ptr ?b 0, h1)" if sz: "sz = length (clip lim t) + 1"
  proof -
    have "sz_add (length (clip lim t)) 1 = sz" using sz assms(4) by (simp add: size_simps)
    then show ?thesis using cpr_strlen_cstr [OF assms(2), of lim] n(1) c(1) by (simp add: make_string_def)
  qed
  have same: "\<forall>b. b \<noteq> ?b \<longrightarrow> hblk h1 b = hblk h b" using c(3) n(3) by (simp add: only_block_def)
  have "str_rel h1 ?b sz h1 ?t" using c(2) by (simp add: str_rel_def)
  then have "\<exists>h2. run_ops (str_step (Ptr ?b 0)) ops h1 = Some h2 \<and> str_rel h1 ?b sz h2 (fold (str_spec sz) ops ?t)"
    if "\<forall>x \<in> set ops. str_arg h1 ?b x"
    using bstr.run_simulates that by blast
  with n(1) mk c(1,2) same show ?thesis by (intro exI [of _ h0] exI [of _ h1]) (auto simp: str_rel_def only_block_def)
qed

theorem string_refines_text_witness:
  "\<exists>h1 h2. make_string (heap_of [str_bytes ''  ab '' @ [0], str_bytes '' '' @ [0]]) (Ptr 0 0) 64 = Some (Ptr 2 0, h1) \<and>
     run_ops (str_step (Ptr 2 0)) [Trim (Ptr 1 0) (str_bytes '' ''), Upper, Head 2] h1 = Some h2 \<and>
     string_at h2 2 6 (str_bytes ''B '')"
proof -
  let ?h = "heap_of [str_bytes ''  ab '' @ [0], str_bytes '' '' @ [0]]"
  let ?t = "str_bytes ''  ab ''" and ?ops = "[Trim (Ptr 1 0) (str_bytes '' ''), Upper, Head 2]"
  have c: "cstr ?h (Ptr 0 0) ?t" "cstr ?h (Ptr 1 0) (str_bytes '' '')"
    by (simp_all add: load_Ptr str_bytes_def char_byte_def)
  have t: "6 = length (clip 64 ?t) + 1" "take (6 - 1) ?t = ?t" "hseq ?h = 2"
    "fold (str_spec 6) ?ops ?t = str_bytes ''B ''"
    by (simp_all add: str_bytes_def char_byte_def c_toupper_def c_islower_def clip_def)
  have sz: "2 \<le> (6 :: nat)" "(6 :: nat) < 2 ^ 16" by simp_all
  obtain h1 where h1: "make_string ?h (Ptr 0 0) 64 = Some (Ptr 2 0, h1)" "\<forall>b. b \<noteq> 2 \<longrightarrow> hblk h1 b = hblk ?h b"
    "(\<forall>x \<in> set ?ops. str_arg h1 2 x) \<longrightarrow> (\<exists>h2. run_ops (str_step (Ptr 2 0)) ?ops h1 = Some h2 \<and>
      string_at h2 2 6 (fold (str_spec 6) ?ops ?t))"
    using string_refines_text [OF heap_ok_heap_of c(1) sz hgrant_heap_of, of 64 ?ops, unfolded t(2,3)] t(1) by blast
  have "hblk h1 (ptr_block (Ptr 1 0)) = hblk ?h (ptr_block (Ptr 1 0))" using h1(2) by simp
  then have "cstr h1 (Ptr 1 0) (str_bytes '' '')" by (rule cstr_same_block [OF c(2)])
  then have "\<forall>x \<in> set ?ops. str_arg h1 2 x" by simp
  with h1(3) t(4) obtain h2 where "run_ops (str_step (Ptr 2 0)) ?ops h1 = Some h2" "string_at h2 2 6 (str_bytes ''B '')"
    by (simp only:) blast
  with h1(1) show ?thesis by blast
qed

subsection \<open>Where the bounds fail\<close>

lemma string_copy_one:
  assumes "hblk h b = Some (strblk 1 u [x])" and "cstr h v (c # t)" and "ptr_block v \<noteq> b"
  shows "string_copy h (Ptr b 0) v = None"
proof -
  have "cpr_strlen h v (sz_sub 1 1) = Some 1"
    using cpr_strlen_cstr [OF assms(2), of "sz_sub 1 1"] by (simp add: size_simps length_clip)
  moreover have "set_used h (Ptr b 0) 1 = Some (put_block h b (strblk 1 1 [x]))" by (rule set_used_blk [OF assms(1)])
  moreover have "store (put_block h b (strblk 1 1 [y])) (Ptr b (4 + 1)) 0 = None" for y
    by (simp add: store_def)
  moreover have "load (put_block h b (strblk 1 1 [x])) v = Some c"
    using assms(2,3) by (cases v) (auto simp: load_def)
  moreover have "store (put_block h b (strblk 1 1 [x])) (Ptr b 4) c = Some (put_block h b (strblk 1 1 [c]))"
    using store_body [of "put_block h b (strblk 1 1 [x])" b 1 1 "[x]" 0 c] by simp
  moreover have "Ptr b 4 \<noteq> v" using assms(3) by auto
  ultimately show ?thesis using str_size_blk [OF assms(1)] by (simp add: string_copy_def)
qed

lemma string_printf_at:
  assumes "string_at h b sz s" and "0 \<notin> set e" and "e \<noteq> []" and "length e < 2 ^ 31"
  shows "if length e < sz
    then \<exists>h'. string_printf h (Ptr b 0) e False = Some (int (length e), h') \<and> string_at h' b sz e \<and> only_block b h h'
    else string_printf h (Ptr b 0) e False = None"
proof -
  obtain rest where blk: "hblk h b = Some (strblk sz (length s) (s @ 0 # rest))" and s: "length s + 1 + length rest = sz"
    "2 \<le> sz" "sz < 2 ^ 16"
    using assms(1) by (rule string_atE)
  define w where "w = take (sz - 1) e @ [0]"
  define body where "body = s @ 0 # rest"
  let ?hdr = "le_bytes (of_nat sz :: 16 word) @ le_bytes (of_nat (length s) :: 16 word)"
  let ?h = "put_block h b (strblk sz (length s) (w @ drop (length w) body))"
  have lw: "length w \<le> sz" "length body = sz" using s by (auto simp: w_def body_def)
  have "hblk h b = Some (?hdr @ take (length w) body @ drop (length w) body)"
    using blk [folded body_def] by (simp add: strblk_def)
  from store_list_mid [OF this, of 4 w] lw have "store_list h (Ptr b 4) w = Some ?h" by (simp add: strblk_def)
  then have pr: "c_vsnprintf h (Ptr b 4) sz e False = Some (int (length e), ?h)"
    using s assms(4) by (simp add: c_vsnprintf_def w_def)
  let ?h2 = "put_block h b (strblk sz (length e) (w @ drop (length w) body))"
  have us: "set_used ?h (Ptr b 0) (length e) = Some ?h2"
    by (subst set_used_blk [where sz = sz and u = "length s" and body = "w @ drop (length w) body"]) auto
  have pos: "\<not> int (length e) < 1" using assms(3) by (cases e) auto
  note run = string_printf_def str_size_blk [OF blk s(3)] pr us pos
  show ?thesis
  proof (cases "length e < sz")
    case True
    then have "take (length e) (w @ drop (length w) body) = e" using s by (simp add: w_def)
    moreover have "length (w @ drop (length w) body) = sz" using lw by simp
    moreover have "hblk ?h2 b = Some (strblk sz (length e) (w @ drop (length w) body))" by simp
    ultimately obtain h' where "store ?h2 (Ptr b (4 + length e)) 0 = Some h'" "string_at h' b sz e" "only_block b ?h2 h'"
      using True assms(2) s(2,3) by (metis terminate_body)
    with True assms(3) show ?thesis by (auto simp: run only_block_def)
  next
    case False
    then have "store ?h2 (Ptr b (4 + length e)) 0 = None" using lw by (simp add: store_def)
    with False assms(3) show ?thesis by (simp add: run)
  qed
qed

text \<open>
  Two operations write past the object. Copying any non-empty text into an object of
  capacity 1 stores two bytes, because a length limit of 0 counts as 1. Formatting text as
  long as the capacity or longer truncates it, but then stores the terminator at the full
  length, outside the object; shorter text is held exactly.
\<close>

theorem string_writes_past_end:
  assumes "cstr h v (c # t)" and "ptr_block v \<noteq> b" and "ptr_block v \<noteq> a"
    and "hblk h a = Some (strblk 1 u [x])" and "string_at h b sz s"
    and "0 \<notin> set e" and "e \<noteq> []" and "length e < 2 ^ 31"
  shows "string_copy h (Ptr a 0) v = None \<and>
    (if length e < sz
     then \<exists>h'. string_printf h (Ptr b 0) e False = Some (int (length e), h') \<and> string_at h' b sz e
     else string_printf h (Ptr b 0) e False = None)"
  using string_copy_one [OF assms(4,1,3)] string_printf_at [OF assms(5-8)] by (auto split: if_splits)

theorem string_writes_past_end_witness:
  "string_copy (heap_of [strblk 1 0 [7], strblk 4 1 [65, 0, 0, 0], [66, 0]]) (Ptr 0 0) (Ptr 2 0) = None \<and>
   string_printf (heap_of [strblk 1 0 [7], strblk 4 1 [65, 0, 0, 0], [66, 0]]) (Ptr 1 0) (str_bytes ''long'') False = None"
proof -
  let ?h = "heap_of [strblk 1 0 [7], strblk 4 1 [65, 0, 0, 0], [66, 0]]"
  have "cstr ?h (Ptr 2 0) [66]" by (simp add: load_Ptr)
  moreover have "string_at ?h 1 4 [65]" by (auto simp: string_at_def)
  ultimately show ?thesis
    using string_writes_past_end [of ?h "Ptr 2 0" 66 "[]" 1 0 0 7 4 "[65]" "str_bytes ''long''"]
    by (simp add: str_bytes_def char_byte_def)
qed

text \<open>
  The capacity is kept in 16 bits: asked for 65536 bytes or more, the object gets the
  memory but records the size modulo 65536. Making a string from a text of 65536 characters
  therefore gives an object of capacity 1, and the copy then keeps a single character.
\<close>

theorem new_string_truncates:
  assumes "heap_ok h" and "sz + 4 < 2 ^ 64" and "hgrant h (hseq h) (sz + 4)"
  shows "\<exists>h'. new_string h sz = Some (Ptr (hseq h) 0, h') \<and> string_size h' (Ptr (hseq h) 0) = Some (sz mod 2 ^ 16) \<and>
    string_count h' (Ptr (hseq h) 0) = Some 0 \<and> (\<exists>bs. hblk h' (hseq h) = Some bs \<and> length bs = sz + 4) \<and>
    (\<forall>b. b \<noteq> hseq h \<longrightarrow> hblk h' b = hblk h b)"
proof -
  let ?b = "hseq h"
  from assms obtain h' junk where n: "new_string h sz = Some (Ptr ?b 0, h')" "length junk = sz"
    "hblk h' = (hblk h)(?b \<mapsto> strblk sz 0 junk)" by (rule new_string_blk)
  have "(of_nat (sz mod 2 ^ 16) :: 16 word) = of_nat sz"
    by (simp add: word_unat_eq_iff unsigned_of_nat take_bit_eq_mod)
  then have "strblk sz 0 junk = strblk (sz mod 2 ^ 16) 0 junk" by (simp add: strblk_def)
  then have "hblk h' ?b = Some (strblk (sz mod 2 ^ 16) 0 junk)" using n(3) by simp
  then have "string_size h' (Ptr ?b 0) = Some (sz mod 2 ^ 16)" "string_count h' (Ptr ?b 0) = Some 0"
    using str_size_blk [of h' ?b "sz mod 2 ^ 16" 0 junk] str_used_blk [of h' ?b "sz mod 2 ^ 16" 0 junk]
    by (simp_all add: string_size_def string_count_def)
  with n show ?thesis by auto
qed

theorem new_string_truncates_witness:
  "\<exists>h'. new_string (heap_of []) 65537 = Some (Ptr 0 0, h') \<and> string_size h' (Ptr 0 0) = Some 1"
  using new_string_truncates [of "heap_of []" 65537] by auto

end
