(* ===== verification/Keyfile.thy ===== *)
theory Keyfile
  imports Strchar
begin

text \<open>
  \<^verbatim>\<open>src/keyfile.c\<close> and \<^verbatim>\<open>src/keyfile.h\<close>: configuration files of sections and keys. The two node
  types are records kept beside the bytes of the store, by block, like the headers of the
  memory pager; an access is undefined unless the block is live and the node was written.
  Texts are strings of the store.

  The line parser works on a local array of 96 bytes, which is a block of the store while
  the parser runs. A file is the list of its bytes and \<^verbatim>\<open>fgets\<close> cuts it into chunks; that a
  file cannot be opened is \<^const>\<open>None\<close>.
\<close>

record keydata =
  key_next :: ptr
  key_id :: ptr
  key_value :: ptr

record keysection =
  sec_next :: ptr
  sec_keys :: ptr
  sec_id :: ptr

record kstate =
  kmem :: heap
  kkey :: "nat \<Rightarrow> keydata option"
  ksec :: "nat \<Rightarrow> keysection option"

definition node_sizeof :: size_t where "node_sizeof = 24"

definition live_node :: "kstate \<Rightarrow> ptr \<Rightarrow> bool" where
  "live_node st p \<longleftrightarrow> (case p of Null \<Rightarrow> False
     | Ptr b k \<Rightarrow> k = 0 \<and> (case hblk (kmem st) b of None \<Rightarrow> False
        | Some bs \<Rightarrow> node_sizeof \<le> length bs))"

definition get_key :: "kstate \<Rightarrow> ptr \<Rightarrow> keydata option" where
  "get_key st p = (if live_node st p then kkey st (ptr_block p) else None)"

definition set_key :: "kstate \<Rightarrow> ptr \<Rightarrow> keydata \<Rightarrow> kstate option" where
  "set_key st p k = (if live_node st p then Some (st\<lparr>kkey := (kkey st)(ptr_block p \<mapsto> k)\<rparr>) else None)"

definition get_sec :: "kstate \<Rightarrow> ptr \<Rightarrow> keysection option" where
  "get_sec st p = (if live_node st p then ksec st (ptr_block p) else None)"

definition set_sec :: "kstate \<Rightarrow> ptr \<Rightarrow> keysection \<Rightarrow> kstate option" where
  "set_sec st p s = (if live_node st p then Some (st\<lparr>ksec := (ksec st)(ptr_block p \<mapsto> s)\<rparr>) else None)"

subsection \<open>The lists\<close>

text \<open>The walk of \<^verbatim>\<open>append_keysections\<close> to the last node of \<open>into\<close>.\<close>

partial_function (option) last_section :: "kstate \<Rightarrow> ptr \<Rightarrow> ptr option" where
  "last_section st prior = do {
     s \<leftarrow> get_sec st prior;
     if sec_next s = Null then Some prior else last_section st (sec_next s) }"

definition append_keysections :: "kstate \<Rightarrow> ptr \<Rightarrow> ptr \<Rightarrow> (ptr \<times> kstate) option" where
  "append_keysections st root into =
     (if into = Null then Some (root, st)
      else do {
        prior \<leftarrow> last_section st into;
        s \<leftarrow> get_sec st prior;
        st \<leftarrow> set_sec st prior (s\<lparr>sec_next := root\<rparr>);
        Some (into, st) })"

partial_function (option) find_key :: "kstate \<Rightarrow> ptr \<Rightarrow> ptr \<Rightarrow> ptr option" where
  "find_key st key name =
     (if key = Null then Some Null
      else do {
        k \<leftarrow> get_key st key;
        same \<leftarrow> eq (kmem st) (key_id k) name;
        if same then Some (key_value k) else find_key st (key_next k) name })"

definition get_keyvalue :: "kstate \<Rightarrow> ptr \<Rightarrow> ptr \<Rightarrow> ptr option" where
  "get_keyvalue st section name = do { s \<leftarrow> get_sec st section; find_key st (sec_keys s) name }"

text \<open>\<^verbatim>\<open>strdup\<close>.\<close>

definition c_strdup :: "heap \<Rightarrow> ptr \<Rightarrow> (ptr \<times> heap) option" where
  "c_strdup h s = do {
     n \<leftarrow> c_strlen h s;
     let (p, h) = c_malloc h (sz_add n 1);
     if p = Null then Some (Null, h)
     else do { h \<leftarrow> c_memcpy h p s (sz_add n 1); Some (p, h) } }"

definition make_keydata :: "kstate \<Rightarrow> ptr \<Rightarrow> ptr \<Rightarrow> ptr \<Rightarrow> (ptr \<times> kstate) option" where
  "make_keydata st sect name val =
     (let (key, h) = c_malloc (kmem st) node_sizeof in
        if key = Null then Some (Null, st\<lparr>kmem := h\<rparr>)
        else do {
          (kid, h) \<leftarrow> cpr_lower h name 32;
          (kval, h) \<leftarrow> c_strdup h val;
          let st = st\<lparr>kmem := h\<rparr>;
          g \<leftarrow> get_sec st sect;
          st \<leftarrow> set_key st key \<lparr>key_next = sec_keys g, key_id = kid, key_value = kval\<rparr>;
          st \<leftarrow> set_sec st sect (g\<lparr>sec_keys := key\<rparr>);
          Some (key, st) })"

definition make_keysection :: "kstate \<Rightarrow> ptr \<Rightarrow> ptr \<Rightarrow> (ptr \<times> kstate) option" where
  "make_keysection st name prior = do {
     let (section, h) = c_malloc (kmem st) node_sizeof;
     let st = st\<lparr>kmem := h\<rparr>;
     st \<leftarrow> (if prior \<noteq> Null then do { s \<leftarrow> get_sec st prior; set_sec st prior (s\<lparr>sec_next := section\<rparr>) }
           else Some st);
     if section = Null then Some (Null, st)
     else do {
       (sid, h) \<leftarrow> cpr_upper (kmem st) name 32;
       st \<leftarrow> set_sec (st\<lparr>kmem := h\<rparr>) section \<lparr>sec_next = Null, sec_keys = Null, sec_id = sid\<rparr>;
       Some (section, st) } }"

partial_function (option) find_keysection :: "kstate \<Rightarrow> ptr \<Rightarrow> ptr \<Rightarrow> ptr option" where
  "find_keysection st root name =
     (if root = Null then Some Null
      else do {
        s \<leftarrow> get_sec st root;
        same \<leftarrow> match (kmem st) name (sec_id s);
        if same then Some root else find_keysection st (sec_next s) name })"

text \<open>The inner and the outer loop of \<^verbatim>\<open>free_keyfile\<close>.\<close>

partial_function (option) free_keys :: "kstate \<Rightarrow> ptr \<Rightarrow> kstate option" where
  "free_keys st key =
     (if key = Null then Some st
      else do {
        k \<leftarrow> get_key st key;
        h \<leftarrow> c_free (kmem st) (key_id k);
        h \<leftarrow> c_free h (key_value k);
        h \<leftarrow> c_free h key;
        free_keys (st\<lparr>kmem := h\<rparr>) (key_next k) })"

partial_function (option) free_keyfile :: "kstate \<Rightarrow> ptr \<Rightarrow> kstate option" where
  "free_keyfile st root =
     (if root = Null then Some st
      else do {
        s \<leftarrow> get_sec st root;
        st \<leftarrow> free_keys st (sec_keys s);
        h \<leftarrow> c_free (kmem st) (sec_id s);
        free_keyfile (st\<lparr>kmem := h\<rparr>) (sec_next s) })"

subsection \<open>The line parser\<close>

text \<open>The loops of \<^verbatim>\<open>load_keyfile\<close> over the line, in the order of the source.\<close>

primrec trim_end :: "heap \<Rightarrow> ptr \<Rightarrow> nat \<Rightarrow> (nat \<times> heap) option" where
  "trim_end h lp 0 = Some (0, h)"
| "trim_end h lp (Suc n) = do {
     c \<leftarrow> load h (padd lp n);
     if c_isspace c then do { h \<leftarrow> store h (padd lp n) 0; trim_end h lp n } else Some (n, h) }"

function skip_space :: "heap \<Rightarrow> ptr \<Rightarrow> ptr option" where
  "skip_space h lp = (case load h lp of None \<Rightarrow> None
     | Some c \<Rightarrow> if c \<noteq> 0 \<and> c_isspace c then skip_space h (padd lp 1) else Some lp)"
  by pat_completeness auto
termination
  by (relation "measure (\<lambda>(h, p). block_rest h p)") (auto intro: block_rest_step)

fun close_loop :: "heap \<Rightarrow> ptr \<Rightarrow> nat \<Rightarrow> nat option" where
  "close_loop h lp (Suc (Suc n)) = do {
     c \<leftarrow> load h (padd lp (Suc n));
     if c_isspace c then close_loop h lp (Suc n) else Some (Suc n) }"
| "close_loop h lp n = Some n"

function open_loop :: "heap \<Rightarrow> ptr \<Rightarrow> size_t \<Rightarrow> (ptr \<times> size_t) option" where
  "open_loop h lp n = (case load h (padd lp 1) of None \<Rightarrow> None
     | Some c \<Rightarrow> if c_isspace c then open_loop h (padd lp 1) (sz_sub n 1) else Some (padd lp 1, n))"
  by pat_completeness auto
termination
  by (relation "measure (\<lambda>(h, p, n). block_rest h (padd p 1))") (auto dest: block_rest_step)

function find_equals :: "heap \<Rightarrow> ptr \<Rightarrow> ptr option" where
  "find_equals h kw = (case load h kw of None \<Rightarrow> None
     | Some c \<Rightarrow> if c \<noteq> 0 \<and> c \<noteq> 61 then find_equals h (padd kw 1) else Some kw)"
  by pat_completeness auto
termination
  by (relation "measure (\<lambda>(h, p). block_rest h p)") (auto intro: block_rest_step)

text \<open>\<^verbatim>\<open>while (kw > lp && isspace(*kw)) --kw\<close> with \<^verbatim>\<open>kw = lp + n\<close>.\<close>

primrec back_space :: "heap \<Rightarrow> ptr \<Rightarrow> nat \<Rightarrow> nat option" where
  "back_space h lp 0 = Some 0"
| "back_space h lp (Suc n) = do {
     c \<leftarrow> load h (padd lp (Suc n));
     if c_isspace c then back_space h lp n else Some (Suc n) }"

declare skip_space.simps [simp del] open_loop.simps [simp del] find_equals.simps [simp del]

datatype line_action = Skip | Section ptr | Key ptr ptr

definition ptr_diff :: "ptr \<Rightarrow> ptr \<Rightarrow> nat" where
  "ptr_diff p q = ptr_off p - ptr_off q"

definition parse_section :: "heap \<Rightarrow> ptr \<Rightarrow> size_t \<Rightarrow> (line_action \<times> heap) option" where
  "parse_section h lp len = do {
     len \<leftarrow> close_loop h lp len;
     if len < 2 then Some (Skip, h)
     else do {
       (lp, len) \<leftarrow> open_loop h lp len;
       h \<leftarrow> store h (padd lp len) 0;
       Some (Section lp, h) } }"

definition unquote :: "heap \<Rightarrow> ptr \<Rightarrow> (ptr \<times> heap) option" where
  "unquote h body = do {
     n \<leftarrow> cpr_strlen h body 96;
     c \<leftarrow> load h body;
     if c = 39 \<or> c = 34 then do {
       e \<leftarrow> load h (padd body (n - 1));
       if e = c then do {
         h \<leftarrow> store h (padd body (n - 1)) 0;
         c \<leftarrow> load h body;
         Some (if c \<noteq> 0 then padd body 1 else body, h) }
       else Some (body, h) }
     else Some (body, h) }"

definition parse_key :: "heap \<Rightarrow> ptr \<Rightarrow> (line_action \<times> heap) option" where
  "parse_key h lp = do {
     kw \<leftarrow> find_equals h lp;
     c \<leftarrow> load h kw;
     if kw = lp \<or> c = 0 then Some (Skip, h)
     else do {
       let body = padd kw 1;
       n \<leftarrow> back_space h lp (ptr_diff kw lp - 1);
       if n = 0 then Some (Skip, h)
       else do {
         h \<leftarrow> store h (padd lp (n + 1)) 0;
         c \<leftarrow> load h body;
         let body = (if c \<noteq> 0 \<and> c_isspace c then padd body 1 else body);
         (body, h) \<leftarrow> unquote h body;
         Some (Key lp body, h) } } }"

text \<open>The body of the reading loop, up to the calls that build the lists.\<close>

definition parse_line :: "heap \<Rightarrow> ptr \<Rightarrow> (line_action \<times> heap) option" where
  "parse_line h lp = do {
     len \<leftarrow> cpr_strlen h lp 96;
     if len = 0 then Some (Skip, h)
     else do {
       c \<leftarrow> load h (padd lp (len - 1));
       if c \<noteq> 10 then Some (Skip, h)
       else do {
         (len, h) \<leftarrow> trim_end h lp len;
         lp \<leftarrow> skip_space h lp;
         c \<leftarrow> load h lp;
         if c = 0 then Some (Skip, h)
         else do {
           closed \<leftarrow> (if c = 91 then do { d \<leftarrow> load h (padd lp len); Some (d = 93) } else Some False);
           if closed then parse_section h lp len
           else if \<not> c_isalnum c then Some (Skip, h)
           else parse_key h lp } } } }"

subsection \<open>Files\<close>

text \<open>\<^verbatim>\<open>fgets\<close> with a buffer of 96 bytes: up to 95 bytes, ending behind a newline.\<close>

fun fgets_chunk :: "nat \<Rightarrow> byte list \<Rightarrow> byte list \<times> byte list" where
  "fgets_chunk 0 cs = ([], cs)"
| "fgets_chunk (Suc n) [] = ([], [])"
| "fgets_chunk (Suc n) (c # cs) =
     (if c = 10 then ([c], cs) else (let (xs, ys) = fgets_chunk n cs in (c # xs, ys)))"

lemma fgets_chunk_shorter: "fgets_chunk n cs = (xs, ys) \<Longrightarrow> length ys \<le> length cs"
  by (induction n cs arbitrary: xs ys rule: fgets_chunk.induct)
    (auto split: if_splits prod.splits)

lemma fgets_chunk_progress: "fgets_chunk n (c # cs) = (xs, ys) \<Longrightarrow> 0 < n \<Longrightarrow> length ys < length (c # cs)"
  by (cases n) (auto split: if_splits prod.splits dest: fgets_chunk_shorter)

text \<open>One round of the reading loop: the chunk and its terminator go to the local array.\<close>

definition load_round :: "kstate \<Rightarrow> ptr \<Rightarrow> ptr \<Rightarrow> byte list \<Rightarrow> (ptr \<times> kstate) option" where
  "load_round st linebuf current chunk = do {
     h \<leftarrow> store_list (kmem st) linebuf (chunk @ [0]);
     (act, h) \<leftarrow> parse_line h linebuf;
     let st = st\<lparr>kmem := h\<rparr>;
     (case act of
        Skip \<Rightarrow> Some (current, st)
      | Section lp \<Rightarrow> make_keysection st lp current
      | Key kw body \<Rightarrow> do { (_, st) \<leftarrow> make_keydata st current kw body; Some (current, st) }) }"

function load_loop :: "kstate \<Rightarrow> ptr \<Rightarrow> ptr \<Rightarrow> byte list \<Rightarrow> (ptr \<times> kstate) option" where
  "load_loop st linebuf current [] = Some (current, st)"
| "load_loop st linebuf current (c # cs) = (case fgets_chunk 95 (c # cs) of (chunk, rest) \<Rightarrow>
     (case load_round st linebuf current chunk of None \<Rightarrow> None
      | Some (current, st) \<Rightarrow> load_loop st linebuf current rest))"
  by pat_completeness auto
termination
proof (relation "measure (\<lambda>(st, l, c, cs). length cs)")
  fix st :: kstate and linebuf current current' :: ptr and st' :: kstate and c cs chunk rest x
  assume "(chunk, rest) = fgets_chunk 95 (c # cs)"
  then have "fgets_chunk 95 (c # cs) = (chunk, rest)" by simp
  from fgets_chunk_progress [OF this]
  show "((st', linebuf, current', rest), st, linebuf, current, c # cs) \<in> measure (\<lambda>(st, l, c, cs). length cs)"
    by simp
qed simp

text \<open>
  The local array comes with the frame and goes with it; the literal \<open>''*''\<close> is in static
  storage, given by its address.
\<close>

definition load_keyfile :: "kstate \<Rightarrow> ptr \<Rightarrow> byte list option \<Rightarrow> (ptr \<times> kstate) option" where
  "load_keyfile st star file = (case file of None \<Rightarrow> Some (Null, st)
     | Some cs \<Rightarrow> do {
         let h = kmem st;
         let b = hseq h;
         let st = st\<lparr>kmem := (put_block h b (map (hjunk h b) [0..<96]))\<lparr>hseq := Suc b\<rparr>\<rparr>;
         (root, st) \<leftarrow> make_keysection st star Null;
         (_, st) \<leftarrow> load_loop st (Ptr b 0) root cs;
         h \<leftarrow> c_free (kmem st) (Ptr b 0);
         Some (root, st\<lparr>kmem := h\<rparr>) })"

text \<open>\<^verbatim>\<open>save_keyfile\<close>: the bytes it writes, \<^const>\<open>None\<close> inside when it returns false.\<close>

definition c_text :: "heap \<Rightarrow> ptr \<Rightarrow> byte list option" where
  "c_text h p = do { n \<leftarrow> c_strlen h p; load_list h p n }"

definition key_line :: "byte list \<Rightarrow> byte \<Rightarrow> byte list \<Rightarrow> byte list" where
  "key_line name q val = name @ [61, q] @ val @ [q, 10]"

partial_function (option) save_keys :: "kstate \<Rightarrow> ptr \<Rightarrow> byte list option" where
  "save_keys st key =
     (if key = Null then Some []
      else do {
        k \<leftarrow> get_key st key;
        quote \<leftarrow> c_strchr (kmem st) (key_value k) 39;
        name \<leftarrow> c_text (kmem st) (key_id k);
        val \<leftarrow> c_text (kmem st) (key_value k);
        rest \<leftarrow> save_keys st (key_next k);
        Some (key_line name (if quote \<noteq> Null then 34 else 39) val @ rest) })"

partial_function (option) save_sections :: "kstate \<Rightarrow> ptr \<Rightarrow> byte list option" where
  "save_sections st section =
     (if section = Null then Some []
      else do {
        s \<leftarrow> get_sec st section;
        name \<leftarrow> c_text (kmem st) (sec_id s);
        keys \<leftarrow> save_keys st (sec_keys s);
        rest \<leftarrow> save_sections st (sec_next s);
        Some ([91] @ name @ [93, 10] @ keys @ rest) })"

definition save_keyfile :: "kstate \<Rightarrow> ptr \<Rightarrow> bool \<Rightarrow> ptr \<Rightarrow> byte list option option" where
  "save_keyfile st path opened root =
     (if path = Null \<or> root = Null then Some None
      else if \<not> opened then Some None
      else map_option Some (save_sections st root))"

subsection \<open>What the parser makes of a written line\<close>

lemma trim_end_stop:
  assumes "hblk h b = Some (pre @ c # rest)" and "length pre = n" and "\<not> c_isspace c"
  shows "trim_end h (Ptr b 0) (Suc n) = Some (n, h)"
  using assms by (auto simp: load_Ptr)

lemma trim_end_newline:
  assumes "hblk h b = Some (pre @ [c, 10] @ rest)" and "length pre = n" and "\<not> c_isspace c"
  shows "trim_end h (Ptr b 0) (Suc (Suc n)) = Some (n, put_block h b (pre @ [c, 0] @ rest))"
proof -
  have "c_isspace 10" by (simp add: c_isspace_def)
  moreover have "load h (Ptr b (Suc n)) = Some 10"
    "store h (Ptr b (Suc n)) 0 = Some (put_block h b (pre @ [c, 0] @ rest))"
    using assms by (auto simp: load_Ptr store_Ptr nth_append list_update_append)
  moreover have "trim_end (put_block h b (pre @ [c, 0] @ rest)) (Ptr b 0) (Suc n) =
      Some (n, put_block h b (pre @ [c, 0] @ rest))"
    using assms(2,3) by (intro trim_end_stop [of _ _ pre c "0 # rest"]) auto
  ultimately show ?thesis by (simp del: trim_end.simps(1) add: trim_end.simps(2) [of h "Ptr b 0" "Suc n"])
qed

lemma skip_space_stop: "load h p = Some c \<Longrightarrow> \<not> c_isspace c \<Longrightarrow> skip_space h p = Some p"
  by (subst skip_space.simps) simp

lemma find_equals_mid:
  assumes "hblk h b = Some (pre @ s @ 61 # rest)" and "length pre = k" and "0 \<notin> set s" and "61 \<notin> set s"
  shows "find_equals h (Ptr b k) = Some (Ptr b (k + length s))"
  using assms
proof (induction s arbitrary: pre k)
  case Nil
  then show ?case by (subst find_equals.simps) (auto simp: mem_simps)
next
  case (Cons c s)
  have "load h (Ptr b k) = Some c" using Cons.prems by (auto simp: mem_simps)
  moreover have "find_equals h (Ptr b (k + 1)) = Some (Ptr b (k + 1 + length s))"
    by (rule Cons.IH [of "pre @ [c]"]) (use Cons.prems in auto)
  ultimately show ?case using Cons.prems(3,4) by (subst find_equals.simps) auto
qed

text \<open>A name the parser can read back: two characters or more, none of them special.\<close>

definition key_name :: "byte list \<Rightarrow> bool" where
  "key_name s \<longleftrightarrow> 2 \<le> length s \<and> 0 \<notin> set s \<and> 10 \<notin> set s \<and> 61 \<notin> set s \<and>
     c_isalnum (hd s) \<and> \<not> c_isspace (last s)"

definition section_name :: "byte list \<Rightarrow> bool" where
  "section_name s \<longleftrightarrow> 2 \<le> length s \<and> 0 \<notin> set s \<and> 10 \<notin> set s \<and>
     \<not> c_isspace (hd s) \<and> \<not> c_isspace (last s)"

definition section_line :: "byte list \<Rightarrow> byte list" where
  "section_line s = [91] @ s @ [93, 10]"

lemma alnum_facts: "c_isalnum c \<Longrightarrow> \<not> c_isspace c" "c_isalnum c \<Longrightarrow> c \<noteq> 91" "c_isalnum c \<Longrightarrow> c \<noteq> 0"
  by (auto simp: c_isalnum_def c_isspace_def c_isupper_def c_islower_def c_isdigit_def word_le_nat_alt)

lemma strlen_line:
  assumes "hblk h b = Some (s @ 0 # rest)" and "0 \<notin> set s" and "length s < 96"
  shows "cpr_strlen h (Ptr b 0) 96 = Some (length s)"
proof -
  have "cstr h (Ptr b 0) s" using assms by (intro cstr_mid [of _ _ "[]"]) auto
  then show ?thesis using assms(3) cpr_strlen_cstr [of h "Ptr b 0" s 96] by simp
qed

lemma parse_section_line:
  assumes "hblk h b = Some (section_line s @ 0 # rest)" and "section_name s" and "length s + 3 < 96"
  shows "parse_line h (Ptr b 0) = Some (Section (Ptr b 1), put_block h b ([91] @ s @ [0, 0, 0] @ rest))"
proof -
  obtain x xs where s: "s = x # xs" "\<not> c_isspace x" using assms(2) by (cases s) (auto simp: section_name_def)
  obtain ys y where e: "s = ys @ [y]" "\<not> c_isspace y"
    using assms(2) by (cases s rule: rev_cases) (auto simp: section_name_def)
  have nz: "0 \<notin> set (section_line s)" using assms(2) by (auto simp: section_line_def section_name_def)
  have len: "cpr_strlen h (Ptr b 0) 96 = Some (length s + 3)"
    using strlen_line [OF assms(1) nz] assms(3) by (simp add: section_line_def)
  let ?h = "put_block h b (([91] @ s) @ [93, 0] @ 0 # rest)"
  have blk: "hblk h b = Some (([91] @ s) @ [93, 10] @ 0 # rest)" using assms(1) by (simp add: section_line_def)
  have trim: "trim_end h (Ptr b 0) (length s + 3) = Some (length s + 1, ?h)"
    using trim_end_newline [OF blk, of "length s + 1"] by (simp add: c_isspace_def numeral_3_eq_3)
  have last10: "load h (Ptr b (length s + 2)) = Some 10" using blk by (auto simp: load_Ptr nth_append)
  have at: "load ?h (Ptr b 0) = Some 91" "load ?h (Ptr b (length s + 1)) = Some 93" "load ?h (Ptr b 1) = Some x"
    by (auto simp: load_Ptr nth_append s(1))
  have "load ?h (Ptr b (length s)) = Some y" by (auto simp: load_Ptr nth_append e(1))
  then have close: "close_loop ?h (Ptr b 0) (length s + 1) = Some (length s)"
    using e(2) by (auto simp: e(1))
  have opens: "open_loop ?h (Ptr b 0) (length s) = Some (Ptr b 1, length s)"
    using at(3) s(2) by (subst open_loop.simps) simp
  have "store ?h (Ptr b (1 + length s)) 0 = Some (put_block h b ([91] @ s @ [0, 0, 0] @ rest))"
    by (auto simp: store_Ptr list_update_append)
  then have "parse_section ?h (Ptr b 0) (length s + 1) = Some (Section (Ptr b 1), put_block h b ([91] @ s @ [0, 0, 0] @ rest))"
    using close opens assms(2) by (simp add: parse_section_def section_name_def)
  moreover have "skip_space ?h (Ptr b 0) = Some (Ptr b 0)"
    by (rule skip_space_stop [OF at(1)]) (simp add: c_isspace_def)
  ultimately show ?thesis using len last10 trim at(1,2) by (simp add: parse_line_def)
qed

lemma unquote_mid:
  assumes "hblk h b = Some (pre @ [q] @ v @ [q] @ 0 # rest)" and "length pre = k" and "q = 39 \<or> q = 34"
    and "0 \<notin> set v" and "length v + 2 < 96"
  shows "unquote h (Ptr b k) = Some (Ptr b (k + 1), put_block h b (pre @ [q] @ v @ [0] @ 0 # rest))"
proof -
  let ?h = "put_block h b (pre @ [q] @ v @ [0] @ 0 # rest)"
  have "cstr h (Ptr b k) ([q] @ v @ [q])"
    using assms by (intro cstr_mid [where pre = pre and post = rest]) auto
  then have "cpr_strlen h (Ptr b k) 96 = Some (length v + 2)"
    using assms(5) cpr_strlen_cstr [of h "Ptr b k" "[q] @ v @ [q]" 96] by simp
  moreover have "load h (Ptr b k) = Some q" "load h (Ptr b (k + (length v + 2 - 1))) = Some q"
    "store h (Ptr b (k + (length v + 2 - 1))) 0 = Some ?h" "load ?h (Ptr b k) = Some q"
    using assms(1,2) by (auto simp: load_Ptr store_Ptr nth_append list_update_append)
  ultimately show ?thesis using assms(3) by (auto simp: unquote_def)
qed

lemma parse_key_line:
  assumes "hblk h b = Some (key_line s q v @ 0 # rest)" and "key_name s" and "q = 39 \<or> q = 34"
    and "0 \<notin> set v" and "length s + length v + 4 < 96"
  shows "parse_line h (Ptr b 0) = Some (Key (Ptr b 0) (Ptr b (length s + 2)),
    put_block h b (s @ [0, q] @ v @ [0, 0, 0] @ rest))"
proof -
  obtain x xs where s: "s = x # xs" "c_isalnum x" using assms(2) by (cases s) (auto simp: key_name_def)
  obtain ys y where e: "s = ys @ [y]" "\<not> c_isspace y"
    using assms(2) by (cases s rule: rev_cases) (auto simp: key_name_def)
  have q: "\<not> c_isspace q" "q \<noteq> 0" using assms(3) by (auto simp: c_isspace_def)
  have nz: "0 \<notin> set s" "61 \<notin> set s" "0 \<notin> set (key_line s q v)"
    using assms(2,4) q(2) by (auto simp: key_line_def key_name_def)
  have ys: "0 < length ys" using assms(2) e(1) by (auto simp: key_name_def)
  have len: "cpr_strlen h (Ptr b 0) 96 = Some (length s + length v + 4)"
    using strlen_line [OF assms(1) nz(3)] assms(5) by (simp add: key_line_def)
  let ?pre = "s @ [61, q] @ v"
  let ?h = "put_block h b (?pre @ [q, 0] @ 0 # rest)"
  have blk: "hblk h b = Some (?pre @ [q, 10] @ 0 # rest)" using assms(1) by (simp add: key_line_def)
  have trim: "trim_end h (Ptr b 0) (length s + length v + 4) = Some (length ?pre, ?h)"
    using trim_end_newline [OF blk refl q(1)] by (simp add: eval_nat_numeral)
  have last10: "load h (Ptr b (3 + (length s + length v))) = Some 10" using blk by (auto simp: load_Ptr nth_append)
  have at: "load ?h (Ptr b 0) = Some x" "load ?h (Ptr b (length s)) = Some 61"
    by (auto simp: load_Ptr nth_append s(1))
  have at': "load ?h (Ptr b (length ys)) = Some y" by (auto simp: load_Ptr nth_append e(1))
  have find: "find_equals ?h (Ptr b 0) = Some (Ptr b (length s))"
    using find_equals_mid [of ?h b "[]" s "q # v @ [q, 0] @ 0 # rest" 0] nz by simp
  have bk: "back_space ?h (Ptr b 0) (length s - 1) = Some (length ys)"
    using ys at' e(2) by (cases "length ys") (auto simp: e(1))
  let ?h2 = "put_block h b (s @ [0, q] @ v @ [q, 0] @ 0 # rest)"
  have st: "store ?h (Ptr b (length ys + 1)) 0 = Some ?h2"
    using e(1) by (auto simp: store_Ptr list_update_append)
  have body: "load ?h2 (Ptr b (length s + 1)) = Some q" by (auto simp: load_Ptr nth_append)
  have un: "unquote ?h2 (Ptr b (length s + 1)) = Some (Ptr b (length s + 2), put_block h b (s @ [0, q] @ v @ [0, 0, 0] @ rest))"
    using unquote_mid [of ?h2 b "s @ [0]" q v "0 # rest" "length s + 1"] assms(3-5) by simp
  have "parse_key ?h (Ptr b 0) = Some (Key (Ptr b 0) (Ptr b (length s + 2)), put_block h b (s @ [0, q] @ v @ [0, 0, 0] @ rest))"
    using find at(2) bk st body un ys q by (simp add: parse_key_def ptr_diff_def s(1))
  moreover have "skip_space ?h (Ptr b 0) = Some (Ptr b 0)"
    using alnum_facts [OF s(2)] by (intro skip_space_stop [OF at(1)]) auto
  ultimately show ?thesis using len last10 trim at(1) alnum_facts [OF s(2)] s(2) by (simp add: parse_line_def)
qed

subsection \<open>The lists in the store\<close>

text \<open>
  \<open>keys_at a st p kvs\<close>: the key nodes from \<open>p\<close> on hold the pairs \<open>kvs\<close>, none of it in block \<open>a\<close>,
  which is the local array of a parser that is running.
\<close>

definition text_at :: "nat \<Rightarrow> kstate \<Rightarrow> ptr \<Rightarrow> byte list \<Rightarrow> bool" where
  "text_at a st p s \<longleftrightarrow> cstr (kmem st) p s \<and> ptr_block p \<noteq> a"

primrec keys_at :: "nat \<Rightarrow> kstate \<Rightarrow> ptr \<Rightarrow> (byte list \<times> byte list) list \<Rightarrow> bool" where
  "keys_at a st p [] \<longleftrightarrow> p = Null"
| "keys_at a st p (x # kvs) \<longleftrightarrow> (case get_key st p of None \<Rightarrow> False
     | Some k \<Rightarrow> ptr_block p \<noteq> a \<and> text_at a st (key_id k) (fst x) \<and> text_at a st (key_value k) (snd x) \<and>
         keys_at a st (key_next k) kvs)"

type_synonym ksection = "byte list \<times> (byte list \<times> byte list) list"

text \<open>A segment of the section list, from \<open>p\<close> up to \<open>q\<close>, whose nodes are not block \<open>c\<close>.\<close>

primrec secs_seg :: "nat \<Rightarrow> (nat \<Rightarrow> bool) \<Rightarrow> kstate \<Rightarrow> ptr \<Rightarrow> ptr \<Rightarrow> ksection list \<Rightarrow> bool" where
  "secs_seg a c st p q [] \<longleftrightarrow> p = q"
| "secs_seg a c st p q (x # xs) \<longleftrightarrow> (case get_sec st p of None \<Rightarrow> False
     | Some s \<Rightarrow> ptr_block p \<noteq> a \<and> \<not> c (ptr_block p) \<and> text_at a st (sec_id s) (fst x) \<and>
         keys_at a st (sec_keys s) (snd x) \<and> secs_seg a c st (sec_next s) q xs)"

definition secs_at :: "nat \<Rightarrow> kstate \<Rightarrow> ptr \<Rightarrow> ksection list \<Rightarrow> bool" where
  "secs_at a st p xs \<longleftrightarrow> secs_seg a (\<lambda>b. False) st p Null xs"

text \<open>What a step leaves alone: live blocks other than \<open>a\<close>, and section nodes other than \<open>c\<close>.\<close>

definition kframe :: "nat \<Rightarrow> (nat \<Rightarrow> bool) \<Rightarrow> kstate \<Rightarrow> kstate \<Rightarrow> bool" where
  "kframe a c st st' \<longleftrightarrow> (\<forall>b. b \<noteq> a \<longrightarrow> hblk (kmem st) b \<noteq> None \<longrightarrow>
     hblk (kmem st') b = hblk (kmem st) b \<and> kkey st' b = kkey st b \<and> (\<not> c b \<longrightarrow> ksec st' b = ksec st b))"

lemma kframe_refl [simp]: "kframe a c st st"
  by (simp add: kframe_def)

lemma kframe_trans: "kframe a c st st' \<Longrightarrow> kframe a c st' st'' \<Longrightarrow> kframe a c st st''"
  by (simp add: kframe_def)

lemma text_at_frame: "text_at a st p s \<Longrightarrow> kframe a c st st' \<Longrightarrow> text_at a st' p s"
proof -
  assume t: "text_at a st p s" and f: "kframe a c st st'"
  obtain b k where p: "p = Ptr b k" using t cstr_not_Null by (cases p) (auto simp: text_at_def)
  have "hblk (kmem st) b \<noteq> None" using t p by (cases s) (auto simp: text_at_def load_def split: option.splits)
  with t f p show ?thesis by (auto simp: text_at_def kframe_def intro: cstr_same_block)
qed

lemma live_node_block: "live_node st p \<Longrightarrow> \<exists>bs. p = Ptr (ptr_block p) 0 \<and> hblk (kmem st) (ptr_block p) = Some bs \<and> 24 \<le> length bs"
  by (auto simp: live_node_def node_sizeof_def split: ptr.splits option.splits)

lemma live_node_frame: "live_node st p \<Longrightarrow> ptr_block p \<noteq> a \<Longrightarrow> kframe a c st st' \<Longrightarrow> live_node st' p"
  by (auto simp: live_node_def kframe_def split: ptr.splits option.splits)

lemma get_key_frame: "get_key st p = Some k \<Longrightarrow> ptr_block p \<noteq> a \<Longrightarrow> kframe a c st st' \<Longrightarrow> get_key st' p = Some k"
  using live_node_frame [of st p a c st'] live_node_block [of st p]
  by (auto simp: get_key_def kframe_def split: if_splits)

lemma get_sec_frame:
  "get_sec st p = Some s \<Longrightarrow> ptr_block p \<noteq> a \<Longrightarrow> \<not> c (ptr_block p) \<Longrightarrow> kframe a c st st' \<Longrightarrow> get_sec st' p = Some s"
  using live_node_frame [of st p a c st'] live_node_block [of st p]
  by (auto simp: get_sec_def kframe_def split: if_splits)

lemma keys_at_Cons:
  "keys_at a st p (x # kvs) \<longleftrightarrow> (\<exists>k. get_key st p = Some k \<and> ptr_block p \<noteq> a \<and> text_at a st (key_id k) (fst x) \<and>
     text_at a st (key_value k) (snd x) \<and> keys_at a st (key_next k) kvs)"
  by (auto split: option.splits)

lemma secs_seg_Cons:
  "secs_seg a c st p q (x # xs) \<longleftrightarrow> (\<exists>s. get_sec st p = Some s \<and> ptr_block p \<noteq> a \<and> \<not> c (ptr_block p) \<and>
     text_at a st (sec_id s) (fst x) \<and> keys_at a st (sec_keys s) (snd x) \<and> secs_seg a c st (sec_next s) q xs)"
  by (auto split: option.splits)

declare keys_at.simps(2) [simp del] secs_seg.simps(2) [simp del]

lemma keys_at_frame: "keys_at a st p kvs \<Longrightarrow> kframe a c st st' \<Longrightarrow> keys_at a st' p kvs"
proof (induction kvs arbitrary: p)
  case (Cons x kvs)
  then obtain k where "get_key st p = Some k" "ptr_block p \<noteq> a" "text_at a st (key_id k) (fst x)"
    "text_at a st (key_value k) (snd x)" "keys_at a st (key_next k) kvs" by (auto simp: keys_at_Cons)
  with Cons show ?case unfolding keys_at_Cons by (intro exI [of _ k]) (blast intro: get_key_frame text_at_frame)
qed simp

lemma secs_seg_frame:
  "secs_seg a c st p q xs \<Longrightarrow> kframe a c st st' \<Longrightarrow> secs_seg a c st' p q xs"
proof (induction xs arbitrary: p)
  case (Cons x xs)
  then obtain s where "get_sec st p = Some s" "ptr_block p \<noteq> a" "\<not> c (ptr_block p)" "text_at a st (sec_id s) (fst x)"
    "keys_at a st (sec_keys s) (snd x)" "secs_seg a c st (sec_next s) q xs" by (auto simp: secs_seg_Cons)
  with Cons show ?case unfolding secs_seg_Cons
    by (intro exI [of _ s]) (blast intro: get_sec_frame text_at_frame keys_at_frame)
qed simp

lemma secs_seg_append:
  "secs_seg a c st p q (xs @ ys) \<longleftrightarrow> (\<exists>r. secs_seg a c st p r xs \<and> secs_seg a c st r q ys)"
  by (induction xs arbitrary: p) (auto simp: secs_seg_Cons)

lemma secs_seg_weaken: "secs_seg a c st p q xs \<Longrightarrow> (\<And>b. d b \<Longrightarrow> c b) \<Longrightarrow> secs_seg a d st p q xs"
  by (induction xs arbitrary: p) (auto simp: secs_seg_Cons)

subsection \<open>Fresh blocks\<close>

definition fresh_ext :: "heap \<Rightarrow> heap \<Rightarrow> nat \<Rightarrow> byte list \<Rightarrow> bool" where
  "fresh_ext h h' b bs \<longleftrightarrow> heap_ok h' \<and> hgrant h' = hgrant h \<and> hblk h b = None \<and> hblk h' = (hblk h)(b \<mapsto> bs)"

text \<open>
  \<open>grants_all h\<close>: the store is sound and no allocation is refused. The theorems about loading are stated
  under it; \<open>refused_section_crashes\<close> below shows what happens otherwise.
\<close>

definition grants_all :: "heap \<Rightarrow> bool" where
  "grants_all h \<longleftrightarrow> heap_ok h \<and> (\<forall>n m. hgrant h n m)"

lemma fresh_grants: "fresh_ext h h' b bs \<Longrightarrow> grants_all h \<Longrightarrow> grants_all h'"
  by (simp add: fresh_ext_def grants_all_def)

lemma malloc_fresh:
  assumes "grants_all h"
  obtains b h' junk where "c_malloc h n = (Ptr b 0, h')" and "length junk = n" and "fresh_ext h h' b junk"
proof -
  have ok: "heap_ok h" "hgrant h (hseq h) n" using assms by (auto simp: grants_all_def)
  then obtain h' junk where "c_malloc h n = (Ptr (hseq h) 0, h')" "length junk = n"
    "hblk h' = (hblk h)(hseq h \<mapsto> junk)" "heap_ok h'" by (rule c_malloc_granted)
  moreover from this have "hgrant h' = hgrant h" using hgrant_malloc [of h n] by simp
  moreover have "hblk h (hseq h) = None" using ok(1) by (simp add: heap_ok_def)
  ultimately show ?thesis by (intro that) (auto simp: fresh_ext_def)
qed

lemma c_strdup_fresh:
  assumes "grants_all h" and "cstr h p s" and "length s + 1 < 2 ^ 64"
  obtains b h' where "c_strdup h p = Some (Ptr b 0, h')" and "fresh_ext h h' b (s @ [0])"
proof -
  from assms(1) obtain b h1 junk where m: "c_malloc h (length s + 1) = (Ptr b 0, h1)" "length junk = length s + 1"
    "fresh_ext h h1 b junk" by (rule malloc_fresh)
  obtain d k where p: "p = Ptr d k" using cstr_not_Null [OF assms(2)] by (cases p) auto
  with assms(2) obtain pre post where d: "hblk h d = Some (pre @ s @ 0 # post)" "length pre = k"
    by (auto elim: cstr_block)
  with m(3) have db: "d \<noteq> b" by (auto simp: fresh_ext_def)
  with d m(3) have "load_list h1 p (length (s @ [0])) = Some (s @ [0])"
    unfolding p by (intro load_list_mid [where pre = pre and post = post]) (auto simp: fresh_ext_def)
  moreover have "hblk h1 b = Some ([] @ junk @ [])" using m(3) by (simp add: fresh_ext_def)
  ultimately have "c_memcpy h1 (Ptr b 0) p (length s + 1) = Some (put_block h1 b ([] @ (s @ [0]) @ []))"
    using m(2) db p by (intro c_memcpy_mid) auto
  moreover have "sz_add (length s) 1 = length s + 1" using assms(3) by (simp add: size_simps)
  ultimately have "c_strdup h p = Some (Ptr b 0, put_block h1 b (s @ [0]))"
    using m(1) c_strlen_cstr [OF assms(2)] by (simp add: c_strdup_def)
  moreover have "heap_ok (put_block h1 b (s @ [0]))"
    using m(3) by (intro heap_ok_put_block heap_ok_live [of h1 b junk]) (auto simp: fresh_ext_def)
  ultimately show ?thesis using m(3) by (intro that) (auto simp: fresh_ext_def)
qed

context str_dup
begin

lemma dup_fresh:
  assumes "grants_all h" and "cstr h p s" and "length s + 1 < 2 ^ 64"
  obtains b h' where "dup h p lim = Some (Ptr b 0, h')" and "fresh_ext h h' b (map f (clip lim s) @ [0])"
proof -
  have ok: "heap_ok h" using assms(1) by (simp add: grants_all_def)
  then have "hblk h (hseq h) = None" by (simp add: heap_ok_def)
  moreover obtain h' where "dup h p lim = Some (Ptr (hseq h) 0, h')" "heap_ok h'" "hgrant h' = hgrant h"
    "hblk h' = (hblk h)(hseq h \<mapsto> map f (clip lim s) @ [0])"
    using dup_granted [OF ok assms(2,3), of lim] assms(1) by (auto simp: grants_all_def)
  ultimately show ?thesis by (intro that [of "hseq h" h']) (auto simp: fresh_ext_def)
qed

end

lemma cstr_live: "cstr h p s \<Longrightarrow> hblk h (ptr_block p) \<noteq> None"
  by (cases s; cases p) (auto simp: load_def split: option.splits)

lemma cstr_fresh: "fresh_ext h h' b bs \<Longrightarrow> cstr h p s \<Longrightarrow> cstr h' p s"
  using cstr_live [of h p s] by (auto simp: fresh_ext_def intro!: cstr_same_block [of h p s])

lemma cstr_fresh_new: "fresh_ext h h' b (s @ [0]) \<Longrightarrow> 0 \<notin> set s \<Longrightarrow> cstr h' (Ptr b 0) s"
  by (intro cstr_mid [where pre = "[]" and post = "[]"]) (auto simp: fresh_ext_def)

lemma fresh_block: "fresh_ext h h' b bs \<Longrightarrow> hblk h c \<noteq> None \<Longrightarrow> c \<noteq> b \<and> hblk h' c = hblk h c"
  by (auto simp: fresh_ext_def)

lemma live_node_upd [simp]: "live_node (st\<lparr>kkey := k\<rparr>) p = live_node st p" "live_node (st\<lparr>ksec := s\<rparr>) p = live_node st p"
  "live_node (st\<lparr>ksec := s, kmem := h\<rparr>) p = live_node (st\<lparr>kmem := h\<rparr>) p"
  by (simp_all add: live_node_def split: ptr.splits)

lemma secs_seg_fresh:
  "secs_seg a c st p q xs \<Longrightarrow> hblk (kmem st) nb = None \<Longrightarrow> secs_seg a (\<lambda>b. c b \<or> nb = b) st p q xs"
proof (induction xs arbitrary: p)
  case (Cons x xs)
  then obtain s where s: "get_sec st p = Some s" by (auto simp: secs_seg_Cons)
  then have "live_node st p" by (auto simp: get_sec_def split: if_splits)
  then have "nb \<noteq> ptr_block p" using live_node_block [of st p] Cons.prems(2) by auto
  with Cons show ?case by (auto simp: secs_seg_Cons)
qed simp

lemma kframe_weaken: "kframe a c st st' \<Longrightarrow> (\<And>b. c b \<Longrightarrow> d b) \<Longrightarrow> kframe a d st st'"
  by (auto simp: kframe_def)

definition loaded :: "nat \<Rightarrow> kstate \<Rightarrow> ptr \<Rightarrow> ptr \<Rightarrow> ksection list \<Rightarrow> ksection \<Rightarrow> bool" where
  "loaded a st root cur front x \<longleftrightarrow> grants_all (kmem st) \<and> ptr_block cur \<noteq> a \<and>
     secs_seg a ((=) (ptr_block cur)) st root cur front \<and>
     (case get_sec st cur of None \<Rightarrow> False
      | Some s \<Rightarrow> sec_next s = Null \<and> text_at a st (sec_id s) (fst x) \<and> keys_at a st (sec_keys s) (snd x))"

lemma loadedE:
  assumes "loaded a st root cur front x"
  obtains s c where "cur = Ptr c 0" and "get_sec st cur = Some s" and "sec_next s = Null" and "c \<noteq> a"
    and "text_at a st (sec_id s) (fst x)" and "keys_at a st (sec_keys s) (snd x)"
    and "secs_seg a ((=) c) st root cur front" and "grants_all (kmem st)" and "live_node st cur"
proof -
  obtain s where s: "get_sec st cur = Some s" using assms by (auto simp: loaded_def split: option.splits)
  then have "live_node st cur" by (auto simp: get_sec_def split: if_splits)
  with s assms show ?thesis using live_node_block [of st cur] by (intro that) (auto simp: loaded_def)
qed

lemma make_keydata_loaded:
  assumes "loaded a st root cur front x" and "cstr (kmem st) name i" and "cstr (kmem st) val v"
    and "length i + 1 < 2 ^ 64" and "length v + 1 < 2 ^ 64" and "hblk (kmem st) a \<noteq> None"
  obtains p st' where "make_keydata st cur name val = Some (p, st')"
    and "loaded a st' root cur front (fst x, (map c_tolower (clip 32 i), v) # snd x)"
    and "hblk (kmem st') a = hblk (kmem st) a"
proof -
  obtain g c where cur: "cur = Ptr c 0" and g: "get_sec st cur = Some g" "sec_next g = Null"
    "text_at a st (sec_id g) (fst x)" "keys_at a st (sec_keys g) (snd x)" "c \<noteq> a"
    and seg: "secs_seg a ((=) c) st root cur front" and ga: "grants_all (kmem st)" and live: "live_node st cur"
    using assms(1) by (rule loadedE)
  obtain kb h1 junk where f1: "c_malloc (kmem st) 24 = (Ptr kb 0, h1)" "length junk = 24" "fresh_ext (kmem st) h1 kb junk"
    using ga by (rule malloc_fresh)
  have ga1: "grants_all h1" using fresh_grants [OF f1(3) ga] .
  obtain ib h2 where f2: "cpr_lower h1 name 32 = Some (Ptr ib 0, h2)" "fresh_ext h1 h2 ib (map c_tolower (clip 32 i) @ [0])"
    using lowdup.dup_fresh [OF ga1 cstr_fresh [OF f1(3) assms(2)] assms(4)] by blast
  have ga2: "grants_all h2" using fresh_grants [OF f2(2) ga1] .
  obtain vb h3 where f3: "c_strdup h2 val = Some (Ptr vb 0, h3)" "fresh_ext h2 h3 vb (v @ [0])"
    using c_strdup_fresh [OF ga2 cstr_fresh [OF f2(2) cstr_fresh [OF f1(3) assms(3)]] assms(5)] by blast
  have ga3: "grants_all h3" using fresh_grants [OF f3(2) ga2] .
  have old: "b \<noteq> kb \<and> b \<noteq> ib \<and> b \<noteq> vb \<and> hblk h3 b = hblk (kmem st) b" if "hblk (kmem st) b \<noteq> None" for b
    using that f1(3) f2(2) f3(2) by (auto simp: fresh_ext_def)
  have kb: "hblk h3 kb = Some junk" using f1(3) f2(2) f3(2) by (auto simp: fresh_ext_def)
  have texts: "cstr h3 (Ptr ib 0) (map c_tolower (clip 32 i))" "cstr h3 (Ptr vb 0) v"
  proof -
    have "0 \<notin> set (map c_tolower (clip 32 i))"
      using clip_nonzero [OF cstr_nonzero [OF assms(2)], of 32] lowdup.f_nonzero by (auto simp: image_iff) metis
    from cstr_fresh_new [OF f2(2) this] show "cstr h3 (Ptr ib 0) (map c_tolower (clip 32 i))"
      by (rule cstr_fresh [OF f3(2)])
    show "cstr h3 (Ptr vb 0) v" using cstr_fresh_new [OF f3(2) cstr_nonzero [OF assms(3)]] .
  qed
  define K where "K = \<lparr>key_next = sec_keys g, key_id = Ptr ib 0, key_value = Ptr vb 0\<rparr>"
  define st' where "st' = st\<lparr>kmem := h3, kkey := (kkey st)(kb \<mapsto> K), ksec := (ksec st)(c \<mapsto> g\<lparr>sec_keys := Ptr kb 0\<rparr>)\<rparr>"
  have frame: "kframe a ((=) c) st st'" using old by (auto simp: kframe_def st'_def)
  have live3: "live_node (st\<lparr>kmem := h3\<rparr>) cur" "live_node (st\<lparr>kmem := h3\<rparr>) (Ptr kb 0)" "live_node st' cur" "live_node st' (Ptr kb 0)"
    using live old kb f1(2) cur by (auto simp: live_node_def node_sizeof_def st'_def split: option.splits)
  have mk: "make_keydata st cur name val = Some (Ptr kb 0, st')"
  proof -
    have "get_sec (st\<lparr>kmem := h3\<rparr>) cur = Some g" using g(1) live3(1) by (auto simp: get_sec_def split: if_splits)
    moreover have "live_node ((st\<lparr>kmem := h3\<rparr>)\<lparr>kkey := k\<rparr>) cur" for k
      using live3(1) by simp
    ultimately show ?thesis using f1(1) f2(1) f3(1) live3(2) cur
      by (simp add: make_keydata_def set_key_def set_sec_def K_def st'_def node_sizeof_def)
  qed
  have na: "kb \<noteq> a" "ib \<noteq> a" "vb \<noteq> a" using old [OF assms(6)] by auto
  have "keys_at a st' (sec_keys g) (snd x)" by (rule keys_at_frame [OF g(4) frame])
  then have "keys_at a st' (Ptr kb 0) ((map c_tolower (clip 32 i), v) # snd x)"
    unfolding keys_at_Cons using live3(4) na texts
    by (intro exI [of _ K]) (auto simp: K_def text_at_def get_key_def st'_def)
  moreover have "text_at a st' (sec_id g) (fst x)" by (rule text_at_frame [OF g(3) frame])
  moreover have "secs_seg a ((=) c) st' root cur front" by (rule secs_seg_frame [OF seg frame])
  moreover have "get_sec st' cur = Some (g\<lparr>sec_keys := Ptr kb 0\<rparr>)"
    using live3(3) cur by (simp add: get_sec_def st'_def)
  ultimately have "loaded a st' root cur front (fst x, (map c_tolower (clip 32 i), v) # snd x)"
    using g(2,5) cur ga3 by (simp add: loaded_def st'_def)
  then show ?thesis using mk old [OF assms(6)] by (intro that [of "Ptr kb 0" st']) (auto simp: st'_def)
qed

lemma make_keysection_fresh:
  assumes "grants_all (kmem st)" and "cstr (kmem st) name i" and "length i + 1 < 2 ^ 64"
    and "prior = Null \<or> (\<exists>s. get_sec st prior = Some s)" and "hblk (kmem st) a \<noteq> None"
  obtains nb st' sid where "make_keysection st name prior = Some (Ptr nb 0, st')" and "grants_all (kmem st')"
    and "kframe a ((=) (ptr_block prior)) st st'" and "nb \<noteq> a" and "hblk (kmem st) nb = None" and "hblk (kmem st') a = hblk (kmem st) a"
    and "get_sec st' (Ptr nb 0) = Some \<lparr>sec_next = Null, sec_keys = Null, sec_id = sid\<rparr>"
    and "text_at a st' sid (map c_toupper (clip 32 i))"
    and "prior = Null \<or> get_sec st' prior = map_option (\<lambda>s. s\<lparr>sec_next := Ptr nb 0\<rparr>) (get_sec st prior)"
proof -
  obtain nb h1 junk where f1: "c_malloc (kmem st) 24 = (Ptr nb 0, h1)" "length junk = 24" "fresh_ext (kmem st) h1 nb junk"
    using assms(1) by (rule malloc_fresh)
  have ga1: "grants_all h1" using fresh_grants [OF f1(3) assms(1)] .
  obtain ib h2 where f2: "cpr_upper h1 name 32 = Some (Ptr ib 0, h2)" "fresh_ext h1 h2 ib (map c_toupper (clip 32 i) @ [0])"
    using updup.dup_fresh [OF ga1 cstr_fresh [OF f1(3) assms(2)] assms(3)] by blast
  have ga2: "grants_all h2" using fresh_grants [OF f2(2) ga1] .
  have old: "b \<noteq> nb \<and> b \<noteq> ib \<and> hblk h2 b = hblk (kmem st) b \<and> hblk h1 b = hblk (kmem st) b" if "hblk (kmem st) b \<noteq> None" for b
    using fresh_block [OF f1(3) that] fresh_block [OF f2(2), of b] that by auto
  have nb: "hblk h2 nb = Some junk" "hblk (kmem st) nb = None" using f1(3) f2(2) by (auto simp: fresh_ext_def)
  have "0 \<notin> set (map c_toupper (clip 32 i))"
    using clip_nonzero [OF cstr_nonzero [OF assms(2)], of 32] updup.f_nonzero by (auto simp: image_iff) metis
  then have texts: "cstr h2 (Ptr ib 0) (map c_toupper (clip 32 i))" by (rule cstr_fresh_new [OF f2(2)])
  define S where "S = \<lparr>sec_next = Null, sec_keys = Null, sec_id = Ptr ib 0\<rparr>"
  define ks where "ks = (if prior = Null then ksec st
    else (ksec st)(ptr_block prior \<mapsto> (the (get_sec st prior))\<lparr>sec_next := Ptr nb 0\<rparr>))"
  define st' where "st' = st\<lparr>kmem := h2, ksec := ks(nb \<mapsto> S)\<rparr>"
  have live: "live_node st prior" if "prior \<noteq> Null"
    using assms(4) that by (auto simp: get_sec_def split: if_splits)
  then have liveb: "hblk (kmem st) (ptr_block prior) \<noteq> None" if "prior \<noteq> Null"
    using live_node_block that by force
  have live1: "live_node (st\<lparr>kmem := h1\<rparr>) prior" "live_node st' prior" if "prior \<noteq> Null"
    using live [OF that] old [OF liveb [OF that]]
    by (auto simp: live_node_def st'_def split: ptr.splits option.splits)
  have live': "live_node (st\<lparr>kmem := h2, ksec := ks\<rparr>) (Ptr nb 0)" "live_node st' (Ptr nb 0)"
    using nb(1) f1(2) by (auto simp: live_node_def node_sizeof_def st'_def)
  have sec1: "get_sec (st\<lparr>kmem := h1\<rparr>) prior = get_sec st prior" if "prior \<noteq> Null"
    using live [OF that] live1 [OF that] by (simp add: get_sec_def)
  have mk: "make_keysection st name prior = Some (Ptr nb 0, st')"
  proof (cases "prior = Null")
    case True
    then show ?thesis using f1(1) f2(1) live'
      by (simp add: make_keysection_def set_sec_def S_def st'_def node_sizeof_def ks_def Let_def)
  next
    case False
    with assms(4) obtain s where s: "get_sec st prior = Some s" by auto
    with False show ?thesis using f1(1) f2(1) live' live1 [OF False] sec1 [OF False]
      by (simp add: make_keysection_def set_sec_def S_def st'_def node_sizeof_def ks_def Let_def)
  qed
  have "kframe a ((=) (ptr_block prior)) st st'"
    using old by (auto simp: kframe_def st'_def ks_def)
  moreover have na: "nb \<noteq> a" "ib \<noteq> a" using old [OF assms(5)] by auto
  moreover have "get_sec st' (Ptr nb 0) = Some S" using live'(2) by (simp add: get_sec_def st'_def)
  moreover have "prior = Null \<or> get_sec st' prior = map_option (\<lambda>s. s\<lparr>sec_next := Ptr nb 0\<rparr>) (get_sec st prior)"
  proof (cases "prior = Null")
    case False
    with assms(4) obtain s where s: "get_sec st prior = Some s" by auto
    have "ptr_block prior \<noteq> nb" using liveb [OF False] nb(2) by auto
    with False s live1(2) show ?thesis by (simp add: get_sec_def st'_def ks_def)
  qed simp
  ultimately show ?thesis using mk nb(2) old [OF assms(5)] texts ga2
    by (intro that [of nb st' "Ptr ib 0"]) (auto simp: S_def st'_def text_at_def)
qed

lemma make_keysection_loaded:
  assumes "loaded a st root cur front x" and "cstr (kmem st) name i" and "length i + 1 < 2 ^ 64"
    and "hblk (kmem st) a \<noteq> None"
  obtains cur' st' where "make_keysection st name cur = Some (cur', st')"
    and "loaded a st' root cur' (front @ [x]) (map c_toupper (clip 32 i), [])"
    and "hblk (kmem st') a = hblk (kmem st) a"
proof -
  obtain g c where cur: "cur = Ptr c 0" and g: "get_sec st cur = Some g" "sec_next g = Null"
    "text_at a st (sec_id g) (fst x)" "keys_at a st (sec_keys g) (snd x)" "c \<noteq> a"
    and seg: "secs_seg a ((=) c) st root cur front" and ga: "grants_all (kmem st)" and live: "live_node st cur"
    using assms(1) by (rule loadedE)
  obtain nb st' sid where mk: "make_keysection st name cur = Some (Ptr nb 0, st')" "grants_all (kmem st')"
    and frame: "kframe a ((=) (ptr_block cur)) st st'" and nb: "nb \<noteq> a" "hblk (kmem st) nb = None"
    and ha: "hblk (kmem st') a = hblk (kmem st) a"
    and new: "get_sec st' (Ptr nb 0) = Some \<lparr>sec_next = Null, sec_keys = Null, sec_id = sid\<rparr>"
      "text_at a st' sid (map c_toupper (clip 32 i))"
    and prior: "cur = Null \<or> get_sec st' cur = map_option (\<lambda>s. s\<lparr>sec_next := Ptr nb 0\<rparr>) (get_sec st cur)"
    using make_keysection_fresh [OF ga assms(2,3), of cur a] g(1) assms(4) by blast
  have "kframe a (\<lambda>b. c = b \<or> nb = b) st st'" using frame cur by (auto intro: kframe_weaken)
  from secs_seg_frame [OF secs_seg_fresh [OF seg nb(2)] this] have "secs_seg a ((=) nb) st' root cur front"
    by (rule secs_seg_weaken) simp
  moreover have "c \<noteq> nb" using live nb(2) cur by (auto simp: live_node_def)
  then have "secs_seg a ((=) nb) st' cur (Ptr nb 0) [x]"
    unfolding secs_seg_Cons using prior g cur text_at_frame [OF g(3) frame] keys_at_frame [OF g(4) frame]
    by auto
  ultimately have "secs_seg a ((=) nb) st' root (Ptr nb 0) (front @ [x])" by (auto simp: secs_seg_append)
  then show ?thesis using mk ha new nb(1) by (intro that [of "Ptr nb 0" st']) (auto simp: loaded_def)
qed

subsection \<open>Writing and reading back\<close>

definition quote_for :: "byte list \<Rightarrow> byte" where
  "quote_for v = (if 39 \<in> set v then 34 else 39)"

definition keys_text :: "(byte list \<times> byte list) list \<Rightarrow> byte list" where
  "keys_text kvs = concat (map (\<lambda>(i, v). key_line i (quote_for v) v) kvs)"

definition secs_text :: "ksection list \<Rightarrow> byte list" where
  "secs_text xs = concat (map (\<lambda>(n, kvs). section_line n @ keys_text kvs) xs)"

lemma c_text_cstr: "cstr h p s \<Longrightarrow> c_text h p = Some s"
  using load_list_cstr [of h p s "length s"] by (simp add: c_text_def c_strlen_cstr)

lemma get_key_not_Null: "get_key st p = Some k \<Longrightarrow> p \<noteq> Null"
  by (auto simp: get_key_def live_node_def split: if_splits)

lemma get_sec_not_Null: "get_sec st p = Some s \<Longrightarrow> p \<noteq> Null"
  by (auto simp: get_sec_def live_node_def split: if_splits)

lemma save_keys_text: "keys_at a st p kvs \<Longrightarrow> save_keys st p = Some (keys_text kvs)"
proof (induction kvs arbitrary: p)
  case Nil
  then show ?case by (subst save_keys.simps) (simp add: keys_text_def)
next
  case (Cons x kvs)
  then obtain k where k: "get_key st p = Some k" "text_at a st (key_id k) (fst x)" "text_at a st (key_value k) (snd x)"
    "keys_at a st (key_next k) kvs" by (auto simp: keys_at_Cons)
  have v: "cstr (kmem st) (key_value k) (snd x)" and i: "cstr (kmem st) (key_id k) (fst x)"
    using k by (auto simp: text_at_def)
  obtain q where q: "c_strchr (kmem st) (key_value k) 39 = Some q" "q \<noteq> Null \<longleftrightarrow> 39 \<in> set (snd x)"
    using c_strchr_cstr [OF v, of 39] cstr_not_Null [OF v] by auto
  show ?case using k(1) q get_key_not_Null [OF k(1)] Cons.IH [OF k(4)] c_text_cstr [OF v] c_text_cstr [OF i]
    by (subst save_keys.simps) (cases x, auto simp: keys_text_def quote_for_def)
qed

lemma save_sections_text: "secs_seg a c st p Null xs \<Longrightarrow> save_sections st p = Some (secs_text xs)"
proof (induction xs arbitrary: p)
  case Nil
  then show ?case by (subst save_sections.simps) (simp add: secs_text_def)
next
  case (Cons x xs)
  then obtain s where s: "get_sec st p = Some s" "text_at a st (sec_id s) (fst x)" "keys_at a st (sec_keys s) (snd x)"
    "secs_seg a c st (sec_next s) Null xs" by (auto simp: secs_seg_Cons)
  have "cstr (kmem st) (sec_id s) (fst x)" using s by (simp add: text_at_def)
  from c_text_cstr [OF this] show ?case
    using s(1) get_sec_not_Null [OF s(1)] Cons.IH [OF s(4)] save_keys_text [OF s(3)]
    by (subst save_sections.simps) (cases x, auto simp: secs_text_def section_line_def)
qed

lemma fgets_chunk_line: "10 \<notin> set s \<Longrightarrow> length s < n \<Longrightarrow> fgets_chunk n (s @ 10 # rest) = (s @ [10], rest)"
proof (induction s arbitrary: n)
  case Nil
  then show ?case by (cases n) auto
next
  case (Cons c s)
  then show ?case by (cases n) auto
qed

lemma load_loop_line:
  assumes "10 \<notin> set s" and "length s < 95"
  shows "load_loop st lb cur (s @ 10 # rest) = (case load_round st lb cur (s @ [10]) of None \<Rightarrow> None
     | Some (cur, st) \<Rightarrow> load_loop st lb cur rest)"
proof -
  obtain c cs where "s @ 10 # rest = c # cs" by (cases s) auto
  moreover have "fgets_chunk 95 (s @ 10 # rest) = (s @ [10], rest)" using assms by (rule fgets_chunk_line)
  ultimately show ?thesis by simp
qed

definition linebuf_ok :: "nat \<Rightarrow> kstate \<Rightarrow> bool" where
  "linebuf_ok a st \<longleftrightarrow> (case hblk (kmem st) a of None \<Rightarrow> False | Some bs \<Rightarrow> length bs = 96)"

text \<open>Scribbling over the local array does not disturb what has been loaded.\<close>

lemma loaded_linebuf:
  assumes "loaded a st root cur front x" and "linebuf_ok a st"
  shows "loaded a (st\<lparr>kmem := put_block (kmem st) a bs\<rparr>) root cur front x" (is "loaded a ?st root cur front x")
proof -
  obtain g c where cur: "cur = Ptr c 0" and g: "get_sec st cur = Some g" "sec_next g = Null"
    "text_at a st (sec_id g) (fst x)" "keys_at a st (sec_keys g) (snd x)" "c \<noteq> a"
    and seg: "secs_seg a ((=) c) st root cur front" and ga: "grants_all (kmem st)" and live: "live_node st cur"
    using assms(1) by (rule loadedE)
  have f: "kframe a d st ?st" for d by (auto simp: kframe_def)
  have "get_sec ?st cur = Some g"
    by (rule get_sec_frame [OF g(1) _ _ f [of "\<lambda>b. False"]]) (use g(5) cur in auto)
  moreover have "grants_all (kmem ?st)"
    using ga assms(2) by (auto simp: grants_all_def linebuf_ok_def split: option.splits intro: heap_ok_put_block heap_ok_live)
  ultimately show ?thesis
    using cur g secs_seg_frame [OF seg f] keys_at_frame [OF g(4) f] text_at_frame [OF g(3) f]
    by (simp add: loaded_def)
qed

lemma store_line:
  assumes "linebuf_ok a st" and "length s < 96"
  obtains rest where "store_list (kmem st) (Ptr a 0) (s @ [0]) = Some (put_block (kmem st) a (s @ 0 # rest))"
    and "length s + 1 + length rest = 96"
proof -
  obtain bs where bs: "hblk (kmem st) a = Some bs" "length bs = 96"
    using assms(1) by (auto simp: linebuf_ok_def split: option.splits)
  have "hblk (kmem st) a = Some ([] @ take (length s + 1) bs @ drop (length s + 1) bs)" using bs(1) by simp
  from store_list_mid [OF this, of 0 "s @ [0]"] bs(2) assms(2) show ?thesis
    by (intro that [of "drop (length s + 1) bs"]) auto
qed

definition wf_key :: "byte list \<times> byte list \<Rightarrow> bool" where
  "wf_key x \<longleftrightarrow> key_name (fst x) \<and> map c_tolower (fst x) = fst x \<and> length (fst x) \<le> 32 \<and>
     0 \<notin> set (snd x) \<and> 10 \<notin> set (snd x) \<and> length (fst x) + length (snd x) + 4 < 96"

lemma load_round_key:
  assumes "loaded a st root cur front x" and "linebuf_ok a st" and "wf_key (i, v)"
  obtains st' where "load_round st (Ptr a 0) cur (key_line i (quote_for v) v) = Some (cur, st')"
    and "loaded a st' root cur front (fst x, (i, v) # snd x)" and "linebuf_ok a st'"
proof -
  let ?line = "key_line i (quote_for v) v"
  have w: "key_name i" "map c_tolower i = i" "length i \<le> 32" "0 \<notin> set v" "length i + length v + 4 < 96"
    using assms(3) by (auto simp: wf_key_def)
  have "length ?line < 96" using w(5) by (simp add: key_line_def)
  from store_line [OF assms(2) this] obtain rest where st1: "store_list (kmem st) (Ptr a 0) (?line @ [0]) =
      Some (put_block (kmem st) a (?line @ 0 # rest))" and len: "length ?line + 1 + length rest = 96" .
  let ?h = "put_block (kmem st) a (?line @ 0 # rest)"
  let ?bs = "i @ [0, quote_for v] @ v @ [0, 0, 0] @ rest"
  have parse: "parse_line ?h (Ptr a 0) = Some (Key (Ptr a 0) (Ptr a (length i + 2)), put_block (kmem st) a ?bs)"
    using parse_key_line [of ?h a i "quote_for v" v rest] w by (simp add: quote_for_def)
  let ?st = "st\<lparr>kmem := put_block (kmem st) a ?bs\<rparr>"
  have ld: "loaded a ?st root cur front x" by (rule loaded_linebuf [OF assms(1,2)])
  have nz: "0 \<notin> set i" using w(1) by (simp add: key_name_def)
  have c1: "cstr (kmem ?st) (Ptr a 0) i"
    using nz by (intro cstr_mid [where pre = "[]" and post = "[quote_for v] @ v @ [0, 0, 0] @ rest"]) auto
  have c2: "cstr (kmem ?st) (Ptr a (length i + 2)) v"
    using w(4) by (intro cstr_mid [where pre = "i @ [0, quote_for v]" and post = "[0, 0] @ rest"]) auto
  obtain p st' where mk: "make_keydata ?st cur (Ptr a 0) (Ptr a (length i + 2)) = Some (p, st')"
    "loaded a st' root cur front (fst x, (map c_tolower (clip 32 i), v) # snd x)" "hblk (kmem st') a = hblk (kmem ?st) a"
    by (rule make_keydata_loaded [OF ld c1 c2]) (use w in auto)
  have "load_round st (Ptr a 0) cur ?line = Some (cur, st')"
    using st1 parse mk(1) by (simp add: load_round_def)
  moreover have "linebuf_ok a st'" using mk(3) len by (simp add: linebuf_ok_def key_line_def)
  ultimately show ?thesis using mk(2) w(2,3) by (intro that) auto
qed

definition wf_section :: "ksection \<Rightarrow> bool" where
  "wf_section x \<longleftrightarrow> section_name (fst x) \<and> map c_toupper (fst x) = fst x \<and> length (fst x) \<le> 32 \<and>
     list_all wf_key (snd x)"

lemma load_round_section:
  assumes "loaded a st root cur front x" and "linebuf_ok a st" and "wf_section (n, kvs)"
  obtains cur' st' where "load_round st (Ptr a 0) cur (section_line n) = Some (cur', st')"
    and "loaded a st' root cur' (front @ [x]) (n, [])" and "linebuf_ok a st'"
proof -
  let ?line = "section_line n"
  have w: "section_name n" "map c_toupper n = n" "length n \<le> 32" using assms(3) by (auto simp: wf_section_def)
  have "length ?line < 96" using w(3) by (simp add: section_line_def)
  from store_line [OF assms(2) this] obtain rest where st1: "store_list (kmem st) (Ptr a 0) (?line @ [0]) =
      Some (put_block (kmem st) a (?line @ 0 # rest))" and len: "length ?line + 1 + length rest = 96" .
  let ?h = "put_block (kmem st) a (?line @ 0 # rest)"
  let ?bs = "[91] @ n @ [0, 0, 0] @ rest"
  have parse: "parse_line ?h (Ptr a 0) = Some (Section (Ptr a 1), put_block (kmem st) a ?bs)"
    using parse_section_line [of ?h a n rest] w by simp
  let ?st = "st\<lparr>kmem := put_block (kmem st) a ?bs\<rparr>"
  have ld: "loaded a ?st root cur front x" by (rule loaded_linebuf [OF assms(1,2)])
  have nz: "0 \<notin> set n" using w(1) by (simp add: section_name_def)
  have c1: "cstr (kmem ?st) (Ptr a 1) n"
    using nz by (intro cstr_mid [where pre = "[91]" and post = "[0, 0] @ rest"]) auto
  obtain cur' st' where mk: "make_keysection ?st (Ptr a 1) cur = Some (cur', st')"
    "loaded a st' root cur' (front @ [x]) (map c_toupper (clip 32 n), [])" "hblk (kmem st') a = hblk (kmem ?st) a"
    by (rule make_keysection_loaded [OF ld c1]) (use w in auto)
  have "load_round st (Ptr a 0) cur ?line = Some (cur', st')"
    using st1 parse mk(1) by (simp add: load_round_def)
  moreover have "linebuf_ok a st'" using mk(3) len by (simp add: linebuf_ok_def section_line_def)
  ultimately show ?thesis using mk(2) w(2,3) by (intro that) auto
qed

text \<open>A section name of one character is not read back, its line is skipped.\<close>

lemma parse_section_short:
  assumes "hblk h b = Some (section_line [c] @ 0 # rest)" and "c \<noteq> 0" and "\<not> c_isspace c"
  shows "parse_line h (Ptr b 0) = Some (Skip, put_block h b ([91, c, 93, 0, 0] @ rest))"
proof -
  have len: "cpr_strlen h (Ptr b 0) 96 = Some 4"
    using strlen_line [OF assms(1)] assms(2) by (simp add: section_line_def)
  let ?h = "put_block h b ([91, c, 93, 0, 0] @ rest)"
  have blk: "hblk h b = Some ([91, c] @ [93, 10] @ 0 # rest)" using assms(1) by (simp add: section_line_def)
  have trim: "trim_end h (Ptr b 0) 4 = Some (2, ?h)"
  proof -
    have "\<not> c_isspace 93" by (simp add: c_isspace_def)
    from trim_end_newline [OF blk refl this] have "trim_end h (Ptr b 0) (Suc (Suc (length [91, c]))) =
      Some (length [91, c], put_block h b ([91, c] @ [93, 0] @ 0 # rest))" .
    moreover have "Suc (Suc (length [91, c])) = 4" "length [91, c] = 2" by simp_all
    ultimately show ?thesis by (simp only: append.simps)
  qed
  have at: "load h (Ptr b 3) = Some 10" "load ?h (Ptr b 0) = Some 91" "load ?h (Ptr b (Suc (Suc 0))) = Some 93" "load ?h (Ptr b 1) = Some c"
    using blk by (auto simp: load_Ptr)
  have "close_loop ?h (Ptr b 0) 2 = Some 1" using at(4) assms(3) by (simp add: numeral_2_eq_2)
  then have "parse_section ?h (Ptr b 0) 2 = Some (Skip, ?h)" by (simp add: parse_section_def)
  moreover have "skip_space ?h (Ptr b 0) = Some (Ptr b 0)"
    by (rule skip_space_stop [OF at(2)]) (simp add: c_isspace_def)
  ultimately show ?thesis using len at trim by (simp add: parse_line_def)
qed

lemma load_round_short:
  assumes "loaded a st root cur front x" and "linebuf_ok a st" and "c \<noteq> 0" and "\<not> c_isspace c"
  obtains st' where "load_round st (Ptr a 0) cur (section_line [c]) = Some (cur, st')"
    and "loaded a st' root cur front x" and "linebuf_ok a st'"
proof -
  let ?line = "section_line [c]"
  have "length ?line < 96" by (simp add: section_line_def)
  from store_line [OF assms(2) this] obtain rest where st1: "store_list (kmem st) (Ptr a 0) (?line @ [0]) =
      Some (put_block (kmem st) a (?line @ 0 # rest))" and len: "length ?line + 1 + length rest = 96" .
  let ?h = "put_block (kmem st) a (?line @ 0 # rest)" and ?bs = "[91, c, 93, 0, 0] @ rest"
  have "parse_line ?h (Ptr a 0) = Some (Skip, put_block (kmem st) a ?bs)"
    using parse_section_short [of ?h a c rest] assms(3,4) by simp
  with st1 have "load_round st (Ptr a 0) cur ?line = Some (cur, st\<lparr>kmem := put_block (kmem st) a ?bs\<rparr>)"
    by (simp add: load_round_def)
  moreover have "linebuf_ok a (st\<lparr>kmem := put_block (kmem st) a ?bs\<rparr>)" using len by (simp add: linebuf_ok_def section_line_def)
  ultimately show ?thesis using loaded_linebuf [OF assms(1,2)] by (intro that) auto
qed

lemma load_keys_text:
  assumes "list_all wf_key kvs" and "loaded a st root cur front (n, acc)" and "linebuf_ok a st"
  shows "\<exists>st'. load_loop st (Ptr a 0) cur (keys_text kvs @ rest) = load_loop st' (Ptr a 0) cur rest \<and>
    loaded a st' root cur front (n, rev kvs @ acc) \<and> linebuf_ok a st'"
  using assms
proof (induction kvs arbitrary: st acc)
  case Nil
  then show ?case by (auto simp: keys_text_def)
next
  case (Cons x kvs)
  obtain i v where x: "x = (i, v)" by (cases x)
  have wf: "wf_key (i, v)" using Cons.prems(1) x by simp
  from load_round_key [OF Cons.prems(2,3) wf] obtain st1
    where r: "load_round st (Ptr a 0) cur (key_line i (quote_for v) v) = Some (cur, st1)"
      "loaded a st1 root cur front (n, (i, v) # acc)" "linebuf_ok a st1" by auto
  let ?s = "i @ [61, quote_for v] @ v @ [quote_for v]"
  have s: "10 \<notin> set ?s" "length ?s < 95" using wf by (auto simp: wf_key_def key_name_def quote_for_def)
  have "keys_text (x # kvs) @ rest = ?s @ 10 # keys_text kvs @ rest" "key_line i (quote_for v) v = ?s @ [10]"
    by (simp_all add: keys_text_def key_line_def x)
  with load_loop_line [OF s] r(1) have "load_loop st (Ptr a 0) cur (keys_text (x # kvs) @ rest) =
      load_loop st1 (Ptr a 0) cur (keys_text kvs @ rest)" by simp
  with Cons.IH [OF _ r(2,3)] Cons.prems(1) x show ?case by auto
qed

definition reread :: "ksection \<Rightarrow> ksection" where
  "reread x = (fst x, rev (snd x))"

lemma load_secs_text:
  assumes "list_all wf_section xs" and "loaded a st root cur front x" and "linebuf_ok a st"
  shows "\<exists>st' cur' front' x'. load_loop st (Ptr a 0) cur (secs_text xs) = Some (cur', st') \<and>
    loaded a st' root cur' front' x' \<and> front' @ [x'] = front @ [x] @ map reread xs \<and> linebuf_ok a st'"
  using assms
proof (induction xs arbitrary: st cur front x)
  case Nil
  then show ?case
    by (intro exI [of _ st] exI [of _ cur] exI [of _ front] exI [of _ x]) (simp add: secs_text_def)
next
  case (Cons y xs)
  obtain n kvs where y: "y = (n, kvs)" by (cases y)
  have wf: "wf_section (n, kvs)" using Cons.prems(1) y by simp
  from load_round_section [OF Cons.prems(2,3) wf] obtain cur1 st1
    where r: "load_round st (Ptr a 0) cur (section_line n) = Some (cur1, st1)"
      "loaded a st1 root cur1 (front @ [x]) (n, [])" "linebuf_ok a st1" .
  let ?s = "[91] @ n @ [93]"
  have s: "10 \<notin> set ?s" "length ?s < 95" using wf by (auto simp: wf_section_def section_name_def)
  have "secs_text (y # xs) = ?s @ 10 # keys_text kvs @ secs_text xs" "section_line n = ?s @ [10]"
    by (simp_all add: secs_text_def section_line_def y)
  with load_loop_line [OF s] r(1) have l1: "load_loop st (Ptr a 0) cur (secs_text (y # xs)) =
      load_loop st1 (Ptr a 0) cur1 (keys_text kvs @ secs_text xs)" by simp
  have "list_all wf_key kvs" using wf by (simp add: wf_section_def)
  from load_keys_text [OF this r(2,3)] obtain st2 where l2: "load_loop st1 (Ptr a 0) cur1 (keys_text kvs @ secs_text xs) =
      load_loop st2 (Ptr a 0) cur1 (secs_text xs)" and ld: "loaded a st2 root cur1 (front @ [x]) (n, rev kvs)" "linebuf_ok a st2"
    by fastforce
  from Cons.IH [OF _ ld] Cons.prems(1) obtain st3 cur3 front3 x3
    where "load_loop st2 (Ptr a 0) cur1 (secs_text xs) = Some (cur3, st3)" "loaded a st3 root cur3 front3 x3"
      "front3 @ [x3] = (front @ [x]) @ [(n, rev kvs)] @ map reread xs" "linebuf_ok a st3" by auto
  with l1 l2 y show ?case
    by (intro exI [of _ st3] exI [of _ cur3] exI [of _ front3] exI [of _ x3]) (simp add: reread_def)
qed

lemma loaded_secs_at:
  assumes "loaded a st root cur front x"
  shows "secs_at a st root (front @ [x])"
proof -
  obtain g c where cur: "cur = Ptr c 0" and g: "get_sec st cur = Some g" "sec_next g = Null"
    "text_at a st (sec_id g) (fst x)" "keys_at a st (sec_keys g) (snd x)" "c \<noteq> a"
    and seg: "secs_seg a ((=) c) st root cur front"
    using assms by (rule loadedE)
  have "secs_seg a (\<lambda>b. False) st root cur front" by (rule secs_seg_weaken [OF seg]) simp
  moreover have "secs_seg a (\<lambda>b. False) st cur Null [x]" unfolding secs_seg_Cons using g cur by auto
  ultimately show ?thesis by (auto simp: secs_at_def secs_seg_append)
qed

text \<open>The frame of \<^verbatim>\<open>load_keyfile\<close>: the root section before the loop, the local array gone behind it.\<close>

lemma load_keyfile_frame:
  assumes "grants_all (kmem st)" and "cstr (kmem st) star [42]"
    and loop: "\<And>a st root. loaded a st root root [] ([42], []) \<Longrightarrow> linebuf_ok a st \<Longrightarrow>
      \<exists>st' cur front x. load_loop st (Ptr a 0) root cs = Some (cur, st') \<and> loaded a st' root cur front x \<and>
        P (front @ [x]) \<and> linebuf_ok a st'"
  shows "\<exists>p st' a xs. load_keyfile st star (Some cs) = Some (p, st') \<and> secs_at a st' p xs \<and> P xs \<and>
    grants_all (kmem st') \<and> hblk (kmem st') a = None"
proof -
  define a where "a = hseq (kmem st)"
  define st0 where "st0 = st\<lparr>kmem := (put_block (kmem st) a (map (hjunk (kmem st) a) [0..<96]))\<lparr>hseq := Suc a\<rparr>\<rparr>"
  have ok: "heap_ok (kmem st)" using assms(1) by (simp add: grants_all_def)
  have ga: "grants_all (kmem st0)" using assms(1) by (auto simp: grants_all_def st0_def heap_ok_def a_def)
  have lb: "linebuf_ok a st0" by (simp add: linebuf_ok_def st0_def)
  have "ptr_block star \<noteq> a" using cstr_live [OF assms(2)] ok by (auto simp: a_def heap_ok_def)
  then have star: "cstr (kmem st0) star [42]" using cstr_same_block [OF assms(2)] by (simp add: st0_def)
  obtain rb st1 sid where mk: "make_keysection st0 star Null = Some (Ptr rb 0, st1)" "grants_all (kmem st1)" "rb \<noteq> a"
    "hblk (kmem st1) a = hblk (kmem st0) a" "get_sec st1 (Ptr rb 0) = Some \<lparr>sec_next = Null, sec_keys = Null, sec_id = sid\<rparr>"
    "text_at a st1 sid (map c_toupper (clip 32 [42]))"
  proof -
    have "hblk (kmem st0) a \<noteq> None" and "length [42 :: byte] + 1 < 2 ^ 64"
      using lb by (auto simp: linebuf_ok_def split: option.splits)
    from make_keysection_fresh [OF ga star this(2) disjI1 [OF refl] this(1)] that show ?thesis by metis
  qed
  have "map c_toupper (clip 32 [42]) = [42]" by (simp add: c_toupper_def c_islower_def)
  with mk have ld1: "loaded a st1 (Ptr rb 0) (Ptr rb 0) [] ([42], [])" by (simp add: loaded_def)
  have lb1: "linebuf_ok a st1" using lb mk(4) by (simp add: linebuf_ok_def)
  from loop [OF ld1 lb1] obtain st4 cur4 front4 x4 where
    l: "load_loop st1 (Ptr a 0) (Ptr rb 0) cs = Some (cur4, st4)" and ld4: "loaded a st4 (Ptr rb 0) cur4 front4 x4"
    and P: "P (front4 @ [x4])" and lb4: "linebuf_ok a st4" by blast
  let ?h = "(kmem st4)\<lparr>hblk := (hblk (kmem st4))(a := None)\<rparr>"
  have fr: "c_free (kmem st4) (Ptr a 0) = Some ?h" using lb4 by (auto simp: linebuf_ok_def c_free_def split: option.splits)
  have "kframe a (\<lambda>b. False) st4 (st4\<lparr>kmem := ?h\<rparr>)" by (simp add: kframe_def)
  from secs_seg_frame [OF loaded_secs_at [OF ld4, unfolded secs_at_def] this]
  have "secs_at a (st4\<lparr>kmem := ?h\<rparr>) (Ptr rb 0) (front4 @ [x4])" by (simp add: secs_at_def)
  moreover have "load_keyfile st star (Some cs) = Some (Ptr rb 0, st4\<lparr>kmem := ?h\<rparr>)"
    using mk(1) l fr by (simp add: load_keyfile_def Let_def st0_def a_def del: load_loop.simps)
  moreover have "grants_all ?h" using ld4 heap_ok_free [OF _ fr] by (auto simp: loaded_def grants_all_def)
  ultimately show ?thesis using P
    by (intro exI [of _ "Ptr rb 0"] exI [of _ "st4\<lparr>kmem := ?h\<rparr>"] exI [of _ a] exI [of _ "front4 @ [x4]"]) simp
qed

lemma load_loop_text:
  assumes "list_all wf_key kvs" and "list_all wf_section xs"
    and "loaded a st root root [] ([42], [])" and "linebuf_ok a st"
  shows "\<exists>st' cur front x. load_loop st (Ptr a 0) root (section_line [42] @ keys_text kvs @ secs_text xs) = Some (cur, st') \<and>
    loaded a st' root cur front x \<and> front @ [x] = ([42], rev kvs) # map reread xs \<and> linebuf_ok a st'"
proof -
  obtain st2 where r: "load_round st (Ptr a 0) root (section_line [42]) = Some (root, st2)"
    "loaded a st2 root root [] ([42], [])" "linebuf_ok a st2"
    by (rule load_round_short [OF assms(3,4)]) (auto simp: c_isspace_def)
  have line: "section_line [42] = [91, 42, 93] @ [10]"
    "section_line [42] @ keys_text kvs @ secs_text xs = [91, 42, 93] @ 10 # keys_text kvs @ secs_text xs"
    by (simp_all add: section_line_def)
  have l1: "load_loop st (Ptr a 0) root (section_line [42] @ keys_text kvs @ secs_text xs) =
      load_loop st2 (Ptr a 0) root (keys_text kvs @ secs_text xs)"
    unfolding line(2) by (subst load_loop_line) (use r(1) line(1) in auto)
  from load_keys_text [OF assms(1) r(2,3)] obtain st3 where
    l2: "load_loop st2 (Ptr a 0) root (keys_text kvs @ secs_text xs) = load_loop st3 (Ptr a 0) root (secs_text xs)"
    and ld3: "loaded a st3 root root [] ([42], rev kvs)" "linebuf_ok a st3" by fastforce
  from load_secs_text [OF assms(2) ld3] obtain st4 cur4 front4 x4 where
    "load_loop st3 (Ptr a 0) root (secs_text xs) = Some (cur4, st4)" "loaded a st4 root cur4 front4 x4"
    "front4 @ [x4] = ([42], rev kvs) # map reread xs" "linebuf_ok a st4" by auto
  then show ?thesis unfolding l1 l2 by blast
qed

text \<open>
  C11. Saving a key file and loading it again: the text \<^verbatim>\<open>save_keyfile\<close> writes for a list of
  sections that starts with the unnamed one parses back into fresh sections with the same names
  and, in each, the same keys and values, whatever characters the values have apart from
  newlines and quotes of both kinds included, but with the keys of each section in reverse
  order. Names of two to 32 characters in the stored case are needed; a line may have at most
  95 bytes, and no allocation is refused.
\<close>

theorem keyfile_roundtrip:
  assumes "grants_all (kmem st)" and "secs_at b st root (([42], kvs) # xs)" and "path \<noteq> Null"
    and "cstr (kmem st) star [42]" and "list_all wf_key kvs" and "list_all wf_section xs"
  shows "\<exists>text p st' a. save_keyfile st path True root = Some (Some text) \<and>
    load_keyfile st star (Some text) = Some (p, st') \<and>
    secs_at a st' p (([42], rev kvs) # map reread xs)"
proof -
  have "save_sections st root = Some (secs_text (([42], kvs) # xs))"
    using assms(2) by (auto simp: secs_at_def intro: save_sections_text)
  moreover have "root \<noteq> Null" using assms(2) get_sec_not_Null by (auto simp: secs_at_def secs_seg_Cons)
  moreover have "secs_text (([42], kvs) # xs) = section_line [42] @ keys_text kvs @ secs_text xs"
    by (simp add: secs_text_def)
  ultimately have "save_keyfile st path True root = Some (Some (section_line [42] @ keys_text kvs @ secs_text xs))"
    using assms(3) by (simp add: save_keyfile_def)
  moreover obtain p st' a where "load_keyfile st star (Some (section_line [42] @ keys_text kvs @ secs_text xs)) = Some (p, st')"
    "secs_at a st' p (([42], rev kvs) # map reread xs)"
    using load_keyfile_frame [OF assms(1,4) load_loop_text [OF assms(5,6)]] by blast
  ultimately show ?thesis by metis
qed

definition sample_keys :: kstate where
  "sample_keys = \<lparr>kmem = heap_of [replicate 24 0, [42, 0], replicate 24 0, str_bytes ''ab'' @ [0],
       str_bytes ''x y'' @ [0], replicate 24 0, str_bytes ''AB'' @ [0]],
     kkey = [2 \<mapsto> \<lparr>key_next = Null, key_id = Ptr 3 0, key_value = Ptr 4 0\<rparr>],
     ksec = [0 \<mapsto> \<lparr>sec_next = Ptr 5 0, sec_keys = Ptr 2 0, sec_id = Ptr 1 0\<rparr>,
             5 \<mapsto> \<lparr>sec_next = Null, sec_keys = Null, sec_id = Ptr 6 0\<rparr>]\<rparr>"

lemma sample_keys_at:
  "secs_at 9 sample_keys (Ptr 0 0) [([42], [(str_bytes ''ab'', str_bytes ''x y'')]), (str_bytes ''AB'', [])]"
  by (simp add: secs_at_def secs_seg_Cons keys_at_Cons get_sec_def get_key_def live_node_def sample_keys_def
      text_at_def node_sizeof_def load_Ptr str_bytes_def char_byte_def)

theorem keyfile_roundtrip_witness:
  "\<exists>text p st' a. save_keyfile sample_keys (Ptr 1 0) True (Ptr 0 0) = Some (Some text) \<and>
    load_keyfile sample_keys (Ptr 1 0) (Some text) = Some (p, st') \<and>
    secs_at a st' p [([42], [(str_bytes ''ab'', str_bytes ''x y'')]), (str_bytes ''AB'', [])]"
proof -
  have "grants_all (kmem sample_keys)" by (simp add: grants_all_def sample_keys_def)
  moreover have "cstr (kmem sample_keys) (Ptr 1 0) [42]" by (simp add: sample_keys_def load_Ptr)
  moreover have "list_all wf_key [(str_bytes ''ab'', str_bytes ''x y'')]" "list_all wf_section [(str_bytes ''AB'', [])]"
    by (simp_all add: wf_key_def wf_section_def key_name_def section_name_def str_bytes_def char_byte_def
        c_isalnum_def c_isspace_def c_tolower_def c_toupper_def c_isupper_def c_islower_def)
  ultimately show ?thesis
    using keyfile_roundtrip [OF _ sample_keys_at, of "Ptr 1 0" "Ptr 1 0"] by (simp add: reread_def)
qed

subsection \<open>The parser on arbitrary lines\<close>

text \<open>A terminator at or behind an offset, and updates that only ever store terminators.\<close>

definition ended :: "byte list \<Rightarrow> nat \<Rightarrow> bool" where
  "ended bs i \<longleftrightarrow> (\<exists>z < length bs. i \<le> z \<and> bs ! z = 0)"

definition zeroed :: "byte list \<Rightarrow> byte list \<Rightarrow> bool" where
  "zeroed bs cs \<longleftrightarrow> length cs = length bs \<and> (\<forall>i < length bs. cs ! i = bs ! i \<or> cs ! i = 0)"

lemma zeroed_refl [simp]: "zeroed bs bs"
  by (simp add: zeroed_def)

lemma zeroed_trans: "zeroed bs cs \<Longrightarrow> zeroed cs ds \<Longrightarrow> zeroed bs ds"
  by (auto simp: zeroed_def) metis

lemma zeroed_update: "i < length bs \<Longrightarrow> zeroed bs (bs[i := 0])"
  by (auto simp: zeroed_def nth_list_update)

lemma ended_zeroed: "ended bs i \<Longrightarrow> zeroed bs cs \<Longrightarrow> ended cs i"
  by (auto simp: ended_def zeroed_def) metis

lemma ended_bound: "ended bs i \<Longrightarrow> i < length bs"
  by (auto simp: ended_def)

lemma ended_Suc: "ended bs i \<Longrightarrow> bs ! i \<noteq> 0 \<Longrightarrow> ended bs (Suc i)"
  by (auto simp: ended_def) (metis Suc_leI le_neq_implies_less)

lemma ended_induct [consumes 1, case_names stop more]:
  assumes "ended bs i" and "\<And>i. ended bs i \<Longrightarrow> bs ! i = 0 \<Longrightarrow> P i"
    and "\<And>i. ended bs i \<Longrightarrow> bs ! i \<noteq> 0 \<Longrightarrow> ended bs (Suc i) \<Longrightarrow> P (Suc i) \<Longrightarrow> P i"
  shows "P i"
  using assms(1)
proof (induction "length bs - i" arbitrary: i rule: less_induct)
  case less
  show ?case
  proof (cases "bs ! i = 0")
    case False
    have "length bs - Suc i < length bs - i" using ended_bound [OF less.prems] by simp
    from less.hyps [OF this ended_Suc [OF less.prems False]] show ?thesis
      by (rule assms(3) [OF less.prems False ended_Suc [OF less.prems False]])
  qed (rule assms(2) [OF less.prems])
qed

lemma ended_load: "hblk h b = Some bs \<Longrightarrow> ended bs i \<Longrightarrow> load h (Ptr b i) = Some (bs ! i)"
  using ended_bound [of bs i] by (simp add: load_Ptr)

lemma ended_cstr:
  assumes "hblk h b = Some bs" and "ended bs i"
  shows "\<exists>s. cstr h (Ptr b i) s \<and> ended bs (i + length s) \<and> (s = [] \<longleftrightarrow> bs ! i = 0)"
  using assms(2)
proof (induction rule: ended_induct)
  case (stop i)
  then show ?case using ended_load [OF assms(1) stop(1)] by (intro exI [of _ "[]"]) simp
next
  case (more i)
  then obtain s where "cstr h (Ptr b (Suc i)) s" "ended bs (Suc i + length s)" by blast
  then show ?case using ended_load [OF assms(1) more(1)] more(2) by (intro exI [of _ "bs ! i # s"]) simp
qed

lemma trim_end_zeroed:
  assumes "hblk h b = Some bs" and "n \<le> length bs"
  shows "\<exists>m cs. trim_end h (Ptr b 0) n = Some (m, put_block h b cs) \<and> zeroed bs cs \<and> (m < n \<or> n = 0 \<and> m = 0)"
  using assms
proof (induction n arbitrary: h bs)
  case 0
  then show ?case by (intro exI [of _ 0] exI [of _ bs]) simp
next
  case (Suc n)
  then have ld: "load h (Ptr b n) = Some (bs ! n)" "store h (Ptr b n) 0 = Some (put_block h b (bs[n := 0]))"
    by (auto simp: load_Ptr store_Ptr)
  show ?case
  proof (cases "c_isspace (bs ! n)")
    case True
    from Suc.IH [of "put_block h b (bs[n := 0])" "bs[n := 0]"] Suc.prems(2) obtain m cs where
      "trim_end (put_block h b (bs[n := 0])) (Ptr b 0) n = Some (m, put_block h b cs)" "zeroed (bs[n := 0]) cs" "m \<le> n"
      by auto
    then show ?thesis using True ld zeroed_trans [OF zeroed_update [of n bs]] Suc.prems(2)
      by (intro exI [of _ m] exI [of _ cs]) auto
  next
    case False
    then show ?thesis using ld Suc.prems(1) by (intro exI [of _ n] exI [of _ bs]) simp
  qed
qed

lemma skip_space_ended:
  assumes "hblk h b = Some bs" and "ended bs i"
  shows "\<exists>j. skip_space h (Ptr b i) = Some (Ptr b j) \<and> i \<le> j \<and> ended bs j \<and> \<not> c_isspace (bs ! j) \<and>
    (\<forall>k. i \<le> k \<longrightarrow> k < j \<longrightarrow> c_isspace (bs ! k))"
  using assms(2)
proof (induction rule: ended_induct)
  case (stop i)
  then have "\<not> c_isspace (bs ! i)" by (simp add: c_isspace_def)
  with stop ended_load [OF assms(1) stop(1)] show ?case by (subst skip_space.simps) (auto intro!: exI [of _ i])
next
  case (more i)
  show ?case
  proof (cases "c_isspace (bs ! i)")
    case True
    from more(4) obtain j where j: "skip_space h (Ptr b (Suc i)) = Some (Ptr b j)" "Suc i \<le> j" "ended bs j"
      "\<not> c_isspace (bs ! j)" "\<forall>k. Suc i \<le> k \<longrightarrow> k < j \<longrightarrow> c_isspace (bs ! k)" by blast
    have "skip_space h (Ptr b i) = Some (Ptr b j)"
      using True more(2) ended_load [OF assms(1) more(1)] j(1) by (subst skip_space.simps) simp
    moreover have "\<forall>k. i \<le> k \<longrightarrow> k < j \<longrightarrow> c_isspace (bs ! k)" using j(5) True by (metis Suc_leI le_neq_implies_less)
    ultimately show ?thesis using j(2-4) by (intro exI [of _ j]) simp
  next
    case False
    with more(1) ended_load [OF assms(1) more(1)] show ?thesis
      by (subst skip_space.simps) (auto intro!: exI [of _ i])
  qed
qed

lemma find_equals_ended:
  assumes "hblk h b = Some bs" and "ended bs i"
  shows "\<exists>k. find_equals h (Ptr b i) = Some (Ptr b k) \<and> i \<le> k \<and> ended bs k \<and> (bs ! k = 0 \<or> bs ! k = 61)"
  using assms(2)
proof (induction rule: ended_induct)
  case (stop i)
  with ended_load [OF assms(1) stop(1)] show ?case by (subst find_equals.simps) (auto intro!: exI [of _ i])
next
  case (more i)
  show ?case
  proof (cases "bs ! i = 61")
    case True
    with more(1,2) ended_load [OF assms(1) more(1)] show ?thesis
      by (subst find_equals.simps) (auto intro!: exI [of _ i])
  next
    case False
    from more(4) obtain k where k: "find_equals h (Ptr b (Suc i)) = Some (Ptr b k)" "Suc i \<le> k" "ended bs k"
      "bs ! k = 0 \<or> bs ! k = 61" by blast
    have "find_equals h (Ptr b i) = Some (Ptr b k)"
      using False more(2) ended_load [OF assms(1) more(1)] k(1) by (subst find_equals.simps) simp
    with k show ?thesis by (intro exI [of _ k]) simp
  qed
qed

lemma back_space_bound:
  assumes "hblk h b = Some bs" and "i + n < length bs"
  shows "\<exists>m \<le> n. back_space h (Ptr b i) n = Some m"
  using assms(2) by (induction n) (auto simp: load_Ptr [OF assms(1)] intro: le_SucI)

lemma close_loop_bound:
  assumes "hblk h b = Some bs"
  shows "n \<le> length bs \<Longrightarrow> \<exists>k. close_loop h (Ptr b 0) n = Some k \<and> (k < 2 \<or> k < n \<and> \<not> c_isspace (bs ! k))"
proof (induction n)
  case (Suc n)
  show ?case
  proof (cases n)
    case (Suc m)
    have "load h (Ptr b n) = Some (bs ! n)" using Suc.prems by (simp add: load_Ptr [OF assms])
    with Suc Suc.IH Suc.prems show ?thesis by (auto simp: less_Suc_eq)
  qed simp
qed simp

lemma open_loop_bound:
  assumes "hblk h b = Some bs" and "i < k" and "k < length bs" and "\<not> c_isspace (bs ! k)" and "n = k - i" and "k < 2 ^ 64"
  shows "\<exists>j. open_loop h (Ptr b i) n = Some (Ptr b j, Suc k - j) \<and> i < j \<and> j \<le> k"
  using assms(2,5)
proof (induction "k - i" arbitrary: i n)
  case (Suc d)
  have ld: "load h (Ptr b (Suc i)) = Some (bs ! Suc i)" using Suc.prems assms(3) by (simp add: load_Ptr [OF assms(1)])
  show ?case
  proof (cases "c_isspace (bs ! Suc i)")
    case True
    then have "Suc i < k" using Suc.prems(1) assms(4) by (cases "Suc i = k") auto
    moreover have "sz_sub n 1 = k - Suc i" using Suc.prems assms(6) by (simp add: size_simps)
    moreover have "d = k - Suc i" using Suc.hyps(2) by simp
    ultimately obtain j where "open_loop h (Ptr b (Suc i)) (sz_sub n 1) = Some (Ptr b j, Suc k - j)" "Suc i < j" "j \<le> k"
      using Suc.hyps(1) [of "Suc i" "sz_sub n 1"] by blast
    with True ld show ?thesis by (subst open_loop.simps) (auto intro!: exI [of _ j])
  next
    case False
    with ld Suc.prems show ?thesis by (subst open_loop.simps) (auto intro!: exI [of _ "Suc i"])
  qed
qed simp

text \<open>What the parser hands on is always a terminated string inside the line.\<close>

definition action_ok :: "heap \<Rightarrow> line_action \<Rightarrow> bool" where
  "action_ok h act \<longleftrightarrow> (case act of Skip \<Rightarrow> True
     | Section p \<Rightarrow> \<exists>n. cstr h p n \<and> length n < 96
     | Key p q \<Rightarrow> \<exists>i v. cstr h p i \<and> cstr h q v \<and> length i < 96 \<and> length v < 96)"

lemma ended_text:
  assumes "ended bs i" and "length bs = 96"
  shows "\<exists>s. cstr (put_block h b bs) (Ptr b i) s \<and> length s < 96"
  using ended_cstr [of "put_block h b bs" b bs i] assms ended_bound by fastforce

lemma parse_section_safe:
  assumes "hblk h b = Some bs" and "length bs = 96" and "m < 96"
  shows "\<exists>act cs. parse_section h (Ptr b 0) m = Some (act, put_block h b cs) \<and> length cs = 96 \<and>
    action_ok (put_block h b cs) act"
proof -
  obtain k where k: "close_loop h (Ptr b 0) m = Some k" "k < 2 \<or> k < m \<and> \<not> c_isspace (bs ! k)"
    using close_loop_bound [OF assms(1), of m] assms(2,3) by auto
  show ?thesis
  proof (cases "k < 2")
    case True
    with k(1) assms(1,2) show ?thesis
      by (intro exI [of _ Skip] exI [of _ bs]) (simp add: parse_section_def action_ok_def)
  next
    case False
    with k(2) have k2: "k < m" "\<not> c_isspace (bs ! k)" by auto
    with False assms obtain j where j: "open_loop h (Ptr b 0) k = Some (Ptr b j, Suc k - j)" "0 < j" "j \<le> k"
      using open_loop_bound [OF assms(1), of 0 k k] by auto
    let ?cs = "bs[Suc k := 0]"
    have st: "store h (Ptr b (Suc k)) 0 = Some (put_block h b ?cs)" using k2 assms by (simp add: store_Ptr)
    have "ended ?cs j" using j(3) k2(1) assms(2,3) by (auto simp: ended_def intro!: exI [of _ "Suc k"])
    then obtain s where "cstr (put_block h b ?cs) (Ptr b j) s" "length s < 96" using ended_text [of ?cs j h b] assms(2) by auto
    then show ?thesis using k(1) False j st assms(2)
      by (intro exI [of _ "Section (Ptr b j)"] exI [of _ ?cs]) (auto simp: parse_section_def action_ok_def)
  qed
qed

lemma unquote_safe:
  assumes "hblk h b = Some bs" and "length bs = 96" and "ended bs i"
  shows "\<exists>j cs. unquote h (Ptr b i) = Some (Ptr b j, put_block h b cs) \<and> zeroed bs cs \<and> ended cs j"
proof -
  obtain s where s: "cstr h (Ptr b i) s" "ended bs (i + length s)" "s = [] \<longleftrightarrow> bs ! i = 0"
    using ended_cstr [OF assms(1,3)] by blast
  have "i + length s < 96" using ended_bound [OF s(2)] assms(2) by simp
  then have len: "cpr_strlen h (Ptr b i) 96 = Some (length s)" using cpr_strlen_cstr [OF s(1), of 96] by simp
  have ld: "load h (Ptr b i) = Some (bs ! i)" by (rule ended_load [OF assms(1,3)])
  show ?thesis
  proof (cases "bs ! i = 39 \<or> bs ! i = 34")
    case True
    then have "s \<noteq> []" using s(3) by auto
    then have e: "i + (length s - 1) < length bs" using \<open>i + length s < 96\<close> assms(2) by (cases s) auto
    let ?e = "i + (length s - 1)" let ?cs = "bs[?e := 0]"
    have ld2: "load h (Ptr b ?e) = Some (bs ! ?e)" "store h (Ptr b ?e) 0 = Some (put_block h b ?cs)"
      using e by (auto simp: load_Ptr [OF assms(1)] store_Ptr [OF assms(1)])
    have z: "zeroed bs ?cs" by (rule zeroed_update [OF e])
    have e1: "ended ?cs i" by (rule ended_zeroed [OF assms(3) z])
    then have ld3: "load (put_block h b ?cs) (Ptr b i) = Some (?cs ! i)" by (intro ended_load) auto
    show ?thesis
    proof (cases "bs ! ?e = bs ! i")
      case same: True
      show ?thesis
      proof (cases "?cs ! i = 0")
        case True
        with same \<open>bs ! i = 39 \<or> bs ! i = 34\<close> len ld ld2 ld3 z e1 show ?thesis
          by (intro exI [of _ i] exI [of _ ?cs]) (auto simp: unquote_def)
      next
        case False
        with same \<open>bs ! i = 39 \<or> bs ! i = 34\<close> len ld ld2 ld3 z ended_Suc [OF e1 False] show ?thesis
          by (intro exI [of _ "Suc i"] exI [of _ ?cs]) (auto simp: unquote_def)
      qed
    next
      case False
      with True len ld ld2 assms show ?thesis by (intro exI [of _ i] exI [of _ bs]) (auto simp: unquote_def)
    qed
  next
    case False
    with len ld assms show ?thesis by (intro exI [of _ i] exI [of _ bs]) (auto simp: unquote_def)
  qed
qed

lemma parse_key_safe:
  assumes "hblk h b = Some bs" and "length bs = 96" and "ended bs i"
  shows "\<exists>act cs. parse_key h (Ptr b i) = Some (act, put_block h b cs) \<and> length cs = 96 \<and>
    action_ok (put_block h b cs) act"
proof -
  obtain k where k: "find_equals h (Ptr b i) = Some (Ptr b k)" "i \<le> k" "ended bs k" "bs ! k = 0 \<or> bs ! k = 61"
    using find_equals_ended [OF assms(1,3)] by blast
  have ldk: "load h (Ptr b k) = Some (bs ! k)" by (rule ended_load [OF assms(1) k(3)])
  have kb: "k < 96" using ended_bound [OF k(3)] assms(2) by simp
  have skip: "\<exists>act cs. Some (Skip, h) = Some (act, put_block h b cs) \<and> length cs = 96 \<and> action_ok (put_block h b cs) act"
    using assms(1,2) by (intro exI [of _ Skip] exI [of _ bs]) (simp add: action_ok_def)
  show ?thesis
  proof (cases "k = i \<or> bs ! k = 0")
    case True
    then have "parse_key h (Ptr b i) = Some (Skip, h)" using k(1) ldk by (auto simp: parse_key_def)
    with skip show ?thesis by simp
  next
    case False
    with k(2) have ik: "i < k" "bs ! k \<noteq> 0" by auto
    obtain n where n: "n \<le> k - i - 1" "back_space h (Ptr b i) (k - i - 1) = Some n"
      using back_space_bound [OF assms(1), of i "k - i - 1"] ik(1) kb assms(2) by fastforce
    show ?thesis
    proof (cases "n = 0")
      case True
      then have "parse_key h (Ptr b i) = Some (Skip, h)"
        using k(1) ldk ik n(2) by (auto simp: parse_key_def ptr_diff_def)
      with skip show ?thesis by simp
    next
      case False
      let ?e = "i + (n + 1)" let ?cs = "bs[?e := 0]" let ?h = "put_block h b ?cs"
      have e: "?e \<le> k" "?e < length bs" using n(1) ik(1) kb assms(2) by auto
      have st: "store h (Ptr b ?e) 0 = Some ?h" using e(2) by (simp add: store_Ptr [OF assms(1)])
      have z: "zeroed bs ?cs" by (rule zeroed_update [OF e(2)])
      have e1: "ended ?cs (Suc k)" by (rule ended_zeroed [OF ended_Suc [OF k(3) ik(2)] z])
      have ld1: "load ?h (Ptr b (Suc k)) = Some (?cs ! Suc k)" using e1 by (intro ended_load) auto
      define j where "j = (if ?cs ! Suc k \<noteq> 0 \<and> c_isspace (?cs ! Suc k) then Suc (Suc k) else Suc k)"
      have "ended ?cs j" using e1 ended_Suc [OF e1] by (auto simp: j_def)
      then obtain j' cs' where u: "unquote ?h (Ptr b j) = Some (Ptr b j', put_block ?h b cs')" "zeroed ?cs cs'" "ended cs' j'"
        using unquote_safe [of ?h b ?cs j] assms(2) by auto
      have l: "length cs' = 96" using u(2) assms(2) by (simp add: zeroed_def)
      have "ended cs' i" using ended_zeroed [OF assms(3) zeroed_trans [OF z u(2)]] .
      then obtain s t where "cstr (put_block ?h b cs') (Ptr b i) s" "length s < 96"
        "cstr (put_block ?h b cs') (Ptr b j') t" "length t < 96"
        using ended_text [OF _ l, of i ?h b] ended_text [OF u(3) l, of ?h b] by blast
      then have ok: "action_ok (put_block ?h b cs') (Key (Ptr b i) (Ptr b j'))" by (auto simp: action_ok_def)
      have "parse_key h (Ptr b i) = Some (Key (Ptr b i) (Ptr b j'), put_block ?h b cs')"
        using k(1) ldk ik n(2) False st ld1 u(1)
        by (auto simp: parse_key_def ptr_diff_def j_def Let_def split: if_splits)
      with ok l show ?thesis by auto
    qed
  qed
qed

text \<open>Blanks in front of an opening bracket.\<close>

definition indented :: "byte list \<Rightarrow> bool" where
  "indented cs \<longleftrightarrow> takeWhile c_isspace cs \<noteq> [] \<and> (case dropWhile c_isspace cs of [] \<Rightarrow> False | c # _ \<Rightarrow> c = 91)"

lemma indentedI:
  assumes "0 < j" and "j < length cs" and "\<And>k. k < j \<Longrightarrow> c_isspace (cs ! k)" and "cs ! j = 91"
  shows "indented cs"
proof -
  define ws where "ws = take j cs"
  have cs: "cs = ws @ 91 # drop (Suc j) cs" using assms(2,4) unfolding ws_def by (metis id_take_nth_drop)
  have ws: "\<forall>x \<in> set ws. c_isspace x" "ws \<noteq> []" using assms(1-3) by (auto simp: in_set_conv_nth ws_def)
  then have "takeWhile c_isspace (ws @ 91 # drop (Suc j) cs) = ws"
    "dropWhile c_isspace (ws @ 91 # drop (Suc j) cs) = 91 # drop (Suc j) cs"
    by (auto simp: takeWhile_append dropWhile_append c_isspace_def)
  then have "indented (ws @ 91 # drop (Suc j) cs)" using ws(2) by (simp add: indented_def)
  then show ?thesis by (simp flip: cs)
qed

lemma parse_line_safe:
  assumes "hblk h b = Some (s @ 0 # rest)" and "length s + 1 + length rest = 96" and "\<not> indented s"
  shows "\<exists>act cs. parse_line h (Ptr b 0) = Some (act, put_block h b cs) \<and> length cs = 96 \<and>
    action_ok (put_block h b cs) act"
proof -
  let ?bs = "s @ 0 # rest"
  have l: "length ?bs = 96" using assms(2) by simp
  have e0: "ended ?bs 0" by (auto simp: ended_def intro!: exI [of _ "length s"])
  have skip: "\<exists>act cs. Some (Skip, h) = Some (act, put_block h b cs) \<and> length cs = 96 \<and> action_ok (put_block h b cs) act"
    using assms(1) l by (intro exI [of _ Skip] exI [of _ ?bs]) (simp add: action_ok_def)
  obtain t where t: "cstr h (Ptr b 0) t" "ended ?bs (length t)" using ended_cstr [OF assms(1) e0] by auto
  have lt: "length t < 96" using ended_bound [OF t(2)] l by simp
  have len: "cpr_strlen h (Ptr b 0) 96 = Some (length t)" using cpr_strlen_cstr [OF t(1), of 96] lt by simp
  show ?thesis
  proof (cases "t = [] \<or> ?bs ! (length t - 1) \<noteq> 10")
    case True
    have "load h (Ptr b (length t - 1)) = Some (?bs ! (length t - 1))" using lt l by (auto simp: load_Ptr [OF assms(1)])
    with True have "parse_line h (Ptr b 0) = Some (Skip, h)" using len by (auto simp: parse_line_def)
    with skip show ?thesis by simp
  next
    case False
    then have ne: "t \<noteq> []" and nl: "load h (Ptr b (length t - 1)) = Some 10"
      using lt l by (auto simp: load_Ptr [OF assms(1)])
    obtain m cs where m: "trim_end h (Ptr b 0) (length t) = Some (m, put_block h b cs)" "zeroed ?bs cs" "m < length t"
      using trim_end_zeroed [OF assms(1), of "length t"] lt l ne by auto
    let ?h = "put_block h b cs"
    have lc: "length cs = 96" using m(2) l by (simp add: zeroed_def)
    obtain j where j: "skip_space ?h (Ptr b 0) = Some (Ptr b j)" "ended cs j" "\<And>k. k < j \<Longrightarrow> c_isspace (cs ! k)"
      using skip_space_ended [of ?h b cs 0] ended_zeroed [OF e0 m(2)] by auto
    have ldj: "load ?h (Ptr b j) = Some (cs ! j)" using j(2) by (intro ended_load) auto
    have go: "parse_line h (Ptr b 0) = (if cs ! j = 0 then Some (Skip, ?h)
        else do { closed \<leftarrow> (if cs ! j = 91 then do { d \<leftarrow> load ?h (Ptr b (j + m)); Some (d = 93) } else Some False);
          if closed then parse_section ?h (Ptr b j) m
          else if \<not> c_isalnum (cs ! j) then Some (Skip, ?h)
          else parse_key ?h (Ptr b j) })"
      using len ne nl m(1) j(1) ldj by (simp add: parse_line_def)
    have ok: "\<exists>act ds. parse_section ?h (Ptr b 0) m = Some (act, put_block h b ds) \<and> length ds = 96 \<and> action_ok (put_block h b ds) act"
      "\<exists>act ds. parse_key ?h (Ptr b j) = Some (act, put_block h b ds) \<and> length ds = 96 \<and> action_ok (put_block h b ds) act"
      "\<exists>act ds. Some (Skip, ?h) = Some (act, put_block h b ds) \<and> length ds = 96 \<and> action_ok (put_block h b ds) act"
      using parse_section_safe [of ?h b cs m] parse_key_safe [of ?h b cs j] lc m(3) lt j(2) by (auto simp: action_ok_def)
    show ?thesis
    proof (cases "cs ! j = 91")
      case True
      have jz: "j < length s"
      proof (rule ccontr)
        assume "\<not> j < length s"
        then have "length s \<le> j" "length s < length ?bs" "?bs ! length s = 0" by simp_all
        with m(2) have z: "cs ! length s = 0 \<and> length s \<le> j" unfolding zeroed_def by metis
        then show False using True j(3) [of "length s"] by (cases "length s = j") (auto simp: c_isspace_def)
      qed
      have same: "cs ! k = s ! k" if "k \<le> j" for k
      proof -
        have "cs ! k \<noteq> 0" using that True j(3) [of k] by (cases "k = j") (auto simp: c_isspace_def)
        moreover have "k < length ?bs" "?bs ! k = s ! k" using that jz by (auto simp: nth_append)
        ultimately show ?thesis using m(2) unfolding zeroed_def by metis
      qed
      have "j = 0"
      proof (rule ccontr)
        assume "j \<noteq> 0"
        then have "indented s" using jz j(3) same True by (intro indentedI [of j]) auto
        with assms(3) show False by simp
      qed
      have "load ?h (Ptr b m) = Some (cs ! m)" using m(3) lt lc by (simp add: load_Ptr)
      with go True \<open>j = 0\<close> have "parse_line h (Ptr b 0) = (if cs ! m = 93 then parse_section ?h (Ptr b 0) m else Some (Skip, ?h))"
        by (simp add: c_isalnum_def c_isdigit_def c_isupper_def c_islower_def)
      with ok(1,3) show ?thesis by presburger
    next
      case False
      with go have "parse_line h (Ptr b 0) = (if cs ! j = 0 \<or> \<not> c_isalnum (cs ! j) then Some (Skip, ?h) else parse_key ?h (Ptr b j))"
        by simp
      with ok(2,3) show ?thesis by presburger
    qed
  qed
qed

lemma fgets_chunk_length: "fgets_chunk n cs = (xs, ys) \<Longrightarrow> length xs \<le> n"
  by (induction n cs arbitrary: xs ys rule: fgets_chunk.induct) (auto split: if_splits prod.splits)

text \<open>One round on any chunk: whatever the line means, it is handled and the lists stay intact.\<close>

lemma load_round_safe:
  assumes "loaded a st root cur front x" and "linebuf_ok a st" and "length chunk < 96" and "\<not> indented chunk"
  shows "\<exists>cur' st' front' x'. load_round st (Ptr a 0) cur chunk = Some (cur', st') \<and>
    loaded a st' root cur' front' x' \<and> linebuf_ok a st'"
proof -
  obtain rest where sl: "store_list (kmem st) (Ptr a 0) (chunk @ [0]) = Some (put_block (kmem st) a (chunk @ 0 # rest))"
    "length chunk + 1 + length rest = 96"
    using assms(2,3) by (rule store_line)
  from parse_line_safe [of "put_block (kmem st) a (chunk @ 0 # rest)" a chunk rest] sl(2) assms(4)
  obtain act cs where pl: "parse_line (put_block (kmem st) a (chunk @ 0 # rest)) (Ptr a 0) = Some (act, put_block (kmem st) a cs)"
    "length cs = 96" "action_ok (put_block (kmem st) a cs) act" by auto
  let ?st = "st\<lparr>kmem := put_block (kmem st) a cs\<rparr>"
  have ld: "loaded a ?st root cur front x" by (rule loaded_linebuf [OF assms(1,2)])
  have lb: "linebuf_ok a ?st" using pl(2) by (simp add: linebuf_ok_def)
  then have ne: "hblk (kmem ?st) a \<noteq> None" by (auto simp: linebuf_ok_def)
  show ?thesis
  proof (cases act)
    case Skip
    with sl(1) pl(1) ld lb show ?thesis
      by (intro exI [of _ cur] exI [of _ ?st] exI [of _ front] exI [of _ x]) (simp add: load_round_def)
  next
    case (Section p)
    then obtain n where n: "cstr (kmem ?st) p n" "length n < 96" using pl(3) by (auto simp: action_ok_def)
    have "length n + 1 < 2 ^ 64" using n(2) by simp
    then obtain cur' st' where "make_keysection ?st p cur = Some (cur', st')"
        "loaded a st' root cur' (front @ [x]) (map c_toupper (clip 32 n), [])" "hblk (kmem st') a = hblk (kmem ?st) a"
      using make_keysection_loaded [OF ld n(1) _ ne] by metis
    moreover from this(3) have "linebuf_ok a st'" using lb by (simp add: linebuf_ok_def)
    ultimately show ?thesis using sl(1) pl(1) Section
      by (intro exI [of _ cur'] exI [of _ st'] exI [of _ "front @ [x]"] exI [of _ "(map c_toupper (clip 32 n), [])"])
        (simp add: load_round_def)
  next
    case (Key p q)
    then obtain i v where iv: "cstr (kmem ?st) p i" "cstr (kmem ?st) q v" "length i < 96" "length v < 96"
      using pl(3) by (auto simp: action_ok_def)
    have "length i + 1 < 2 ^ 64" "length v + 1 < 2 ^ 64" using iv(3,4) by simp_all
    then obtain r st' where "make_keydata ?st cur p q = Some (r, st')"
        "loaded a st' root cur front (fst x, (map c_tolower (clip 32 i), v) # snd x)" "hblk (kmem st') a = hblk (kmem ?st) a"
      using make_keydata_loaded [OF ld iv(1,2) _ _ ne] by metis
    moreover from this(3) have "linebuf_ok a st'" using lb by (simp add: linebuf_ok_def)
    ultimately show ?thesis using sl(1) pl(1) Key
      by (intro exI [of _ cur] exI [of _ st'] exI [of _ front] exI [of _ "(fst x, (map c_tolower (clip 32 i), v) # snd x)"])
        (simp add: load_round_def)
  qed
qed

text \<open>The chunks \<^verbatim>\<open>fgets\<close> cuts a file into.\<close>

function fgets_lines :: "byte list \<Rightarrow> byte list list" where
  "fgets_lines [] = []"
| "fgets_lines (c # cs) = (case fgets_chunk 95 (c # cs) of (chunk, rest) \<Rightarrow> chunk # fgets_lines rest)"
  by pat_completeness auto
termination
  by (relation "measure length") (auto dest!: fgets_chunk_progress [OF sym])

lemma fgets_lines_line:
  assumes "10 \<notin> set s" and "length s < 95"
  shows "fgets_lines (s @ 10 # rest) = (s @ [10]) # fgets_lines rest"
proof -
  obtain c cs where "s @ 10 # rest = c # cs" by (cases s) auto
  moreover have "fgets_chunk 95 (s @ 10 # rest) = (s @ [10], rest)" using assms by (rule fgets_chunk_line)
  ultimately show ?thesis by simp
qed

lemma load_loop_safe:
  assumes "loaded a st root cur front x" and "linebuf_ok a st" and "\<not> list_ex indented (fgets_lines cs)"
  shows "\<exists>st' cur' front' x'. load_loop st (Ptr a 0) cur cs = Some (cur', st') \<and>
    loaded a st' root cur' front' x' \<and> linebuf_ok a st'"
  using assms
proof (induction cs arbitrary: st cur front x rule: fgets_lines.induct)
  case 1
  then show ?case by (intro exI [of _ st] exI [of _ cur] exI [of _ front] exI [of _ x]) simp
next
  case (2 c cs)
  obtain chunk rest where f: "fgets_chunk 95 (c # cs) = (chunk, rest)" by fastforce
  have "length chunk < 96" using fgets_chunk_length [OF f] by simp
  with 2(2-4) f obtain cur1 st1 front1 x1 where r: "load_round st (Ptr a 0) cur chunk = Some (cur1, st1)"
    "loaded a st1 root cur1 front1 x1" "linebuf_ok a st1"
    using load_round_safe [OF 2(2,3), of chunk] by auto
  have "\<not> list_ex indented (fgets_lines rest)" using 2(4) f by simp
  from 2(1) [OF f [symmetric] r(2,3) this] show ?case using r(1) f by simp
qed

text \<open>
  C3. Loading any file while memory lasts: whatever bytes the file holds, embedded zero bytes, lines
  of any length and malformed lines included, \<^verbatim>\<open>load_keyfile\<close> returns, never reads or writes outside an
  object, and hands back a well-formed list of sections with its local line buffer gone. Two
  conditions are needed and shown to be needed: no allocation is refused (\<open>refused_section_crashes\<close>),
  and no line has blanks in front of an opening bracket (\<open>indented_section_overread\<close>).
\<close>

theorem load_keyfile_total:
  assumes "grants_all (kmem st)" and "cstr (kmem st) star [42]" and "\<not> list_ex indented (fgets_lines cs)"
  shows "\<exists>p st' a xs. load_keyfile st star (Some cs) = Some (p, st') \<and> secs_at a st' p xs \<and> xs \<noteq> [] \<and>
    grants_all (kmem st') \<and> hblk (kmem st') a = None"
proof (rule load_keyfile_frame [OF assms(1,2), of cs "\<lambda>xs. xs \<noteq> []"])
  fix a st root
  assume "loaded a st root root [] ([42], [])" "linebuf_ok a st"
  from load_loop_safe [OF this assms(3)]
  show "\<exists>st' cur front x. load_loop st (Ptr a 0) root cs = Some (cur, st') \<and> loaded a st' root cur front x \<and>
        front @ [x] \<noteq> [] \<and> linebuf_ok a st'" by auto
qed

theorem load_keyfile_total_witness:
  "\<exists>p st' a xs. load_keyfile sample_keys (Ptr 1 0) (Some (str_bytes ''x=1'' @ [10, 0, 10] @ str_bytes ''[ q ]'' @ [10])) = Some (p, st') \<and>
    secs_at a st' p xs \<and> xs \<noteq> [] \<and> grants_all (kmem st') \<and> hblk (kmem st') a = None"
proof -
  have "grants_all (kmem sample_keys)" by (simp add: grants_all_def sample_keys_def)
  moreover have "cstr (kmem sample_keys) (Ptr 1 0) [42]" by (simp add: sample_keys_def load_Ptr)
  moreover have "\<not> list_ex indented (fgets_lines (str_bytes ''x=1'' @ [10, 0, 10] @ str_bytes ''[ q ]'' @ [10]))"
    using fgets_lines_line [of "str_bytes ''x=1''" "0 # 10 # str_bytes ''[ q ]'' @ [10]"]
      fgets_lines_line [of "[0]" "str_bytes ''[ q ]'' @ [10]"] fgets_lines_line [of "str_bytes ''[ q ]''" "[]"]
    by (simp add: indented_def str_bytes_def char_byte_def c_isspace_def del: fgets_lines.simps(2))
  ultimately show ?thesis by (rule load_keyfile_total)
qed

text \<open>
  The condition on the allocations is needed: when the node of a section is refused, the parser goes on
  with a null section, and the next key line, for which there is memory again, writes through
  that null pointer. Here it is the first section, and the file begins with any well-formed key line.
\<close>

lemma make_keydata_null:
  assumes "hgrant (kmem st) (hseq (kmem st)) node_sizeof"
  shows "make_keydata st Null name val = None"
  using assms by (simp add: make_keydata_def c_malloc_def get_sec_def live_node_def split: Option.bind_split prod.split)

lemma make_keysection_refused:
  assumes "\<not> hgrant (kmem st) (hseq (kmem st)) node_sizeof"
  shows "make_keysection st name Null = Some (Null, st\<lparr>kmem := (kmem st)\<lparr>hseq := Suc (hseq (kmem st))\<rparr>\<rparr>)"
  using assms by (simp add: make_keysection_def c_malloc_def)

theorem refused_section_crashes:
  assumes "\<not> hgrant (kmem st) (Suc (hseq (kmem st))) node_sizeof"
    and "hgrant (kmem st) (Suc (Suc (hseq (kmem st)))) node_sizeof" and "wf_key (i, v)"
  shows "load_keyfile st star (Some (key_line i (quote_for v) v @ cs)) = None"
proof -
  let ?a = "hseq (kmem st)" and ?line = "key_line i (quote_for v) v"
  let ?s = "i @ [61, quote_for v] @ v @ [quote_for v]"
  define st1 where "st1 = st\<lparr>kmem := (put_block (kmem st) ?a (map (hjunk (kmem st) ?a) [0..<96]))\<lparr>hseq := Suc ?a\<rparr>\<rparr>"
  define st2 where "st2 = st1\<lparr>kmem := (kmem st1)\<lparr>hseq := Suc (Suc ?a)\<rparr>\<rparr>"
  have sect: "make_keysection st1 star Null = Some (Null, st2)"
    using make_keysection_refused [of st1 star] assms(1) by (simp add: st1_def st2_def)
  have w: "key_name i" "0 \<notin> set v" "10 \<notin> set i" "10 \<notin> set v" "length i + length v + 4 < 96"
    using assms(3) by (auto simp: wf_key_def key_name_def)
  have buf: "linebuf_ok ?a st2" by (simp add: linebuf_ok_def st1_def st2_def)
  have "length ?line < 96" using w(5) by (simp add: key_line_def)
  from store_line [OF buf this] obtain rest where st2: "store_list (kmem st2) (Ptr ?a 0) (?line @ [0]) =
      Some (put_block (kmem st2) ?a (?line @ 0 # rest))" .
  let ?h = "put_block (kmem st2) ?a (i @ [0, quote_for v] @ v @ [0, 0, 0] @ rest)"
  have parse: "parse_line (put_block (kmem st2) ?a (?line @ 0 # rest)) (Ptr ?a 0) =
      Some (Key (Ptr ?a 0) (Ptr ?a (length i + 2)), ?h)"
    using parse_key_line [of "put_block (kmem st2) ?a (?line @ 0 # rest)" ?a i "quote_for v" v rest] w
    by (simp add: quote_for_def)
  have "make_keydata (st2\<lparr>kmem := ?h\<rparr>) Null name val = None" for name val
    by (rule make_keydata_null) (use assms(2) in \<open>simp add: st1_def st2_def\<close>)
  with st2 parse have "load_round st2 (Ptr ?a 0) Null ?line = None" by (simp add: load_round_def)
  moreover have "?line @ cs = ?s @ 10 # cs" "?line = ?s @ [10]" by (simp_all add: key_line_def)
  moreover have "10 \<notin> set ?s" "length ?s < 95" using w by (auto simp: quote_for_def)
  ultimately have "load_loop st2 (Ptr ?a 0) Null (?line @ cs) = None" using load_loop_line [of ?s] by simp
  with sect show ?thesis by (simp add: load_keyfile_def st1_def Let_def)
qed

theorem refused_section_crashes_witness:
  "load_keyfile \<lparr>kmem = (heap_of [[42, 0]])\<lparr>hgrant := \<lambda>n m. n \<noteq> 2\<rparr>, kkey = \<lambda>b. None, ksec = \<lambda>b. None\<rparr>
     (Ptr 0 0) (Some (str_bytes ''ab='' @ [39] @ str_bytes ''x'' @ [39, 10])) = None"
proof -
  have "wf_key (str_bytes ''ab'', str_bytes ''x'')"
    by (simp add: wf_key_def key_name_def str_bytes_def char_byte_def
        c_isalnum_def c_isspace_def c_tolower_def c_isupper_def c_islower_def)
  from refused_section_crashes [OF _ _ this, of "\<lparr>kmem = (heap_of [[42, 0]])\<lparr>hgrant := \<lambda>n m. n \<noteq> 2\<rparr>, kkey = \<lambda>b. None, ksec = \<lambda>b. None\<rparr>" "Ptr 0 0" "[]"]
  show ?thesis by (simp add: key_line_def quote_for_def str_bytes_def char_byte_def heap_of_def)
qed

text \<open>
  The condition on indented brackets is needed: the test for the closing bracket indexes from
  the first character that is not a blank with a length counted from the start of the buffer, so
  that a long indented section line makes it read behind the 96 bytes of \<^verbatim>\<open>linebuf\<close>.
\<close>

theorem indented_section_overread:
  assumes "hblk h b = Some (ws @ 91 # t @ [c, 10, 0] @ rest)" and "length ws + length t + 4 + length rest = 96"
    and "list_all c_isspace ws" and "0 \<notin> set t" and "c \<noteq> 0" and "\<not> c_isspace c"
    and "95 \<le> 2 * length ws + length t"
  shows "parse_line h (Ptr b 0) = None"
proof -
  let ?pre = "ws @ 91 # t" let ?bs = "?pre @ [c, 0] @ 0 # rest" let ?h = "put_block h b ?bs"
  have ws: "0 \<notin> set ws" using assms(3) by (auto simp: list_all_iff c_isspace_def)
  have len: "cpr_strlen h (Ptr b 0) 96 = Some (length ws + length t + 3)"
    using strlen_line [of h b "?pre @ [c, 10]" rest] assms ws by simp
  have nl: "load h (Ptr b (length ws + length t + 2)) = Some 10"
    using assms(1) by (simp add: load_Ptr nth_append)
  have tr: "trim_end h (Ptr b 0) (length ws + length t + 3) = Some (length ws + length t + 1, ?h)"
    using trim_end_newline [of h b ?pre c "0 # rest" "length ws + length t + 1"] assms(1,6)
    by (simp add: eval_nat_numeral)
  have "ended ?bs 0" by (auto simp: ended_def nth_append intro!: exI [of _ "length ?bs - length rest - 1"])
  then obtain j where j: "skip_space ?h (Ptr b 0) = Some (Ptr b j)" "\<not> c_isspace (?bs ! j)" "\<And>k. k < j \<Longrightarrow> c_isspace (?bs ! k)"
    using skip_space_ended [of ?h b ?bs 0] by auto
  have "j = length ws"
  proof (rule linorder_cases [of j "length ws"])
    assume "j < length ws"
    with j(2) assms(3) show ?thesis by (auto simp: nth_append list_all_length)
  next
    assume "length ws < j"
    from j(3) [OF this] show ?thesis by (simp add: c_isspace_def)
  qed
  moreover have "load ?h (Ptr b (length ws)) = Some 91" using assms(2) by (simp add: load_Ptr)
  moreover have "load ?h (Ptr b (length ws + (length ws + length t + 1))) = None"
    using assms(2,7) by (simp add: load_def)
  ultimately show ?thesis using len nl tr j(1) by (simp add: parse_line_def)
qed

theorem indented_section_overread_witness:
  "parse_line (heap_of [replicate 60 32 @ 91 # replicate 20 97 @ [93, 10, 0] @ replicate 12 0]) (Ptr 0 0) = None"
  by (rule indented_section_overread [of _ _ "replicate 60 32" "replicate 20 97" 93 "replicate 12 0"])
    (auto simp: c_isspace_def list_all_iff)

subsection \<open>Lookup and release\<close>

lemma find_key_at:
  assumes "keys_at a st p kvs" and "cstr (kmem st) name k"
  shows "\<exists>q. find_key st p name = Some q \<and>
    (case map_of kvs k of None \<Rightarrow> q = Null | Some v \<Rightarrow> cstr (kmem st) q v)"
  using assms(1)
proof (induction kvs arbitrary: p)
  case Nil
  then show ?case by (subst find_key.simps) simp
next
  case (Cons x kvs)
  then obtain r where r: "get_key st p = Some r" "text_at a st (key_id r) (fst x)" "text_at a st (key_value r) (snd x)"
    "keys_at a st (key_next r) kvs" by (auto simp: keys_at_Cons)
  have "eq (kmem st) (key_id r) name = Some (fst x = k)"
    using r(2) assms(2) by (simp add: text_at_def eq_def cpr_equal_cstr)
  with r Cons.IH [OF r(4)] get_key_not_Null [OF r(1)] show ?case
    by (subst find_key.simps) (cases x, auto simp: text_at_def)
qed

lemma find_keysection_at:
  assumes "secs_seg a c st p Null xs" and "cstr (kmem st) name n"
  shows "\<exists>q. find_keysection st p name = Some q \<and>
    (case find (\<lambda>x. map c_tolower (fst x) = map c_tolower n) xs of None \<Rightarrow> q = Null
     | Some x \<Rightarrow> \<exists>s. get_sec st q = Some s \<and> keys_at a st (sec_keys s) (snd x))"
  using assms(1)
proof (induction xs arbitrary: p)
  case Nil
  then show ?case by (subst find_keysection.simps) simp
next
  case (Cons x xs)
  then obtain s where s: "get_sec st p = Some s" "text_at a st (sec_id s) (fst x)" "keys_at a st (sec_keys s) (snd x)"
    "secs_seg a c st (sec_next s) Null xs" by (auto simp: secs_seg_Cons)
  have "match (kmem st) name (sec_id s) = Some (map c_tolower n = map c_tolower (fst x))"
    using s(2) assms(2) by (simp add: text_at_def match_def cpr_match_cstr)
  with s Cons.IH [OF s(4)] get_sec_not_Null [OF s(1)] show ?case
    by (subst find_keysection.simps) (cases x, auto)
qed

text \<open>
  C34. Lookup in a loaded file: \<^verbatim>\<open>find_keysection\<close> finds the first section whose name agrees
  with the given one up to letter case, or returns null when there is none, and
  \<^verbatim>\<open>get_keyvalue\<close> then returns the value of the first key spelled exactly as asked for, or null:
  the two walks compute a lookup in an association list of association lists.
\<close>

theorem keyfile_lookup:
  assumes "secs_at a st root xs" and "cstr (kmem st) name n" and "cstr (kmem st) key k"
  shows "case find (\<lambda>x. map c_tolower (fst x) = map c_tolower n) xs of
      None \<Rightarrow> find_keysection st root name = Some Null
    | Some x \<Rightarrow> \<exists>p q. find_keysection st root name = Some p \<and> get_keyvalue st p key = Some q \<and>
        (case map_of (snd x) k of None \<Rightarrow> q = Null | Some v \<Rightarrow> cstr (kmem st) q v)"
proof -
  obtain q where q: "find_keysection st root name = Some q"
    "case find (\<lambda>x. map c_tolower (fst x) = map c_tolower n) xs of None \<Rightarrow> q = Null
     | Some x \<Rightarrow> \<exists>s. get_sec st q = Some s \<and> keys_at a st (sec_keys s) (snd x)"
    using find_keysection_at [OF assms(1) [unfolded secs_at_def] assms(2)] by blast
  show ?thesis
  proof (cases "find (\<lambda>x. map c_tolower (fst x) = map c_tolower n) xs")
    case None
    with q show ?thesis by simp
  next
    case (Some x)
    with q(2) obtain s where s: "get_sec st q = Some s" "keys_at a st (sec_keys s) (snd x)" by auto
    from find_key_at [OF s(2) assms(3)] s(1) have "\<exists>r. get_keyvalue st q key = Some r \<and>
        (case map_of (snd x) k of None \<Rightarrow> r = Null | Some v \<Rightarrow> cstr (kmem st) r v)" by (simp add: get_keyvalue_def)
    with Some q(1) show ?thesis by auto
  qed
qed

theorem keyfile_lookup_witness:
  "\<exists>p q. find_keysection sample_keys (Ptr 0 0) (Ptr 1 0) = Some p \<and> get_keyvalue sample_keys p (Ptr 3 0) = Some q \<and>
    cstr (kmem sample_keys) q (str_bytes ''x y'')"
  using keyfile_lookup [OF sample_keys_at, of "Ptr 1 0" "[42]" "Ptr 3 0" "str_bytes ''ab''"]
  by (simp add: sample_keys_def load_Ptr str_bytes_def char_byte_def)

text \<open>
  \<^verbatim>\<open>free_keyfile\<close> releases the keys, their texts and the section names, but not the section
  nodes: the blocks 0 and 5 of the sample are still allocated afterwards.
\<close>

theorem free_keyfile_leaks:
  "map_option (\<lambda>st. map (\<lambda>b. hblk (kmem st) b \<noteq> None) [0..<7]) (free_keyfile sample_keys (Ptr 0 0)) =
    Some [True, False, False, False, False, True, False]"
  by (simp add: free_keyfile.simps free_keys.simps sample_keys_def get_sec_def get_key_def live_node_def
      node_sizeof_def c_free_def str_bytes_def char_byte_def upt_conv_Cons)

end
