(* ===== verification/Bufio.thy ===== *)
theory Bufio
  imports Strchar
begin

text \<open>
  \<^verbatim>\<open>src/bufio.c\<close> and \<^verbatim>\<open>src/bufio.h\<close>: a file descriptor with an input buffer and an output
  buffer. The object is one block of the store: a header of 96 bytes, the input bytes
  \<^verbatim>\<open>buf\<close> from there on with 8 bytes of slack, and the output bytes behind
  \<^verbatim>\<open>sizeof(bufio_t) + bufsize\<close>. The fields of the header are a record that also carries the
  address of the object; \<^const>\<open>None\<close> is the null pointer.

  The system calls are parameters: \<open>sys_read\<close> and \<open>sys_write\<close> act on a world \<open>'w\<close> and give
  \<^const>\<open>None\<close> for \<^verbatim>\<open>-1\<close>. What the theorems assume of them is \<open>posix_io\<close> below. The terminal
  calls and \<^verbatim>\<open>fstat\<close> are arguments with their answers.

  The loop of \<^verbatim>\<open>cpr_lgetbuf\<close> need not end, so it takes a bound on its rounds and answers
  \<open>Running\<close> when that is used up.
\<close>

subsection \<open>Data\<close>

record termios =
  c_iflag :: "32 word"
  c_oflag :: "32 word"
  c_lflag :: "32 word"
  c_cc :: "byte list"

record bufio =
  buf_addr :: ptr
  buf_fd :: int
  buf_tty :: "termios option"
  buf_size :: size_t
  buf_start :: size_t
  buf_end :: size_t
  buf_put :: size_t

record 'w sysio =
  sys_read :: "int \<Rightarrow> size_t \<Rightarrow> 'w \<Rightarrow> byte list option \<times> 'w"
  sys_write :: "int \<Rightarrow> byte list \<Rightarrow> 'w \<Rightarrow> nat option \<times> 'w"

definition bufio_sizeof :: size_t where "bufio_sizeof = 104"

text \<open>\<^verbatim>\<open>r->buf\<close>, and \<^verbatim>\<open>((char *)w) + sizeof(bufio_t) + w->bufsize\<close>.\<close>

definition buf_in :: "bufio \<Rightarrow> ptr" where "buf_in r = padd (buf_addr r) 96"

definition buf_out :: "bufio \<Rightarrow> ptr" where
  "buf_out r = padd (buf_addr r) (sz_add bufio_sizeof (buf_size r))"

text \<open>The conversion from \<^verbatim>\<open>ssize_t\<close> to \<^verbatim>\<open>size_t\<close>.\<close>

definition to_size :: "int \<Rightarrow> size_t" where "to_size i = nat (i mod 2 ^ 64)"

subsection \<open>Making a buffer\<close>

text \<open>The terminal settings without line editing, echo, signals, flow control and translation.\<close>

definition raw_termios :: "termios \<Rightarrow> termios" where
  "raw_termios t = t\<lparr>c_lflag := c_lflag t AND NOT (2 OR 8 OR 1), c_iflag := c_iflag t AND NOT (0x400 OR 0x100),
     c_oflag := c_oflag t AND NOT 1, c_cc := (c_cc t)[6 := 1, 5 := 0]\<rparr>"

text \<open>
  \<open>tty\<close> holds what \<^verbatim>\<open>isatty\<close> says and, for a terminal, what \<^verbatim>\<open>tcgetattr\<close> gives (\<^const>\<open>None\<close> when it
  fails; both calls give the same) and whether \<^verbatim>\<open>tcsetattr\<close> succeeds; the result has the settings it
  was called with. The field \<^verbatim>\<open>put\<close> is not assigned, so it is what the fresh block holds at its offset.
\<close>

definition cpr_makebuf :: "heap \<Rightarrow> (termios option \<times> bool) option \<Rightarrow> int \<Rightarrow> size_t \<Rightarrow>
    (bufio option \<times> termios option \<times> heap) option" where
  "cpr_makebuf h tty fd bufsize =
     (if fd < 0 \<or> bufsize = 0 then Some (None, None, h)
      else let (p, h) = c_malloc h (sz_add bufio_sizeof (sz_mul bufsize 2)) in
        if p = Null then Some (None, None, h)
        else do {
          junk \<leftarrow> le_get64 h (padd p 88);
          let r = \<lparr>buf_addr = p, buf_fd = fd, buf_tty = None, buf_size = bufsize, buf_start = 0,
                   buf_end = 0, buf_put = unat junk\<rparr>;
          (case tty of None \<Rightarrow> Some (Some r, None, h)
           | Some (None, _) \<Rightarrow> do { h \<leftarrow> c_free h p; Some (None, None, h) }
           | Some (Some t, False) \<Rightarrow> do { h \<leftarrow> c_free h p; Some (None, Some (raw_termios t), h) }
           | Some (Some t, True) \<Rightarrow> Some (Some (r\<lparr>buf_tty := Some t\<rparr>), Some (raw_termios t), h)) })"

definition cpr_sockbuf :: "heap \<Rightarrow> (termios option \<times> bool) option \<Rightarrow> int \<Rightarrow> size_t \<Rightarrow>
    (bufio option \<times> termios option \<times> heap) option" where
  "cpr_sockbuf h tty so bufsize = cpr_makebuf h tty so bufsize"

subsection \<open>Input\<close>

text \<open>The two halves of the refill: moving the unread bytes to the front, and the read.\<close>

definition fill_shift :: "bufio \<Rightarrow> heap \<Rightarrow> size_t \<Rightarrow> size_t \<Rightarrow> (bufio \<times> heap) option" where
  "fill_shift r h avail request =
     (if avail < request \<and> buf_start r < buf_end r then do {
        h \<leftarrow> c_memmove h (buf_in r) (padd (buf_in r) (buf_start r)) (sz_sub (buf_end r) (buf_start r));
        Some (r\<lparr>buf_end := sz_sub (buf_end r) (buf_start r), buf_start := 0\<rparr>, h) }
      else Some (r, h))"

definition fill_read :: "'w sysio \<Rightarrow> bufio \<Rightarrow> heap \<Rightarrow> 'w \<Rightarrow> size_t \<Rightarrow> bool \<Rightarrow>
    (bool \<times> bufio option \<times> heap \<times> 'w) option" where
  "fill_read sys r h io request refill =
     (let (res, io) = sys_read sys (buf_fd r) (sz_sub (buf_size r) (buf_end r)) io in
      (case res of
         None \<Rightarrow> do { h \<leftarrow> store h (padd (buf_in r) (buf_end r)) 0; Some (refill, Some r, h, io) }
       | Some [] \<Rightarrow> do { h \<leftarrow> store h (padd (buf_in r) (buf_end r)) 0; Some (False, Some r, h, io) }
       | Some (c # cs) \<Rightarrow> do {
           h \<leftarrow> store_list h (padd (buf_in r) (buf_end r)) (c # cs);
           let r = r\<lparr>buf_end := sz_add (buf_end r) (length (c # cs))\<rparr>;
           h \<leftarrow> store h (padd (buf_in r) (buf_end r)) 0;
           Some (\<not> sz_sub (buf_end r) (buf_start r) < request, Some r, h, io) }))"

definition cpr_fillbuf :: "'w sysio \<Rightarrow> bufio option \<Rightarrow> heap \<Rightarrow> 'w \<Rightarrow> size_t \<Rightarrow>
    (bool \<times> bufio option \<times> heap \<times> 'w) option" where
  "cpr_fillbuf sys b h io request = (case b of None \<Rightarrow> Some (False, None, h, io)
     | Some r \<Rightarrow>
       if request > buf_size r then Some (False, Some r, h, io)
       else do {
         let remains = sz_sub (buf_end r) (buf_start r);
         let avail = sz_sub (buf_size r) (buf_start r);
         let refill = (request = 0);
         let request = (if request = 0 then buf_size r else request);
         if remains < request then do {
           (r, h) \<leftarrow> fill_shift r h avail request;
           fill_read sys r h io request refill }
         else do {
           h \<leftarrow> store h (padd (buf_in r) (buf_end r)) 0;
           Some (True, Some r, h, io) } })"

definition cpr_xgetbuf :: "'w sysio \<Rightarrow> bufio option \<Rightarrow> heap \<Rightarrow> 'w \<Rightarrow> size_t \<Rightarrow>
    (ptr \<times> bufio option \<times> heap \<times> 'w) option" where
  "cpr_xgetbuf sys b h io request = (case b of None \<Rightarrow> Some (Null, None, h, io)
     | Some r \<Rightarrow>
       if buf_size r < request then Some (Null, Some r, h, io)
       else do {
         (ok, b, h, io) \<leftarrow> cpr_fillbuf sys (Some r) h io request;
         if \<not> ok then Some (Null, b, h, io)
         else (case b of None \<Rightarrow> None
           | Some r \<Rightarrow> Some (padd (buf_in r) (buf_start r),
                Some (r\<lparr>buf_start := sz_add (buf_start r) request\<rparr>), h, io)) })"

definition cpr_cgetbuf :: "'w sysio \<Rightarrow> bufio option \<Rightarrow> heap \<Rightarrow> 'w \<Rightarrow>
    (byte \<times> bufio option \<times> heap \<times> 'w) option" where
  "cpr_cgetbuf sys b h io = (case b of None \<Rightarrow> Some (0, None, h, io)
     | Some r \<Rightarrow> do {
         (cp, b, h, io) \<leftarrow> cpr_xgetbuf sys (Some r) h io 1;
         if cp = Null then Some (0, b, h, io)
         else do { c \<leftarrow> load h cp; Some (c, b, h, io) } })"

definition cpr_resetbuf :: "'w sysio \<Rightarrow> bufio option \<Rightarrow> heap \<Rightarrow> 'w \<Rightarrow> size_t \<Rightarrow>
    (bool \<times> bufio option \<times> heap \<times> 'w) option" where
  "cpr_resetbuf sys b h io consume = (case b of None \<Rightarrow> Some (False, None, h, io)
     | Some r \<Rightarrow>
       if consume > buf_size r then Some (False, Some r, h, io)
       else if sz_add (buf_start r) consume \<le> buf_end r then do {
         let r = r\<lparr>buf_start := sz_add (buf_start r) consume\<rparr>;
         let remains = sz_sub (buf_end r) (buf_start r);
         h \<leftarrow> (if buf_start r > 0 \<and> remains \<noteq> 0
               then c_memmove h (buf_in r) (padd (buf_in r) (buf_start r)) remains else Some h);
         let r = r\<lparr>buf_start := 0, buf_end := remains\<rparr>;
         if remains < buf_size r then cpr_fillbuf sys (Some r) h io (sz_sub (buf_size r) remains)
         else Some (True, Some r, h, io) }
       else Some (False, Some r, h, io))"

text \<open>
  The scan of \<^verbatim>\<open>cpr_lgetbuf\<close>: whether a delimiter was found, and where the scan stands. Offsets
  inside a live object do not wrap.
\<close>

function lget_scan :: "heap \<Rightarrow> bufio \<Rightarrow> ptr \<Rightarrow> size_t \<Rightarrow> size_t \<Rightarrow> (bool \<times> size_t) option" where
  "lget_scan h r delim dlen scan =
     (if scan + dlen \<le> buf_end r then
        (case c_memcmp_eq h (padd (buf_in r) scan) delim dlen of None \<Rightarrow> None
         | Some same \<Rightarrow> if same then Some (True, scan) else lget_scan h r delim dlen (scan + 1))
      else Some (False, scan))"
  by pat_completeness auto
termination
  by (relation "measure (\<lambda>(h, r, d, n, scan). Suc (buf_end r) - scan)") auto

declare lget_scan.simps [simp del]

text \<open>The line that was found; the length goes to \<^verbatim>\<open>*outlen\<close>, or a terminator behind the line.\<close>

definition lget_line :: "heap \<Rightarrow> bufio \<Rightarrow> bool \<Rightarrow> size_t \<Rightarrow> size_t \<Rightarrow>
    (ptr \<times> size_t option \<times> bufio \<times> heap) option" where
  "lget_line h r outlen dlen scan = do {
     let len = scan - buf_start r;
     let result = padd (buf_in r) (buf_start r);
     h \<leftarrow> (if outlen then Some h
           else if buf_start r + len < buf_size r then store h (padd (buf_in r) (buf_start r + len)) 0
           else Some h);
     Some (result, if outlen then Some len else None, r\<lparr>buf_start := scan + dlen\<rparr>, h) }"

primrec lget_loop :: "nat \<Rightarrow> 'w sysio \<Rightarrow> bufio \<Rightarrow> heap \<Rightarrow> 'w \<Rightarrow> bool \<Rightarrow> ptr \<Rightarrow> size_t \<Rightarrow> size_t \<Rightarrow>
    (ptr \<times> size_t option \<times> bufio \<times> heap \<times> 'w) progress option" where
  "lget_loop 0 sys r h io outlen delim dlen scan = Some Running"
| "lget_loop (Suc n) sys r h io outlen delim dlen scan = do {
     (found, scan) \<leftarrow> lget_scan h r delim dlen scan;
     if found then do {
       (p, len, r, h) \<leftarrow> lget_line h r outlen dlen scan;
       Some (Done (p, len, r, h, io)) }
     else do {
       (ok, b, h, io) \<leftarrow> cpr_fillbuf sys (Some r) h io 0;
       (case b of None \<Rightarrow> None
        | Some r \<Rightarrow> if ok then lget_loop n sys r h io outlen delim dlen scan
                    else Some (Done (Null, None, r, h, io))) } }"

text \<open>\<open>newline\<close> is the address of the literal that stands in for a null delimiter.\<close>

definition cpr_lgetbuf :: "nat \<Rightarrow> 'w sysio \<Rightarrow> bufio option \<Rightarrow> heap \<Rightarrow> 'w \<Rightarrow> bool \<Rightarrow> ptr \<Rightarrow> ptr \<Rightarrow>
    (ptr \<times> size_t option \<times> bufio option \<times> heap \<times> 'w) progress option" where
  "cpr_lgetbuf n sys b h io outlen newline delim = (case b of None \<Rightarrow> Some (Done (Null, None, None, h, io))
     | Some r \<Rightarrow> do {
         let delim = (if delim = Null then newline else delim);
         dlen \<leftarrow> cpr_strlen h delim 16;
         res \<leftarrow> lget_loop n sys r h io outlen delim dlen (buf_start r);
         Some (case res of Running \<Rightarrow> Running
           | Done (p, len, r, h, io) \<Rightarrow> Done (p, len, Some r, h, io)) })"

subsection \<open>Waiting for input\<close>

text \<open>
  The answers of successive \<^verbatim>\<open>poll\<close> calls as return value, \<^verbatim>\<open>revents\<close> and \<^verbatim>\<open>errno\<close>;
  \<^const>\<open>None\<close> when the last one given is an interruption, so that the loop is still waiting.
\<close>

type_synonym poll_answer = "int \<times> 16 word \<times> int"

fun wait_loop :: "poll_answer list \<Rightarrow> int option" where
  "wait_loop [] = None"
| "wait_loop ((rv, revents, err) # answers) =
     (if rv > 0 then
        if revents AND 1 \<noteq> 0 then Some 1
        else if revents AND (8 OR 16 OR 32) \<noteq> 0 then Some (- 2)
        else Some (- 3)
      else if rv = 0 then Some 0
      else if err = 4 then wait_loop answers
      else Some (- 4))"

definition cpr_waitbuf :: "bufio option \<Rightarrow> poll_answer list \<Rightarrow> int option" where
  "cpr_waitbuf b answers = (case b of None \<Rightarrow> Some (- 1)
     | Some r \<Rightarrow> if buf_fd r < 0 then Some (- 1) else wait_loop answers)"

subsection \<open>Output\<close>

definition cpr_flushbuf :: "'w sysio \<Rightarrow> bufio option \<Rightarrow> heap \<Rightarrow> 'w \<Rightarrow>
    (bool \<times> bufio option \<times> heap \<times> 'w) option" where
  "cpr_flushbuf sys b h io = (case b of None \<Rightarrow> Some (False, None, h, io)
     | Some w \<Rightarrow>
       if buf_put w = 0 then Some (False, Some w, h, io)
       else do {
         let out = buf_out w;
         cs \<leftarrow> load_list h out (buf_put w);
         let (res, io) = sys_write sys (buf_fd w) cs io;
         let result = (case res of None \<Rightarrow> - 1 | Some k \<Rightarrow> int k);
         if to_size result < buf_put w then do {
           let remaining = sz_sub (buf_put w) (to_size result);
           h \<leftarrow> c_memmove h out (padd out (to_size result)) remaining;
           Some (False, Some (w\<lparr>buf_put := remaining\<rparr>), h, io) }
         else if to_size result < buf_put w then Some (False, Some w, h, io)
         else Some (True, Some (w\<lparr>buf_put := 0\<rparr>), h, io) })"

text \<open>The flush in front of an operation that needs more room.\<close>

definition make_room :: "'w sysio \<Rightarrow> bufio \<Rightarrow> heap \<Rightarrow> 'w \<Rightarrow> size_t \<Rightarrow> (bool \<times> bufio option \<times> heap \<times> 'w) option" where
  "make_room sys w h io n = (if sz_add (buf_put w) n > buf_size w then cpr_flushbuf sys (Some w) h io
     else Some (True, Some w, h, io))"

definition cpr_xputbuf :: "'w sysio \<Rightarrow> bufio option \<Rightarrow> heap \<Rightarrow> 'w \<Rightarrow> ptr \<Rightarrow> size_t \<Rightarrow>
    (bool \<times> bufio option \<times> heap \<times> 'w) option" where
  "cpr_xputbuf sys b h io src request = (case b of None \<Rightarrow> Some (False, None, h, io)
     | Some w \<Rightarrow>
       if src = Null \<or> request > buf_size w then Some (False, Some w, h, io)
       else do {
         (ok, b, h, io) \<leftarrow> make_room sys w h io request;
         (case b of None \<Rightarrow> None
          | Some w \<Rightarrow>
            if \<not> ok then Some (False, Some w, h, io)
            else do {
              (_, h) \<leftarrow> cpr_memcpy h (padd (buf_out w) (buf_put w)) (sz_sub (buf_size w) (buf_put w)) src request;
              Some (True, Some (w\<lparr>buf_put := sz_add (buf_put w) request\<rparr>), h, io) }) })"

definition cpr_sputbuf :: "'w sysio \<Rightarrow> bufio option \<Rightarrow> heap \<Rightarrow> 'w \<Rightarrow> ptr \<Rightarrow>
    (bool \<times> bufio option \<times> heap \<times> 'w) option" where
  "cpr_sputbuf sys b h io src =
     (if src = Null then Some (False, b, h, io)
      else (case b of None \<Rightarrow> None
        | Some w \<Rightarrow> do {
            n \<leftarrow> cpr_strlen h src (sz_add (buf_size w) 1);
            cpr_xputbuf sys b h io src n }))"

text \<open>The parameter \<^verbatim>\<open>ch\<close> is an object of its own while the call lasts.\<close>

definition cpr_cputbuf :: "'w sysio \<Rightarrow> bufio option \<Rightarrow> heap \<Rightarrow> 'w \<Rightarrow> byte \<Rightarrow>
    (bool \<times> bufio option \<times> heap \<times> 'w) option" where
  "cpr_cputbuf sys b h io ch = (case b of None \<Rightarrow> Some (False, None, h, io)
     | Some w \<Rightarrow> do {
         let c = hseq h;
         (ok, b, h, io) \<leftarrow> cpr_xputbuf sys (Some w) ((put_block h c [ch])\<lparr>hseq := Suc c\<rparr>) io (Ptr c 0) 1;
         h \<leftarrow> c_free h (Ptr c 0);
         Some (ok, b, h, io) })"

definition cpr_fmtbuf :: "'w sysio \<Rightarrow> bufio option \<Rightarrow> heap \<Rightarrow> 'w \<Rightarrow> size_t \<Rightarrow> ptr \<Rightarrow> byte list \<Rightarrow> bool \<Rightarrow>
    (bool \<times> bufio option \<times> heap \<times> 'w) option" where
  "cpr_fmtbuf sys b h io estimated fmt text failed = (case b of None \<Rightarrow> Some (False, None, h, io)
     | Some w \<Rightarrow>
       if fmt = Null \<or> estimated = 0 \<or> estimated > buf_size w then Some (False, Some w, h, io)
       else do {
         (ok, b, h, io) \<leftarrow> make_room sys w h io estimated;
         (case b of None \<Rightarrow> None
          | Some w \<Rightarrow>
            if \<not> ok then Some (False, Some w, h, io)
            else do {
              (n, h) \<leftarrow> c_vsnprintf h (padd (buf_out w) (buf_put w)) estimated text failed;
              if n < 0 \<or> nat n \<ge> estimated then Some (False, Some w, h, io)
              else Some (True, Some (w\<lparr>buf_put := sz_add (buf_put w) (nat n)\<rparr>), h, io) }) })"

subsection \<open>Releasing a buffer\<close>

text \<open>
  The system calls of \<^verbatim>\<open>cpr_freebuf\<close> behind the flush, given whether the descriptor is a terminal
  and whether \<^verbatim>\<open>fstat\<close> says it is a socket.
\<close>

datatype fd_call = Tcdrain int | Tcsetattr int termios | Shutdown int | Close int

definition cpr_freebuf :: "'w sysio \<Rightarrow> bufio option \<Rightarrow> heap \<Rightarrow> 'w \<Rightarrow> bool \<Rightarrow> bool \<Rightarrow>
    (fd_call list \<times> heap \<times> 'w) option" where
  "cpr_freebuf sys b h io tty sock = (case b of None \<Rightarrow> Some ([], h, io)
     | Some r \<Rightarrow> do {
         (_, b, h, io) \<leftarrow> cpr_flushbuf sys (Some r) h io;
         calls \<leftarrow> (if buf_fd r > - 1 \<and> tty then (case buf_tty r of None \<Rightarrow> None
               | Some t \<Rightarrow> Some [Tcdrain (buf_fd r), Tcsetattr (buf_fd r) t])
             else if buf_fd r > - 1 then
               Some ((if sock then [Shutdown (buf_fd r)] else []) @ (if buf_fd r > 2 then [Close (buf_fd r)] else []))
             else Some []);
         h \<leftarrow> c_free h (buf_addr r);
         Some (calls, h, io) })"

subsection \<open>The object in the store\<close>

text \<open>
  \<open>bufio_rep h r q o\<close>: the input bytes not yet taken are \<open>q\<close> and the output bytes not yet written
  are \<open>o\<close>, at the offsets the fields say and inside the object.
\<close>

definition bufio_rep :: "heap \<Rightarrow> bufio \<Rightarrow> byte list \<Rightarrow> byte list \<Rightarrow> bool" where
  "bufio_rep h r q out \<longleftrightarrow> (\<exists>b hdr pre post rest. buf_addr r = Ptr b 0 \<and>
     hblk h b = Some (hdr @ pre @ q @ post @ out @ rest) \<and> length hdr = 96 \<and>
     length pre = buf_start r \<and> buf_end r = buf_start r + length q \<and> buf_end r \<le> buf_size r \<and>
     buf_end r + length post = buf_size r + 8 \<and> length out = buf_put r \<and>
     length out + length rest = buf_size r \<and> 104 + 2 * buf_size r < 2 ^ 64)"

lemma bufio_repE:
  assumes "bufio_rep h r q out"
  obtains b hdr pre post rest where "buf_addr r = Ptr b 0" and "hblk h b = Some (hdr @ pre @ q @ post @ out @ rest)"
    and "length hdr = 96" and "length pre = buf_start r" and "buf_end r = buf_start r + length q"
    and "buf_end r \<le> buf_size r" and "buf_end r + length post = buf_size r + 8" and "length out = buf_put r"
    and "length out + length rest = buf_size r" and "104 + 2 * buf_size r < 2 ^ 64"
  using assms by (auto simp: bufio_rep_def)

lemma bufio_repI:
  assumes "buf_addr r = Ptr b 0" and "hblk h b = Some (hdr @ pre @ q @ post @ out @ rest)"
    and "length hdr = 96" and "length pre = buf_start r" and "buf_end r = buf_start r + length q"
    and "buf_end r \<le> buf_size r" and "buf_end r + length post = buf_size r + 8" and "length out = buf_put r"
    and "length out + length rest = buf_size r" and "104 + 2 * buf_size r < 2 ^ 64"
  shows "bufio_rep h r q out"
  using assms unfolding bufio_rep_def by blast

text \<open>What no operation changes: the identity of the object, and every block but its own.\<close>

definition bufio_frame :: "heap \<Rightarrow> bufio \<Rightarrow> heap \<Rightarrow> bufio \<Rightarrow> bool" where
  "bufio_frame h r h' r' \<longleftrightarrow> buf_addr r' = buf_addr r \<and> buf_fd r' = buf_fd r \<and> buf_tty r' = buf_tty r \<and>
     buf_size r' = buf_size r \<and> (\<forall>b. b \<noteq> ptr_block (buf_addr r) \<longrightarrow> hblk h' b = hblk h b) \<and> hseq h \<le> hseq h'"

lemma bufio_frame_refl [simp]: "bufio_frame h r h r"
  by (simp add: bufio_frame_def)

lemma bufio_frame_trans: "bufio_frame h r h' r' \<Longrightarrow> bufio_frame h' r' h'' r'' \<Longrightarrow> bufio_frame h r h'' r''"
  by (simp add: bufio_frame_def)

text \<open>The bytes received and sent so far, as functions of the world, and the documented behaviour of the calls.\<close>

definition got :: "byte list option \<Rightarrow> byte list" where
  "got res = (case res of None \<Rightarrow> [] | Some bs \<Rightarrow> bs)"

definition gone :: "nat option \<Rightarrow> nat" where
  "gone res = (case res of None \<Rightarrow> 0 | Some k \<Rightarrow> k)"

definition posix_io :: "'w sysio \<Rightarrow> ('w \<Rightarrow> byte list) \<Rightarrow> ('w \<Rightarrow> byte list) \<Rightarrow> bool" where
  "posix_io sys rx tx \<longleftrightarrow>
     (\<forall>fd n w res w'. sys_read sys fd n w = (res, w') \<longrightarrow>
        length (got res) \<le> n \<and> rx w' = rx w @ got res \<and> tx w' = tx w) \<and>
     (\<forall>fd cs w res w'. sys_write sys fd cs w = (res, w') \<longrightarrow>
        gone res \<le> length cs \<and> tx w' = tx w @ take (gone res) cs \<and> rx w' = rx w)"

lemma posix_read:
  assumes "posix_io sys rx tx" and "sys_read sys fd n w = (res, w')"
  shows "length (got res) \<le> n" and "rx w' = rx w @ got res" and "tx w' = tx w"
  using assms unfolding posix_io_def by blast+

lemma posix_write:
  assumes "posix_io sys rx tx" and "sys_write sys fd cs w = (res, w')"
  shows "gone res \<le> length cs" and "tx w' = tx w @ take (gone res) cs" and "rx w' = rx w"
  using assms unfolding posix_io_def by blast+

subsection \<open>Input\<close>

text \<open>Moving the last bytes of a run to its front.\<close>

lemma memmove_down:
  assumes "hblk h b = Some (pre @ xs @ post)" and "length pre = i" and "k \<le> length xs"
  shows "c_memmove h (Ptr b i) (Ptr b (i + k)) (length xs - k) =
    Some (put_block h b (pre @ drop k xs @ drop (length xs - k) xs @ post))"
proof -
  have "hblk h b = Some ((pre @ take k xs) @ drop k xs @ post)"
    using assms(1) by (metis append.assoc append_take_drop_id)
  then have "load_list h (Ptr b (i + k)) (length xs - k) = Some (drop k xs)"
    by (rule load_list_mid) (use assms in auto)
  moreover have "hblk h b = Some (pre @ take (length xs - k) xs @ drop (length xs - k) xs @ post)"
    using assms(1) by (metis append.assoc append_take_drop_id)
  then have "store_list h (Ptr b i) (drop k xs) = Some (put_block h b (pre @ drop k xs @ drop (length xs - k) xs @ post))"
    by (rule store_list_mid) (use assms in auto)
  ultimately show ?thesis by (simp add: c_memmove_def)
qed

text \<open>Moving the unread bytes to the front.\<close>

lemma move_front:
  assumes "bufio_rep h r q out" and "q \<noteq> []"
  shows "\<exists>h'. c_memmove h (buf_in r) (padd (buf_in r) (buf_start r)) (length q) = Some h' \<and>
    bufio_rep h' (r\<lparr>buf_end := length q, buf_start := 0\<rparr>) q out \<and>
    bufio_frame h r h' (r\<lparr>buf_end := length q, buf_start := 0\<rparr>)"
proof -
  obtain b hdr pre post rest where r: "buf_addr r = Ptr b 0" "hblk h b = Some (hdr @ pre @ q @ post @ out @ rest)"
    "length hdr = 96" "length pre = buf_start r" "buf_end r = buf_start r + length q"
    "buf_end r \<le> buf_size r" "buf_end r + length post = buf_size r + 8" "length out = buf_put r"
    "length out + length rest = buf_size r" "104 + 2 * buf_size r < 2 ^ 64"
    using assms(1) by (rule bufio_repE)
  let ?rest = "drop (length q) (pre @ q) @ post @ out @ rest" let ?h = "put_block h b (hdr @ q @ ?rest)"
  have "c_memmove h (buf_in r) (padd (buf_in r) (buf_start r)) (length q) = Some ?h"
    using memmove_down [of h b hdr "pre @ q" "post @ out @ rest" 96 "buf_start r"] r by (simp add: buf_in_def)
  moreover have "bufio_rep ?h (r\<lparr>buf_end := length q, buf_start := 0\<rparr>) q out"
    by (rule bufio_repI [of _ b _ hdr "[]" _ "drop (length q) (pre @ q) @ post" _ rest]) (use r in auto)
  ultimately show ?thesis using r(1) by (auto simp: bufio_frame_def)
qed

text \<open>Bytes that arrive behind the unread ones, and the terminator behind them.\<close>

lemma store_input:
  assumes "bufio_rep h r q out" and "buf_end r + length cs \<le> buf_size r"
  shows "\<exists>h1 h2. store_list h (padd (buf_in r) (buf_end r)) cs = Some h1 \<and>
    store h1 (padd (buf_in r) (buf_end r + length cs)) 0 = Some h2 \<and>
    bufio_rep h2 (r\<lparr>buf_end := buf_end r + length cs\<rparr>) (q @ cs) out \<and>
    bufio_frame h r h2 (r\<lparr>buf_end := buf_end r + length cs\<rparr>)"
proof -
  obtain b hdr pre post rest where r: "buf_addr r = Ptr b 0" "hblk h b = Some (hdr @ pre @ q @ post @ out @ rest)"
    "length hdr = 96" "length pre = buf_start r" "buf_end r = buf_start r + length q"
    "buf_end r \<le> buf_size r" "buf_end r + length post = buf_size r + 8" "length out = buf_put r"
    "length out + length rest = buf_size r" "104 + 2 * buf_size r < 2 ^ 64"
    using assms(1) by (rule bufio_repE)
  have "length cs < length post" using r(7) assms(2) by simp
  then obtain old x post' where p: "post = old @ x # post'" "length old = length cs"
    by (metis id_take_nth_drop length_take min.absorb2 less_imp_le)
  let ?h1 = "put_block h b (hdr @ pre @ q @ cs @ x # post' @ out @ rest)"
  let ?h2 = "put_block h b (hdr @ pre @ (q @ cs) @ (0 # post') @ out @ rest)"
  have s1: "store_list h (Ptr b (96 + buf_end r)) cs = Some ?h1"
    using store_list_mid [of h b "hdr @ pre @ q" old "x # post' @ out @ rest" "96 + buf_end r" cs] r p by simp
  have s2: "store ?h1 (Ptr b (96 + (buf_end r + length cs))) 0 = Some ?h2"
    using store_list_mid [of ?h1 b "hdr @ pre @ q @ cs" "[x]" "post' @ out @ rest" "96 + (buf_end r + length cs)" "[0]"] r p
    by (simp split: bind_splits)
  have "bufio_rep ?h2 (r\<lparr>buf_end := buf_end r + length cs\<rparr>) (q @ cs) out"
    by (rule bufio_repI [of _ b _ hdr pre _ "0 # post'" _ rest]) (use r p assms(2) in auto)
  with s1 s2 r(1) show ?thesis
    by (intro exI [of _ ?h1] exI [of _ ?h2]) (auto simp: bufio_frame_def buf_in_def)
qed

definition moved :: "('w \<Rightarrow> byte list) \<Rightarrow> ('w \<Rightarrow> byte list) \<Rightarrow> 'w \<Rightarrow> 'w \<Rightarrow> byte list \<Rightarrow> byte list \<Rightarrow> bool" where
  "moved rx tx io io' new sent \<longleftrightarrow> rx io' = rx io @ new \<and> tx io' = tx io @ sent"

text \<open>A call that answers, and an object that then holds the given bytes.\<close>

definition buf_done :: "heap \<Rightarrow> bufio \<Rightarrow> bufio option \<Rightarrow> heap \<Rightarrow> byte list \<Rightarrow> byte list \<Rightarrow> bool" where
  "buf_done h r b' h' q out \<longleftrightarrow> (\<exists>r'. b' = Some r' \<and> bufio_rep h' r' q out \<and> bufio_frame h r h' r')"

lemma buf_in_upd [simp]: "buf_in (r\<lparr>buf_end := e\<rparr>) = buf_in r" "buf_in (r\<lparr>buf_start := s\<rparr>) = buf_in r" "buf_in (r\<lparr>buf_put := p\<rparr>) = buf_in r"
  by (simp_all add: buf_in_def)

lemma buf_out_upd [simp]: "buf_out (r\<lparr>buf_end := e\<rparr>) = buf_out r" "buf_out (r\<lparr>buf_start := s\<rparr>) = buf_out r" "buf_out (r\<lparr>buf_put := p\<rparr>) = buf_out r"
  by (simp_all add: buf_out_def)

lemma bufio_rep_sizes:
  assumes "bufio_rep h r q out"
  shows "buf_end r = buf_start r + length q" "buf_end r \<le> buf_size r" "length out = buf_put r" "length out \<le> buf_size r"
    "104 + 2 * buf_size r < 2 ^ 64" "sz_sub (buf_end r) (buf_start r) = length q"
    "sz_sub (buf_size r) (buf_start r) = buf_size r - buf_start r" "sz_sub (buf_size r) (buf_end r) = buf_size r - buf_end r"
  using assms by (auto elim!: bufio_repE simp: size_simps)

lemma fill_shift_rep:
  assumes "bufio_rep h r q out"
  shows "\<exists>r1 h1. fill_shift r h avail request = Some (r1, h1) \<and> bufio_rep h1 r1 q out \<and> bufio_frame h r h1 r1"
proof (cases "avail < request \<and> buf_start r < buf_end r")
  case True
  then have "q \<noteq> []" using bufio_rep_sizes(1) [OF assms] by auto
  from move_front [OF assms this] True show ?thesis by (auto simp: fill_shift_def bufio_rep_sizes(6) [OF assms])
qed (use assms in \<open>auto simp: fill_shift_def\<close>)

lemma fill_read_rep:
  assumes "posix_io sys rx tx" and "bufio_rep h r q out" and "sys_read sys (buf_fd r) (sz_sub (buf_size r) (buf_end r)) io = (res, io')"
  shows "\<exists>ok b' h'. fill_read sys r h io request refill = Some (ok, b', h', io') \<and>
    buf_done h r b' h' (q @ got res) out \<and> moved rx tx io io' (got res) [] \<and>
    ok = (case res of None \<Rightarrow> refill | Some [] \<Rightarrow> False | Some _ \<Rightarrow> request \<le> length (q @ got res))"
proof -
  note sizes = bufio_rep_sizes [OF assms(2)]
  have fit: "buf_end r + length (got res) \<le> buf_size r" using posix_read(1) [OF assms(1,3)] sizes(2,8) by simp
  obtain h1 h2 where st: "store_list h (padd (buf_in r) (buf_end r)) (got res) = Some h1"
    "store h1 (padd (buf_in r) (buf_end r + length (got res))) 0 = Some h2"
    "bufio_rep h2 (r\<lparr>buf_end := buf_end r + length (got res)\<rparr>) (q @ got res) out"
    "bufio_frame h r h2 (r\<lparr>buf_end := buf_end r + length (got res)\<rparr>)"
    using store_input [OF assms(2) fit] by blast
  let ?r = "r\<lparr>buf_end := buf_end r + length (got res)\<rparr>"
  have dn: "buf_done h r (Some ?r) h2 (q @ got res) out" using st(3,4) by (auto simp: buf_done_def)
  have mv: "moved rx tx io io' (got res) []" using posix_read(2,3) [OF assms(1,3)] by (simp add: moved_def)
  show ?thesis
  proof (cases "got res")
    case Nil
    then have "?r = r" by simp
    with Nil st(1,2) dn mv show ?thesis
      by (intro exI [of _ "case res of None \<Rightarrow> refill | Some _ \<Rightarrow> False"] exI [of _ "Some r"] exI [of _ h2])
        (auto simp: fill_read_def assms(3) got_def split: option.splits list.splits)
  next
    case (Cons c cs)
    then have res: "res = Some (c # cs)" by (auto simp: got_def split: option.splits)
    have e: "sz_add (buf_end r) (length (got res)) = buf_end r + length (got res)"
      using fit sizes(5) by (simp add: size_simps)
    have d: "sz_sub (buf_end r + length (got res)) (buf_start r) = length (q @ got res)"
      using fit sizes by (simp add: size_simps)
    show ?thesis
      by (intro exI [of _ "request \<le> length (q @ got res)"] exI [of _ "Some ?r"] exI [of _ h2] conjI dn mv)
        (simp_all only: fill_read_def assms(3) res prod.case option.case list.case e [unfolded Cons] d [unfolded Cons] st(1,2) [unfolded Cons] Let_def not_less
          bind.bind_lunit buf_in_upd Cons [unfolded res],
         simp add: st(2) [unfolded Cons] d [unfolded Cons] del: list.size length_append)
  qed
qed

lemma cpr_fillbuf_rep:
  assumes "posix_io sys rx tx" and "bufio_rep h r q out"
  shows "\<exists>ok b' h' io' new. cpr_fillbuf sys (Some r) h io n = Some (ok, b', h', io') \<and>
    buf_done h r b' h' (q @ new) out \<and> moved rx tx io io' new [] \<and>
    (ok \<longrightarrow> n \<le> length (q @ new)) \<and> (buf_size r < n \<longrightarrow> \<not> ok)"
proof (cases "n > buf_size r")
  case True
  with assms show ?thesis
    by (intro exI [of _ False] exI [of _ "Some r"] exI [of _ h] exI [of _ io] exI [of _ "[]"])
      (simp add: cpr_fillbuf_def buf_done_def moved_def)
next
  case False
  note sizes = bufio_rep_sizes [OF assms(2)]
  define m where "m = (if n = 0 then buf_size r else n)"
  show ?thesis
  proof (cases "length q < m")
    case less: True
    obtain r1 h1 where mv: "fill_shift r h (buf_size r - buf_start r) m = Some (r1, h1)"
      "bufio_rep h1 r1 q out" "bufio_frame h r h1 r1"
      using fill_shift_rep [OF assms(2)] by blast
    obtain res io' where rd: "sys_read sys (buf_fd r1) (sz_sub (buf_size r1) (buf_end r1)) io = (res, io')"
      by fastforce
    from fill_read_rep [OF assms(1) mv(2) rd, of m "n = 0"] obtain ok b' h' where f:
      "fill_read sys r1 h1 io m (n = 0) = Some (ok, b', h', io')"
      "buf_done h1 r1 b' h' (q @ got res) out" "moved rx tx io io' (got res) []"
      "ok = (case res of None \<Rightarrow> n = 0 | Some [] \<Rightarrow> False | Some _ \<Rightarrow> m \<le> length (q @ got res))" by blast
    have "cpr_fillbuf sys (Some r) h io n = Some (ok, b', h', io')"
      using False less sizes mv(1) f(1) by (simp add: cpr_fillbuf_def Let_def flip: m_def)
    moreover have "n \<le> length (q @ got res)" if ok
      using that f(4) by (auto simp: m_def got_def split: option.splits list.splits if_splits)
    moreover have "buf_done h r b' h' (q @ got res) out"
      using f(2) mv(3) bufio_frame_trans by (auto simp: buf_done_def)
    ultimately show ?thesis using f(3) False by blast
  next
    case full: False
    obtain h1 h2 where st: "store_list h (padd (buf_in r) (buf_end r)) [] = Some h1"
      "store h1 (padd (buf_in r) (buf_end r + length ([] :: byte list))) 0 = Some h2"
      "bufio_rep h2 (r\<lparr>buf_end := buf_end r + length ([] :: byte list)\<rparr>) (q @ []) out"
      "bufio_frame h r h2 (r\<lparr>buf_end := buf_end r + length ([] :: byte list)\<rparr>)"
      using store_input [OF assms(2), of "[]"] sizes(2) by auto
    then have "cpr_fillbuf sys (Some r) h io n = Some (True, Some r, h2, io)"
      using False full sizes by (simp add: cpr_fillbuf_def Let_def m_def)
    moreover have "buf_done h r (Some r) h2 (q @ []) out" using st(3,4) by (simp add: buf_done_def)
    moreover have "n \<le> length q" using full by (auto simp: m_def split: if_splits)
    ultimately show ?thesis using False
      by (intro exI [of _ True] exI [of _ "Some r"] exI [of _ h2] exI [of _ io] exI [of _ "[]"]) (simp add: moved_def)
  qed
qed

text \<open>Taking bytes off the front of the input.\<close>

lemma take_front:
  assumes "bufio_rep h r q out" and "n \<le> length q"
  shows "bufio_rep h (r\<lparr>buf_start := buf_start r + n\<rparr>) (drop n q) out"
    and "load_list h (padd (buf_in r) (buf_start r)) n = Some (take n q)"
    and "sz_add (buf_start r) n = buf_start r + n"
proof -
  obtain b hdr pre post rest where r: "buf_addr r = Ptr b 0" "hblk h b = Some (hdr @ pre @ q @ post @ out @ rest)"
    "length hdr = 96" "length pre = buf_start r" "buf_end r = buf_start r + length q"
    "buf_end r \<le> buf_size r" "buf_end r + length post = buf_size r + 8" "length out = buf_put r"
    "length out + length rest = buf_size r" "104 + 2 * buf_size r < 2 ^ 64"
    using assms(1) by (rule bufio_repE)
  have blk: "hblk h b = Some (hdr @ pre @ take n q @ drop n q @ post @ out @ rest)"
    using r(2) by (metis append.assoc append_take_drop_id)
  then show "bufio_rep h (r\<lparr>buf_start := buf_start r + n\<rparr>) (drop n q) out"
    by (intro bufio_repI [of _ b _ hdr "pre @ take n q" _ post _ rest]) (use r assms(2) in auto)
  show "load_list h (padd (buf_in r) (buf_start r)) n = Some (take n q)"
    using load_list_mid [OF blk [unfolded append.assoc [of hdr pre, symmetric]], of "96 + buf_start r" n] r assms(2)
    by (simp add: buf_in_def)
  show "sz_add (buf_start r) n = buf_start r + n" using r assms(2) by (simp add: size_simps)
qed

lemma buf_done_trans:
  "bufio_frame h r h1 r1 \<Longrightarrow> buf_done h1 r1 b' h' q out \<Longrightarrow> buf_done h r b' h' q out"
  by (auto simp: buf_done_def intro: bufio_frame_trans)

lemma bufio_frame_start: "bufio_frame h r h' r' \<Longrightarrow> bufio_frame h r h' (r'\<lparr>buf_start := n\<rparr>)"
  by (simp add: bufio_frame_def)

lemma cpr_xgetbuf_rep:
  assumes "posix_io sys rx tx" and "bufio_rep h r q out"
  shows "\<exists>p b' h' io' new. cpr_xgetbuf sys (Some r) h io n = Some (p, b', h', io') \<and> moved rx tx io io' new [] \<and>
    (if p = Null then buf_done h r b' h' (q @ new) out
     else load_list h' p n = Some (take n (q @ new)) \<and> n \<le> length (q @ new) \<and> buf_done h r b' h' (drop n (q @ new)) out)"
proof (cases "buf_size r < n")
  case True
  with assms(2) show ?thesis
    by (intro exI [of _ Null] exI [of _ "Some r"] exI [of _ h] exI [of _ io] exI [of _ "[]"])
      (simp add: cpr_xgetbuf_def buf_done_def moved_def)
next
  case False
  obtain ok r1 h1 io1 new where f: "cpr_fillbuf sys (Some r) h io n = Some (ok, Some r1, h1, io1)"
    "bufio_rep h1 r1 (q @ new) out" "bufio_frame h r h1 r1" "moved rx tx io io1 new []" "ok \<longrightarrow> n \<le> length (q @ new)"
    using cpr_fillbuf_rep [OF assms, of io n] by (auto simp: buf_done_def)
  show ?thesis
  proof (cases ok)
    case True
    note t = take_front [OF f(2) f(5) [rule_format, OF True]]
    have "padd (buf_in r1) (buf_start r1) \<noteq> Null" using f(2) by (auto simp: buf_in_def elim: bufio_repE)
    moreover have "buf_done h r (Some (r1\<lparr>buf_start := buf_start r1 + n\<rparr>)) h1 (drop n (q @ new)) out"
      unfolding buf_done_def using t(1) bufio_frame_start [OF f(3)] by blast
    ultimately show ?thesis using False True f t(2,3)
      by (intro exI [of _ "padd (buf_in r1) (buf_start r1)"] exI [of _ "Some (r1\<lparr>buf_start := buf_start r1 + n\<rparr>)"]
          exI [of _ h1] exI [of _ io1] exI [of _ new]) (simp add: cpr_xgetbuf_def)
  next
    case nok: False
    with False f show ?thesis
      by (intro exI [of _ Null] exI [of _ "Some r1"] exI [of _ h1] exI [of _ io1] exI [of _ new])
        (simp add: cpr_xgetbuf_def buf_done_def)
  qed
qed

lemma cpr_cgetbuf_rep:
  assumes "posix_io sys rx tx" and "bufio_rep h r q out"
  shows "\<exists>p c b' h' io' new. cpr_xgetbuf sys (Some r) h io 1 = Some (p, b', h', io') \<and>
    cpr_cgetbuf sys (Some r) h io = Some (c, b', h', io') \<and> moved rx tx io io' new [] \<and>
    (if p = Null then c = 0 \<and> buf_done h r b' h' (q @ new) out
     else \<exists>q'. q @ new = c # q' \<and> buf_done h r b' h' q' out)"
proof -
  obtain p b' h' io' new where x: "cpr_xgetbuf sys (Some r) h io 1 = Some (p, b', h', io')" "moved rx tx io io' new []"
    "if p = Null then buf_done h r b' h' (q @ new) out
     else load_list h' p 1 = Some (take 1 (q @ new)) \<and> 1 \<le> length (q @ new) \<and> buf_done h r b' h' (drop 1 (q @ new)) out"
    using cpr_xgetbuf_rep [OF assms, of io 1] by blast
  show ?thesis
  proof (cases "p = Null")
    case True
    with x show ?thesis by (intro exI [of _ p] exI [of _ 0] exI [of _ b']) (auto simp: cpr_cgetbuf_def)
  next
    case False
    with x(3) obtain c q' where c: "q @ new = c # q'" by (cases "q @ new") auto
    then have "load h' p = Some c" using False x(3) by (auto split: bind_splits)
    with False x c show ?thesis by (intro exI [of _ p] exI [of _ c] exI [of _ b']) (auto simp: cpr_cgetbuf_def)
  qed
qed

lemma cpr_resetbuf_rep:
  assumes "posix_io sys rx tx" and "bufio_rep h r q out"
  shows "\<exists>ok b' h' io' new. cpr_resetbuf sys (Some r) h io n = Some (ok, b', h', io') \<and> moved rx tx io io' new [] \<and>
    buf_done h r b' h' ((if n \<le> length q then drop n q else q) @ new) out"
proof -
  note sizes = bufio_rep_sizes [OF assms(2)]
  have add: "sz_add (buf_start r) n \<le> buf_end r \<longleftrightarrow> n \<le> length q" if "n \<le> buf_size r"
    using that sizes by (simp add: size_simps)
  show ?thesis
  proof (cases "n \<le> length q")
    case False
    with assms(2) add show ?thesis
      by (intro exI [of _ False] exI [of _ "Some r"] exI [of _ h] exI [of _ io] exI [of _ "[]"])
        (auto simp: cpr_resetbuf_def buf_done_def moved_def)
  next
    case True
    then have n: "n \<le> buf_size r" using sizes(1,2) by simp
    note t = take_front [OF assms(2) True]
    let ?q = "drop n q" let ?r = "r\<lparr>buf_start := buf_start r + n\<rparr>"
    let ?r1 = "r\<lparr>buf_start := 0, buf_end := length ?q\<rparr>"
    note st = bufio_rep_sizes [OF t(1)]
    obtain h1 where h1: "(if buf_start ?r > 0 \<and> length ?q \<noteq> 0
        then c_memmove h (buf_in r) (padd (buf_in r) (buf_start ?r)) (length ?q) else Some h) = Some h1"
      "bufio_rep h1 ?r1 ?q out" "bufio_frame h r h1 ?r1"
    proof (cases "buf_start ?r > 0 \<and> length ?q \<noteq> 0")
      case True
      then have "?q \<noteq> []" by auto
      have eq: "?r\<lparr>buf_end := length ?q, buf_start := 0\<rparr> = ?r1" by (cases r) simp
      from move_front [OF t(1) \<open>?q \<noteq> []\<close>, unfolded eq] obtain h1 where
        "c_memmove h (buf_in r) (padd (buf_in r) (buf_start ?r)) (length ?q) = Some h1"
        "bufio_rep h1 ?r1 ?q out" "bufio_frame h ?r h1 ?r1" by (auto simp only: buf_in_upd)
      with True show ?thesis by (intro that [of h1]) (auto simp: bufio_frame_def)
    next
      case False
      then consider "buf_start r + n = 0" | "?q = []" by auto
      then have "bufio_rep h ?r1 ?q out"
      proof cases
        case 1
        then have "?r1 = r" using sizes(1) by (cases r) simp
        with 1 assms(2) show ?thesis by simp
      next
        case 2
        with t(1) show ?thesis by (auto elim!: bufio_repE intro!: bufio_repI [where pre = "[]" and q = "[]"])
      qed
      with False that show ?thesis by (auto simp: bufio_frame_def)
    qed
    define d where "d = length ?q"
    have e: "sz_add (buf_start r) n \<le> buf_end r" using add n True by simp
    have mm: "(if buf_start r + n > 0 \<and> d \<noteq> 0 then c_memmove h (buf_in r) (padd (buf_in r) (buf_start r + n)) d
        else Some h) = Some h1" using h1(1) by (auto simp: d_def split: if_splits)
    have s6: "sz_sub (buf_end r) (buf_start r + n) = d" using st(6) by (simp add: d_def)
    have go: "cpr_resetbuf sys (Some r) h io n = (if d < buf_size r
        then cpr_fillbuf sys (Some (r\<lparr>buf_start := 0, buf_end := d\<rparr>)) h1 io (sz_sub (buf_size r) d)
        else Some (True, Some (r\<lparr>buf_start := 0, buf_end := d\<rparr>), h1, io))"
      using n e mm s6 t(3) by (auto simp: cpr_resetbuf_def Let_def split: if_splits)
    show ?thesis
    proof (cases "d < buf_size r")
      case less: True
      obtain ok b' h' io' new where f: "cpr_fillbuf sys (Some ?r1) h1 io (sz_sub (buf_size r) d) = Some (ok, b', h', io')"
        "buf_done h1 ?r1 b' h' (?q @ new) out" "moved rx tx io io' new []"
        using cpr_fillbuf_rep [OF assms(1) h1(2), of io "sz_sub (buf_size r) d"] by blast
      with True less go buf_done_trans [OF h1(3) f(2)] show ?thesis by (auto simp: d_def)
    next
      case False
      with True h1(2,3) go show ?thesis
        by (intro exI [of _ True] exI [of _ "Some ?r1"] exI [of _ h1] exI [of _ io] exI [of _ "[]"])
          (simp add: buf_done_def moved_def d_def)
    qed
  qed
qed

subsection \<open>Output\<close>

definition writes_ok :: "'w sysio \<Rightarrow> bool" where
  "writes_ok sys \<longleftrightarrow> (\<forall>fd cs w. fst (sys_write sys fd cs w) \<noteq> None)"

lemma to_size_simps [simp]: "to_size (- 1) = 2 ^ 64 - 1" "k < 2 ^ 64 \<Longrightarrow> to_size (int k) = k"
  by (simp_all add: to_size_def nat_mod_distrib)

text \<open>The part of the object in front of the output bytes, and what stores behind it make of the object.\<close>

definition front_at :: "bufio \<Rightarrow> byte list \<Rightarrow> nat \<Rightarrow> byte list \<Rightarrow> bool" where
  "front_at r q b front \<longleftrightarrow> (\<exists>hdr pre post. front = hdr @ pre @ q @ post \<and> length hdr = 96 \<and>
     length pre = buf_start r \<and> buf_end r = buf_start r + length q \<and> buf_end r \<le> buf_size r \<and>
     buf_end r + length post = buf_size r + 8 \<and> buf_addr r = Ptr b 0 \<and> 104 + 2 * buf_size r < 2 ^ 64)"

lemma buf_out_rep:
  assumes "bufio_rep h r q out"
  obtains b front rest where "front_at r q b front" and "buf_out r = Ptr b (length front)"
    and "hblk h b = Some (front @ out @ rest)" and "length out + length rest = buf_size r"
proof -
  obtain b hdr pre post rest where r: "buf_addr r = Ptr b 0" "hblk h b = Some (hdr @ pre @ q @ post @ out @ rest)"
    "length hdr = 96" "length pre = buf_start r" "buf_end r = buf_start r + length q"
    "buf_end r \<le> buf_size r" "buf_end r + length post = buf_size r + 8" "length out = buf_put r"
    "length out + length rest = buf_size r" "104 + 2 * buf_size r < 2 ^ 64"
    using assms by (rule bufio_repE)
  have "length (hdr @ pre @ q @ post) = 104 + buf_size r" using r by simp
  moreover have "sz_add 104 (buf_size r) = 104 + buf_size r" using r(10) by (simp add: size_simps)
  ultimately have "buf_out r = Ptr b (length (hdr @ pre @ q @ post))" using r(1) by (simp add: buf_out_def bufio_sizeof_def)
  moreover have "front_at r q b (hdr @ pre @ q @ post)" using r unfolding front_at_def by blast
  ultimately show ?thesis using r(2,9) by (intro that) auto
qed

lemma front_done:
  assumes "front_at r q b front" and "hblk h' b = Some (front @ out @ rest)" and "length out + length rest = buf_size r"
    and "\<And>c. c \<noteq> b \<Longrightarrow> hblk h' c = hblk h c" and "hseq h \<le> hseq h'"
  shows "buf_done h r (Some (r\<lparr>buf_put := length out\<rparr>)) h' q out"
proof -
  obtain hdr pre post where f: "front = hdr @ pre @ q @ post" "length hdr = 96" "length pre = buf_start r"
    "buf_end r = buf_start r + length q" "buf_end r \<le> buf_size r" "buf_end r + length post = buf_size r + 8"
    "buf_addr r = Ptr b 0" "104 + 2 * buf_size r < 2 ^ 64" using assms(1) by (auto simp: front_at_def)
  have "bufio_rep h' (r\<lparr>buf_put := length out\<rparr>) q out"
    by (rule bufio_repI [of _ b _ hdr pre _ post _ rest]) (use f assms(2,3) in auto)
  with assms(4,5) f(7) show ?thesis by (auto simp: buf_done_def bufio_frame_def)
qed

lemma cpr_flushbuf_rep:
  assumes "posix_io sys rx tx" and "bufio_rep h r q out"
  shows "\<exists>ok b' h' io' sent out'. cpr_flushbuf sys (Some r) h io = Some (ok, b', h', io') \<and>
    buf_done h r b' h' q out' \<and> moved rx tx io io' [] sent \<and> (writes_ok sys \<longrightarrow> out = sent @ out') \<and> (ok \<longrightarrow> out' = [])"
proof (cases "out = []")
  case True
  then have "buf_put r = 0" using bufio_rep_sizes(3) [OF assms(2)] by simp
  with assms(2) True show ?thesis
    by (intro exI [of _ False] exI [of _ "Some r"] exI [of _ h] exI [of _ io] exI [of _ "[]"])
      (simp add: cpr_flushbuf_def buf_done_def moved_def)
next
  case False
  obtain b pre rest where r: "front_at r q b pre" "buf_out r = Ptr b (length pre)" "hblk h b = Some (pre @ out @ rest)"
    "length out + length rest = buf_size r"
    using assms(2) by (rule buf_out_rep)
  have put: "buf_put r = length out" "length out < 2 ^ 64 - 1" using bufio_rep_sizes [OF assms(2)] by simp_all
  have ld: "load_list h (buf_out r) (buf_put r) = Some out" unfolding r(2) put(1) by (rule load_list_mid [OF r(3)]) simp_all
  obtain res io' where w: "sys_write sys (buf_fd r) out io = (res, io')" by fastforce
  note pw = posix_write [OF assms(1) w]
  have mv: "moved rx tx io io' [] (take (gone res) out)" using pw by (simp add: moved_def)
  show ?thesis
  proof (cases "\<exists>k. res = Some k \<and> k < length out")
    case True
    then obtain k where k: "res = Some k" "k < length out" by blast
    let ?h = "put_block h b (pre @ drop k out @ drop (length out - k) out @ rest)"
    have mm: "c_memmove h (Ptr b (length pre)) (Ptr b (length pre + k)) (length out - k) = Some ?h"
      using memmove_down [OF r(3) refl, of k] k(2) by simp
    have "sz_sub (length out) k = length out - k" "to_size (int k) = k" using k(2) put(2) by (simp_all add: size_simps)
    then have "cpr_flushbuf sys (Some r) h io = Some (False, Some (r\<lparr>buf_put := length out - k\<rparr>), ?h, io')"
      using False ld put w k mm r(2) by (simp add: cpr_flushbuf_def Let_def)
    moreover have "buf_done h r (Some (r\<lparr>buf_put := length out - k\<rparr>)) ?h q (drop k out)"
      using front_done [OF r(1), of ?h "drop k out" "drop (length out - k) out @ rest" h] r(4) k(2) by simp
    ultimately show ?thesis using mv k
      by (intro exI [of _ False] exI [of _ "Some (r\<lparr>buf_put := length out - k\<rparr>)"] exI [of _ ?h] exI [of _ io']
          exI [of _ "take k out"] exI [of _ "drop k out"]) (simp add: gone_def)
  next
    case all: False
    have big: "length out \<le> to_size (case res of None \<Rightarrow> - 1 | Some k \<Rightarrow> int k)"
    proof (cases res)
      case (Some k)
      with all pw(1) have "k = length out" by (simp add: gone_def)
      with Some put(2) show ?thesis by simp
    qed (use put(2) in simp)
    then have "cpr_flushbuf sys (Some r) h io = Some (True, Some (r\<lparr>buf_put := 0\<rparr>), h, io')"
      using False ld put w by (simp add: cpr_flushbuf_def)
    moreover have "buf_done h r (Some (r\<lparr>buf_put := 0\<rparr>)) h q []"
      using front_done [OF r(1), of h "[]" "out @ rest" h] r(3,4) by simp
    moreover have "out = take (gone res) out" if "writes_ok sys"
    proof -
      have "res \<noteq> None" using that w unfolding writes_ok_def by (metis fst_conv)
      with all pw(1) show ?thesis by (auto simp: gone_def)
    qed
    ultimately show ?thesis using mv
      by (intro exI [of _ True] exI [of _ "Some (r\<lparr>buf_put := 0\<rparr>)"] exI [of _ h] exI [of _ io']
          exI [of _ "take (gone res) out"] exI [of _ "[]"]) simp
  qed
qed

lemma load_list_same_block:
  assumes "hblk h' (ptr_block p) = hblk h (ptr_block p)"
  shows "load_list h' p n = load_list h p n"
  using assms by (induction n arbitrary: p) (auto simp: load_def split: ptr.splits)

lemma make_room_rep:
  assumes "posix_io sys rx tx" and "bufio_rep h r q out" and "n \<le> buf_size r"
  shows "\<exists>ok r' h' io' sent out'. make_room sys r h io n = Some (ok, Some r', h', io') \<and>
    bufio_rep h' r' q out' \<and> bufio_frame h r h' r' \<and> moved rx tx io io' [] sent \<and> (writes_ok sys \<longrightarrow> out = sent @ out') \<and>
    (ok \<longrightarrow> length out' + n \<le> buf_size r)"
proof -
  note sizes = bufio_rep_sizes [OF assms(2)]
  have add: "sz_add (buf_put r) n = length out + n" using sizes(3-5) assms(3) by (simp add: size_simps)
  show ?thesis
  proof (cases "length out + n > buf_size r")
    case True
    from cpr_flushbuf_rep [OF assms(1,2), of io] obtain ok b' h' io' sent out' where f:
      "cpr_flushbuf sys (Some r) h io = Some (ok, b', h', io')" "buf_done h r b' h' q out'" "moved rx tx io io' [] sent"
      "writes_ok sys \<longrightarrow> out = sent @ out'" "ok \<longrightarrow> out' = []" by blast
    from f(2) obtain r' where "b' = Some r'" "bufio_rep h' r' q out'" "bufio_frame h r h' r'" by (auto simp: buf_done_def)
    with f True add assms(3) show ?thesis
      by (intro exI [of _ ok] exI [of _ r'] exI [of _ h'] exI [of _ io'] exI [of _ sent] exI [of _ out'])
        (auto simp: make_room_def)
  next
    case False
    with add assms(2) show ?thesis
      by (intro exI [of _ True] exI [of _ r] exI [of _ h] exI [of _ io] exI [of _ "[]"] exI [of _ out])
        (simp add: make_room_def moved_def)
  qed
qed

lemma cpr_xputbuf_rep:
  assumes "posix_io sys rx tx" and "bufio_rep h r q out" and "load_list h src n = Some cs"
    and "src \<noteq> Null" and "ptr_block src \<noteq> ptr_block (buf_addr r)"
  shows "\<exists>ok b' h' io' sent out'. cpr_xputbuf sys (Some r) h io src n = Some (ok, b', h', io') \<and>
    buf_done h r b' h' q out' \<and> moved rx tx io io' [] sent \<and>
    (writes_ok sys \<longrightarrow> out @ (if ok then cs else []) = sent @ out')"
proof (cases "n > buf_size r")
  case True
  with assms(2) show ?thesis
    by (intro exI [of _ False] exI [of _ "Some r"] exI [of _ h] exI [of _ io] exI [of _ "[]"] exI [of _ out])
      (simp add: cpr_xputbuf_def buf_done_def moved_def)
next
  case False
  then obtain ok r1 h1 io1 sent out1 where m: "make_room sys r h io n = Some (ok, Some r1, h1, io1)"
    "bufio_rep h1 r1 q out1" "bufio_frame h r h1 r1" "moved rx tx io io1 [] sent" "writes_ok sys \<longrightarrow> out = sent @ out1"
    "ok \<longrightarrow> length out1 + n \<le> buf_size r"
    using make_room_rep [OF assms(1,2), of n io] by auto
  show ?thesis
  proof (cases ok)
    case nok: False
    with m False assms(4) show ?thesis
      by (intro exI [of _ False] exI [of _ "Some r1"] exI [of _ h1] exI [of _ io1] exI [of _ sent] exI [of _ out1])
        (simp add: cpr_xputbuf_def buf_done_def)
  next
    case True
    have sz: "buf_size r1 = buf_size r" "buf_addr r1 = buf_addr r" using m(3) by (auto simp: bufio_frame_def)
    obtain b front rest where f: "front_at r1 q b front" "buf_out r1 = Ptr b (length front)"
      "hblk h1 b = Some (front @ out1 @ rest)" "length out1 + length rest = buf_size r1"
      using m(2) by (rule buf_out_rep)
    have b: "buf_addr r = Ptr b 0" using f(1) sz(2) by (auto simp: front_at_def)
    have len: "n \<le> length rest" "length cs = n" using m(6) True f(4) sz(1) load_list_length [OF assms(3)] by auto
    note sizes = bufio_rep_sizes [OF m(2)]
    let ?h = "put_block h1 b (front @ (out1 @ cs) @ drop n rest)"
    have blk: "hblk h1 b = Some ((front @ out1) @ take n rest @ drop n rest)" using f(3) by simp
    have ld: "load_list h1 src n = Some cs"
      using assms(3,5) m(3) load_list_same_block [of h1 src h n] by (simp add: bufio_frame_def)
    have "\<not> ranges_overlap (Ptr b (length front + length out1)) src n" using assms(4,5) b by (cases src) auto
    then have cp: "cpr_memcpy h1 (Ptr b (length front + length out1)) (buf_size r1 - length out1) src n = Some (True, ?h)"
      using cpr_memcpy_mid [OF ld blk] len assms(4) f(4) by simp
    have "sz_sub (buf_size r1) (buf_put r1) = buf_size r1 - length out1" "sz_add (buf_put r1) n = length (out1 @ cs)"
      using sizes(3-5) m(6) True sz(1) len(2) by (simp_all add: size_simps)
    then have go: "cpr_xputbuf sys (Some r) h io src n = Some (True, Some (r1\<lparr>buf_put := length (out1 @ cs)\<rparr>), ?h, io1)"
      using False assms(4) m(1) True cp f(2) sizes(3) by (simp add: cpr_xputbuf_def)
    have "buf_done h1 r1 (Some (r1\<lparr>buf_put := length (out1 @ cs)\<rparr>)) ?h q (out1 @ cs)"
      by (rule front_done [OF f(1), where rest = "drop n rest"]) (use f(4) len in auto)
    from buf_done_trans [OF m(3) this] go True m(4,5) show ?thesis
      by (intro exI [of _ True] exI [of _ "Some (r1\<lparr>buf_put := length (out1 @ cs)\<rparr>)"] exI [of _ ?h] exI [of _ io1]
          exI [of _ sent] exI [of _ "out1 @ cs"]) auto
  qed
qed

lemma cpr_sputbuf_rep:
  assumes "posix_io sys rx tx" and "bufio_rep h r q out" and "cstr h src s"
    and "ptr_block src \<noteq> ptr_block (buf_addr r)"
  shows "\<exists>ok b' h' io' sent out'. cpr_sputbuf sys (Some r) h io src = Some (ok, b', h', io') \<and>
    buf_done h r b' h' q out' \<and> moved rx tx io io' [] sent \<and>
    (writes_ok sys \<longrightarrow> out @ (if ok then s else []) = sent @ out')"
proof -
  note sizes = bufio_rep_sizes [OF assms(2)]
  have nn: "src \<noteq> Null" by (rule cstr_not_Null [OF assms(3)])
  have lim: "sz_add (buf_size r) 1 = buf_size r + 1" using sizes(5) by (simp add: size_simps)
  have len: "cpr_strlen h src (buf_size r + 1) = Some (min (buf_size r + 1) (length s))"
    using cpr_strlen_cstr [OF assms(3), of "buf_size r + 1"] by (simp add: clip_def min_def)
  show ?thesis
  proof (cases "length s \<le> buf_size r")
    case True
    then have go: "cpr_sputbuf sys (Some r) h io src = cpr_xputbuf sys (Some r) h io src (length s)"
      using nn lim len by (simp add: cpr_sputbuf_def)
    have "load_list h src (length s) = Some s" using load_list_cstr [OF assms(3), of "length s"] by simp
    from cpr_xputbuf_rep [OF assms(1,2) this nn assms(4), of io] show ?thesis unfolding go .
  next
    case False
    then have "cpr_sputbuf sys (Some r) h io src = Some (False, Some r, h, io)"
      using nn lim len by (simp add: cpr_sputbuf_def cpr_xputbuf_def)
    with assms(2) show ?thesis
      by (intro exI [of _ False] exI [of _ "Some r"] exI [of _ h] exI [of _ io] exI [of _ "[]"] exI [of _ out])
        (simp add: buf_done_def moved_def)
  qed
qed

lemma bufio_rep_same:
  assumes "bufio_rep h r q out" and "hblk h' (ptr_block (buf_addr r)) = hblk h (ptr_block (buf_addr r))"
  shows "bufio_rep h' r q out"
  using assms unfolding bufio_rep_def by (metis ptr.sel(1))

lemma cpr_cputbuf_rep:
  assumes "posix_io sys rx tx" and "bufio_rep h r q out" and "heap_ok h"
  shows "\<exists>ok b' h' io' sent out'. cpr_cputbuf sys (Some r) h io c = Some (ok, b', h', io') \<and>
    buf_done h r b' h' q out' \<and> moved rx tx io io' [] sent \<and>
    (writes_ok sys \<longrightarrow> out @ (if ok then [c] else []) = sent @ out')"
proof -
  define l where "l = hseq h"
  let ?h = "(put_block h l [c])\<lparr>hseq := Suc l\<rparr>"
  have l: "ptr_block (buf_addr r) \<noteq> l" "hblk h l = None"
    using assms(2,3) by (auto simp: heap_ok_def l_def elim!: bufio_repE)
  have rep: "bufio_rep ?h r q out" using assms(2) l by (intro bufio_rep_same [OF assms(2)]) simp
  have "load_list ?h (Ptr l 0) 1 = Some [c]" by (simp add: load_def)
  from cpr_xputbuf_rep [OF assms(1) rep this, of io] l obtain ok b' h' io' sent out' where x:
    "cpr_xputbuf sys (Some r) ?h io (Ptr l 0) 1 = Some (ok, b', h', io')" "buf_done ?h r b' h' q out'"
    "moved rx tx io io' [] sent" "writes_ok sys \<longrightarrow> out @ (if ok then [c] else []) = sent @ out'" by auto
  from x(2) obtain r' where r': "b' = Some r'" "bufio_rep h' r' q out'" "bufio_frame ?h r h' r'" by (auto simp: buf_done_def)
  have hl: "hblk h' l = Some [c]" using r'(3) l by (auto simp: bufio_frame_def)
  let ?h' = "h'\<lparr>hblk := (hblk h')(l := None)\<rparr>"
  have "c_free h' (Ptr l 0) = Some ?h'" using hl by (simp add: c_free_def)
  then have go: "cpr_cputbuf sys (Some r) h io c = Some (ok, b', ?h', io')" using x(1) by (simp add: cpr_cputbuf_def flip: l_def)
  have ba: "buf_addr r' = buf_addr r" using r'(3) by (simp add: bufio_frame_def)
  have "bufio_rep ?h' r' q out'" using l ba by (intro bufio_rep_same [OF r'(2)]) simp
  moreover have "bufio_frame h r ?h' r'" using r'(3) l by (auto simp: bufio_frame_def l_def)
  ultimately have "buf_done h r b' ?h' q out'" using r'(1) by (auto simp: buf_done_def)
  with go x(3,4) show ?thesis by blast
qed

lemma cpr_fmtbuf_rep:
  assumes "posix_io sys rx tx" and "bufio_rep h r q out"
  shows "\<exists>ok b' h' io' sent out'. cpr_fmtbuf sys (Some r) h io n fmt s failed = Some (ok, b', h', io') \<and>
    buf_done h r b' h' q out' \<and> moved rx tx io io' [] sent \<and>
    (writes_ok sys \<longrightarrow> out @ (if ok then s else []) = sent @ out')"
proof (cases "fmt = Null \<or> n = 0 \<or> n > buf_size r")
  case True
  with assms(2) show ?thesis
    by (intro exI [of _ False] exI [of _ "Some r"] exI [of _ h] exI [of _ io] exI [of _ "[]"] exI [of _ out])
      (auto simp: cpr_fmtbuf_def buf_done_def moved_def)
next
  case False
  then obtain ok r1 h1 io1 sent out1 where m: "make_room sys r h io n = Some (ok, Some r1, h1, io1)"
    "bufio_rep h1 r1 q out1" "bufio_frame h r h1 r1" "moved rx tx io io1 [] sent" "writes_ok sys \<longrightarrow> out = sent @ out1"
    "ok \<longrightarrow> length out1 + n \<le> buf_size r"
    using make_room_rep [OF assms(1,2), of n io] by auto
  show ?thesis
  proof (cases ok)
    case nok: False
    with m False show ?thesis
      by (intro exI [of _ False] exI [of _ "Some r1"] exI [of _ h1] exI [of _ io1] exI [of _ sent] exI [of _ out1])
        (simp add: cpr_fmtbuf_def buf_done_def)
  next
    case True
    have sz: "buf_size r1 = buf_size r" using m(3) by (auto simp: bufio_frame_def)
    obtain b front rest where f: "front_at r1 q b front" "buf_out r1 = Ptr b (length front)"
      "hblk h1 b = Some (front @ out1 @ rest)" "length out1 + length rest = buf_size r1"
      using m(2) by (rule buf_out_rep)
    note sizes = bufio_rep_sizes [OF m(2)]
    define e where "e = take (n - 1) s @ [0]"
    have e: "length e \<le> n" "length e \<le> length rest" using False m(6) True f(4) sz by (auto simp: e_def)
    let ?h = "put_block h1 b (front @ out1 @ e @ drop (length e) rest)"
    have "hblk h1 b = Some ((front @ out1) @ take (length e) rest @ drop (length e) rest)" using f(3) by simp
    from store_list_mid [OF this, of "length front + length out1" e] e(2)
    have st: "store_list h1 (Ptr b (length front + length out1)) e = Some ?h" by simp
    define i :: int where "i = (if failed \<or> length s \<ge> 2 ^ 31 then - 1 else int (length s))"
    have pr: "c_vsnprintf h1 (padd (buf_out r1) (buf_put r1)) n s failed = Some (i, ?h)"
      using False st f(2) sizes(3) by (simp add: c_vsnprintf_def e_def i_def)
    show ?thesis
    proof (cases "i < 0 \<or> nat i \<ge> n")
      case bad: True
      have go: "cpr_fmtbuf sys (Some r) h io n fmt s failed = Some (False, Some r1, ?h, io1)"
        using False m(1) True pr bad by (simp add: cpr_fmtbuf_def)
      have "buf_done h1 r1 (Some (r1\<lparr>buf_put := length out1\<rparr>)) ?h q out1"
        by (rule front_done [OF f(1), where rest = "e @ drop (length e) rest"]) (use f(4) e in auto)
      then have "buf_done h1 r1 (Some r1) ?h q out1" using sizes(3) by simp
      from buf_done_trans [OF m(3) this] go m(4,5) show ?thesis
        by (intro exI [of _ False] exI [of _ "Some r1"] exI [of _ ?h] exI [of _ io1] exI [of _ sent] exI [of _ out1]) simp
    next
      case good: False
      then have i: "i = int (length s)" "length s < n" by (auto simp: i_def split: if_splits)
      then have es: "e = s @ [0]" by (simp add: e_def)
      have "sz_add (buf_put r1) (length s) = length (out1 @ s)"
        using sizes(3,5) e(2) f(4) es by (simp add: size_simps)
      with i have go: "cpr_fmtbuf sys (Some r) h io n fmt s failed = Some (True, Some (r1\<lparr>buf_put := length (out1 @ s)\<rparr>), ?h, io1)"
        using False m(1) True pr good by (simp add: cpr_fmtbuf_def)
      have "buf_done h1 r1 (Some (r1\<lparr>buf_put := length (out1 @ s)\<rparr>)) ?h q (out1 @ s)"
        by (rule front_done [OF f(1), where rest = "0 # drop (length e) rest"]) (use f(4) e es in auto)
      from buf_done_trans [OF m(3) this] go m(4,5) show ?thesis
        by (intro exI [of _ True] exI [of _ "Some (r1\<lparr>buf_put := length (out1 @ s)\<rparr>)"] exI [of _ ?h] exI [of _ io1]
            exI [of _ sent] exI [of _ "out1 @ s"]) auto
    qed
  qed
qed

subsection \<open>Sequences of calls\<close>

text \<open>
  A client of the buffer: the object, the store and the world, with two history variables, the
  bytes it has taken out of the input and the bytes the output has accepted from it.
\<close>

record 'w bstate =
  bs_buf :: "bufio option"
  bs_mem :: heap
  bs_io :: 'w
  bs_taken :: "byte list"
  bs_given :: "byte list"

datatype buf_op =
    Fill size_t | Get size_t | Get_Char | Reset size_t
  | Flush | Put ptr size_t | Put_Text ptr | Put_Char byte | Format size_t ptr "byte list" bool

definition after :: "'w bstate \<Rightarrow> bufio option \<Rightarrow> heap \<Rightarrow> 'w \<Rightarrow> byte list \<Rightarrow> byte list \<Rightarrow> 'w bstate" where
  "after s b h io taken given = \<lparr>bs_buf = b, bs_mem = h, bs_io = io, bs_taken = bs_taken s @ taken,
     bs_given = bs_given s @ given\<rparr>"

definition next_bytes :: "'w bstate \<Rightarrow> size_t \<Rightarrow> byte list option" where
  "next_bytes s n = (case bs_buf s of None \<Rightarrow> Some []
     | Some r \<Rightarrow> if buf_start r + n \<le> buf_end r then load_list (bs_mem s) (padd (buf_in r) (buf_start r)) n else Some [])"

primrec buf_step :: "'w sysio \<Rightarrow> buf_op \<Rightarrow> 'w bstate \<Rightarrow> 'w bstate option" where
  "buf_step sys (Fill n) s = do {
     (_, b, h, io) \<leftarrow> cpr_fillbuf sys (bs_buf s) (bs_mem s) (bs_io s) n;
     Some (after s b h io [] []) }"
| "buf_step sys (Get n) s = do {
     (p, b, h, io) \<leftarrow> cpr_xgetbuf sys (bs_buf s) (bs_mem s) (bs_io s) n;
     cs \<leftarrow> (if p = Null then Some [] else load_list h p n);
     Some (after s b h io cs []) }"
| "buf_step sys Get_Char s = do {
     (p, _) \<leftarrow> cpr_xgetbuf sys (bs_buf s) (bs_mem s) (bs_io s) 1;
     (c, b, h, io) \<leftarrow> cpr_cgetbuf sys (bs_buf s) (bs_mem s) (bs_io s);
     Some (after s b h io (if p = Null then [] else [c]) []) }"
| "buf_step sys (Reset n) s = do {
     cs \<leftarrow> next_bytes s n;
     (_, b, h, io) \<leftarrow> cpr_resetbuf sys (bs_buf s) (bs_mem s) (bs_io s) n;
     Some (after s b h io cs []) }"
| "buf_step sys Flush s = do {
     (_, b, h, io) \<leftarrow> cpr_flushbuf sys (bs_buf s) (bs_mem s) (bs_io s);
     Some (after s b h io [] []) }"
| "buf_step sys (Put p n) s = do {
     cs \<leftarrow> load_list (bs_mem s) p n;
     (ok, b, h, io) \<leftarrow> cpr_xputbuf sys (bs_buf s) (bs_mem s) (bs_io s) p n;
     Some (after s b h io [] (if ok then cs else [])) }"
| "buf_step sys (Put_Text p) s = do {
     n \<leftarrow> c_strlen (bs_mem s) p;
     cs \<leftarrow> load_list (bs_mem s) p n;
     (ok, b, h, io) \<leftarrow> cpr_sputbuf sys (bs_buf s) (bs_mem s) (bs_io s) p;
     Some (after s b h io [] (if ok then cs else [])) }"
| "buf_step sys (Put_Char c) s = do {
     (ok, b, h, io) \<leftarrow> cpr_cputbuf sys (bs_buf s) (bs_mem s) (bs_io s) c;
     Some (after s b h io [] (if ok then [c] else [])) }"
| "buf_step sys (Format n fmt text failed) s = do {
     (ok, b, h, io) \<leftarrow> cpr_fmtbuf sys (bs_buf s) (bs_mem s) (bs_io s) n fmt text failed;
     Some (after s b h io [] (if ok then text else [])) }"

text \<open>Sources of data are objects other than the buffer.\<close>

primrec buf_arg :: "nat \<Rightarrow> heap \<Rightarrow> buf_op \<Rightarrow> bool" where
  "buf_arg a h (Fill n) \<longleftrightarrow> True"
| "buf_arg a h (Get n) \<longleftrightarrow> True"
| "buf_arg a h Get_Char \<longleftrightarrow> True"
| "buf_arg a h (Reset n) \<longleftrightarrow> True"
| "buf_arg a h Flush \<longleftrightarrow> True"
| "buf_arg a h (Put p n) \<longleftrightarrow> p \<noteq> Null \<and> ptr_block p \<noteq> a \<and> load_list h p n \<noteq> None"
| "buf_arg a h (Put_Text p) \<longleftrightarrow> ptr_block p \<noteq> a \<and> (\<exists>t. cstr h p t)"
| "buf_arg a h (Put_Char c) \<longleftrightarrow> True"
| "buf_arg a h (Format n fmt text failed) \<longleftrightarrow> True"

lemma buf_arg_frame:
  assumes "buf_arg a h x" and "\<And>b. b \<noteq> a \<Longrightarrow> hblk h' b = hblk h b"
  shows "buf_arg a h' x"
  using assms by (cases x) (auto simp: load_list_same_block [of h' _ h] intro: cstr_same_block)

text \<open>
  What was received is what was taken followed by what is buffered; what was accepted is what was
  sent followed by what is buffered.
\<close>

definition buf_inv :: "'w sysio \<Rightarrow> ('w \<Rightarrow> byte list) \<Rightarrow> ('w \<Rightarrow> byte list) \<Rightarrow> byte list \<Rightarrow> byte list \<Rightarrow> nat \<Rightarrow>
    'w bstate \<Rightarrow> bool" where
  "buf_inv sys rx tx rx0 tx0 a s \<longleftrightarrow> posix_io sys rx tx \<and> writes_ok sys \<and> heap_ok (bs_mem s) \<and>
     (\<exists>r q out. bs_buf s = Some r \<and> ptr_block (buf_addr r) = a \<and> bufio_rep (bs_mem s) r q out \<and>
        rx (bs_io s) = rx0 @ bs_taken s @ q \<and> tx0 @ bs_given s = tx (bs_io s) @ out)"

lemma buf_done_heap_ok:
  assumes "buf_done h r b' h' q out" and "bufio_rep h r q0 out0" and "heap_ok h"
  shows "heap_ok h'"
proof -
  from assms(2) obtain a bs where a: "buf_addr r = Ptr a 0" "hblk h a = Some bs" by (rule bufio_repE)
  then have "a < hseq h" using assms(3) by (auto intro: heap_ok_live)
  with assms(1,3) a(1) show ?thesis by (fastforce simp: buf_done_def bufio_frame_def heap_ok_def)
qed

text \<open>One call: taking \<open>cs\<close> off the input that is there after a read, or adding \<open>ds\<close> to the output.\<close>

lemma buf_inv_after:
  assumes "buf_inv sys rx tx rx0 tx0 a s" and "bs_buf s = Some r" and "bufio_rep (bs_mem s) r q out"
    and "buf_done (bs_mem s) r b' h' q' out'" and "moved rx tx (bs_io s) io' new sent"
    and "q @ new = cs @ q'" and "out @ ds = sent @ out'"
    and "rx (bs_io s) = rx0 @ bs_taken s @ q" and "tx0 @ bs_given s = tx (bs_io s) @ out"
  shows "buf_inv sys rx tx rx0 tx0 a (after s b' h' io' cs ds) \<and> (\<forall>b. b \<noteq> a \<longrightarrow> hblk h' b = hblk (bs_mem s) b)"
proof -
  obtain r' where r': "b' = Some r'" "bufio_rep h' r' q' out'" "bufio_frame (bs_mem s) r h' r'"
    using assms(4) by (auto simp: buf_done_def)
  have a: "ptr_block (buf_addr r) = a" using assms(1,2) by (auto simp: buf_inv_def)
  have "heap_ok h'" using buf_done_heap_ok [OF assms(4,3)] assms(1) by (simp add: buf_inv_def)
  moreover have "rx io' = rx0 @ (bs_taken s @ cs) @ q'" using assms(5,6,8) by (simp add: moved_def)
  moreover have "tx0 @ bs_given s @ ds = tx io' @ out'"
    using assms(5,7,9) by (simp add: moved_def) (metis append.assoc)
  ultimately show ?thesis using assms(1) r' a by (auto simp: buf_inv_def after_def bufio_frame_def)
qed

lemma buf_invE:
  assumes "buf_inv sys rx tx rx0 tx0 a s"
  obtains r q out where "posix_io sys rx tx" and "writes_ok sys" and "heap_ok (bs_mem s)" and "bs_buf s = Some r"
    and "ptr_block (buf_addr r) = a" and "bufio_rep (bs_mem s) r q out"
    and "rx (bs_io s) = rx0 @ bs_taken s @ q" and "tx0 @ bs_given s = tx (bs_io s) @ out"
  using assms by (auto simp: buf_inv_def)

definition keeps :: "'w sysio \<Rightarrow> ('w \<Rightarrow> byte list) \<Rightarrow> ('w \<Rightarrow> byte list) \<Rightarrow> byte list \<Rightarrow> byte list \<Rightarrow> nat \<Rightarrow>
    'w bstate \<Rightarrow> 'w bstate option \<Rightarrow> bool" where
  "keeps sys rx tx rx0 tx0 a s res \<longleftrightarrow> (\<exists>s'. res = Some s' \<and> buf_inv sys rx tx rx0 tx0 a s' \<and>
     (\<forall>b. b \<noteq> a \<longrightarrow> hblk (bs_mem s') b = hblk (bs_mem s) b))"

lemma keeps_after:
  assumes "buf_inv sys rx tx rx0 tx0 a s" and "bs_buf s = Some r" and "bufio_rep (bs_mem s) r q out"
    and "buf_done (bs_mem s) r b' h' q' out'" and "moved rx tx (bs_io s) io' new sent"
    and "q @ new = cs @ q'" and "out @ ds = sent @ out'"
    and "rx (bs_io s) = rx0 @ bs_taken s @ q" and "tx0 @ bs_given s = tx (bs_io s) @ out"
  shows "keeps sys rx tx rx0 tx0 a s (Some (after s b' h' io' cs ds))"
  using buf_inv_after [OF assms] by (simp add: keeps_def after_def)

lemma input_keeps:
  assumes "buf_inv sys rx tx rx0 tx0 a s"
  shows "keeps sys rx tx rx0 tx0 a s (buf_step sys (Fill n) s)"
    and "keeps sys rx tx rx0 tx0 a s (buf_step sys (Get n) s)"
    and "keeps sys rx tx rx0 tx0 a s (buf_step sys Get_Char s)"
    and "keeps sys rx tx rx0 tx0 a s (buf_step sys (Reset n) s)"
proof -
  obtain r q out where s: "posix_io sys rx tx" "bs_buf s = Some r" "bufio_rep (bs_mem s) r q out"
    "rx (bs_io s) = rx0 @ bs_taken s @ q" "tx0 @ bs_given s = tx (bs_io s) @ out"
    using assms by (rule buf_invE)
  note after = keeps_after [OF assms s(2,3) _ _ _ _ s(4,5)]
  show "keeps sys rx tx rx0 tx0 a s (buf_step sys (Fill n) s)"
  proof -
    obtain ok b' h' io' new where "cpr_fillbuf sys (Some r) (bs_mem s) (bs_io s) n = Some (ok, b', h', io')"
      "buf_done (bs_mem s) r b' h' (q @ new) out" "moved rx tx (bs_io s) io' new []"
      using cpr_fillbuf_rep [OF s(1,3)] by blast
    then show ?thesis using s(2) by (simp add: after)
  qed
  show "keeps sys rx tx rx0 tx0 a s (buf_step sys (Get n) s)"
  proof -
    obtain p b' h' io' new where x: "cpr_xgetbuf sys (Some r) (bs_mem s) (bs_io s) n = Some (p, b', h', io')"
      "moved rx tx (bs_io s) io' new []" "if p = Null then buf_done (bs_mem s) r b' h' (q @ new) out
       else load_list h' p n = Some (take n (q @ new)) \<and> n \<le> length (q @ new) \<and> buf_done (bs_mem s) r b' h' (drop n (q @ new)) out"
      using cpr_xgetbuf_rep [OF s(1,3)] by blast
    show ?thesis
    proof (cases "p = Null")
      case True
      with x s(2) show ?thesis by (simp add: after)
    next
      case False
      with x(3) have d: "load_list h' p n = Some (take n (q @ new))" "buf_done (bs_mem s) r b' h' (drop n (q @ new)) out" by auto
      have "keeps sys rx tx rx0 tx0 a s (Some (after s b' h' io' (take n (q @ new)) []))"
        by (rule after [OF d(2) x(2)]) (simp_all only: append_take_drop_id append_Nil append_Nil2)
      with x(1) False d(1) s(2) show ?thesis by (simp del: take_append)
    qed
  qed
  show "keeps sys rx tx rx0 tx0 a s (buf_step sys Get_Char s)"
  proof -
    obtain p c b' h' io' new where x: "cpr_xgetbuf sys (Some r) (bs_mem s) (bs_io s) 1 = Some (p, b', h', io')"
      "cpr_cgetbuf sys (Some r) (bs_mem s) (bs_io s) = Some (c, b', h', io')" "moved rx tx (bs_io s) io' new []"
      "if p = Null then c = 0 \<and> buf_done (bs_mem s) r b' h' (q @ new) out
       else \<exists>q'. q @ new = c # q' \<and> buf_done (bs_mem s) r b' h' q' out"
      using cpr_cgetbuf_rep [OF s(1,3)] by blast
    show ?thesis
    proof (cases "p = Null")
      case True
      with x s(2) show ?thesis by (auto intro!: after)
    next
      case False
      with x(4) obtain q' where "q @ new = c # q'" "buf_done (bs_mem s) r b' h' q' out" by auto
      from after [OF this(2) x(3), of "[c]" "[]"] this(1) x(1,2) False s(2) show ?thesis by simp
    qed
  qed
  show "keeps sys rx tx rx0 tx0 a s (buf_step sys (Reset n) s)"
  proof -
    obtain ok b' h' io' new where x: "cpr_resetbuf sys (Some r) (bs_mem s) (bs_io s) n = Some (ok, b', h', io')"
      "moved rx tx (bs_io s) io' new []" "buf_done (bs_mem s) r b' h' ((if n \<le> length q then drop n q else q) @ new) out"
      using cpr_resetbuf_rep [OF s(1,3)] by blast
    have nb: "next_bytes s n = Some (if n \<le> length q then take n q else [])"
      using take_front(2) [OF s(3), of n] bufio_rep_sizes(1) [OF s(3)] s(2) by (simp add: next_bytes_def)
    have "keeps sys rx tx rx0 tx0 a s (Some (after s b' h' io' (if n \<le> length q then take n q else []) []))"
      by (rule after [OF x(3,2)]) simp_all
    with x(1) nb s(2) show ?thesis by simp
  qed
qed

lemma output_keeps:
  assumes "buf_inv sys rx tx rx0 tx0 a s"
  shows "keeps sys rx tx rx0 tx0 a s (buf_step sys Flush s)"
    and "buf_arg a (bs_mem s) (Put p n) \<Longrightarrow> keeps sys rx tx rx0 tx0 a s (buf_step sys (Put p n) s)"
    and "buf_arg a (bs_mem s) (Put_Text p) \<Longrightarrow> keeps sys rx tx rx0 tx0 a s (buf_step sys (Put_Text p) s)"
    and "keeps sys rx tx rx0 tx0 a s (buf_step sys (Put_Char c) s)"
    and "keeps sys rx tx rx0 tx0 a s (buf_step sys (Format n p t failed) s)"
proof -
  obtain r q out where s: "posix_io sys rx tx" "bs_buf s = Some r" "bufio_rep (bs_mem s) r q out"
    "rx (bs_io s) = rx0 @ bs_taken s @ q" "tx0 @ bs_given s = tx (bs_io s) @ out" "writes_ok sys"
    "heap_ok (bs_mem s)" "ptr_block (buf_addr r) = a"
    using assms by (rule buf_invE)
  note after = keeps_after [OF assms s(2,3) _ _ _ _ s(4,5), where cs = "[]" and new = "[]"]
  show "keeps sys rx tx rx0 tx0 a s (buf_step sys Flush s)"
    using cpr_flushbuf_rep [OF s(1,3), of "bs_io s"] s(2,6) by (auto intro!: after)
  show "keeps sys rx tx rx0 tx0 a s (buf_step sys (Put_Char c) s)"
    using cpr_cputbuf_rep [OF s(1,3,7), of "bs_io s" c] s(2,6) by (auto intro!: after)
  show "keeps sys rx tx rx0 tx0 a s (buf_step sys (Format n p t failed) s)"
    using cpr_fmtbuf_rep [OF s(1,3), of "bs_io s" n p t failed] s(2,6) by (auto intro!: after)
  show "keeps sys rx tx rx0 tx0 a s (buf_step sys (Put p n) s)" if "buf_arg a (bs_mem s) (Put p n)"
  proof -
    from that obtain cs where cs: "load_list (bs_mem s) p n = Some cs" "p \<noteq> Null" "ptr_block p \<noteq> ptr_block (buf_addr r)"
      using s(8) by auto
    from cpr_xputbuf_rep [OF s(1,3) cs, of "bs_io s"] show ?thesis using s(2,6) cs(1) by (auto intro!: after)
  qed
  show "keeps sys rx tx rx0 tx0 a s (buf_step sys (Put_Text p) s)" if "buf_arg a (bs_mem s) (Put_Text p)"
  proof -
    from that obtain t where t: "cstr (bs_mem s) p t" "ptr_block p \<noteq> ptr_block (buf_addr r)" using s(8) by auto
    have "c_strlen (bs_mem s) p = Some (length t)" "load_list (bs_mem s) p (length t) = Some t"
      using c_strlen_cstr [OF t(1)] load_list_cstr [OF t(1), of "length t"] by auto
    with cpr_sputbuf_rep [OF s(1,3) t, of "bs_io s"] show ?thesis using s(2,6) by (auto intro!: after)
  qed
qed

lemma buf_step_keeps:
  assumes "buf_inv sys rx tx rx0 tx0 a s" and "buf_arg a (bs_mem s) x"
  shows "keeps sys rx tx rx0 tx0 a s (buf_step sys x s)"
  using assms(2) input_keeps [OF assms(1)] output_keeps [OF assms(1)] by (cases x) (simp_all only:)

interpretation bio: safe_object "buf_step sys" "buf_inv sys rx tx rx0 tx0 a" "\<lambda>x s. buf_arg a (bs_mem s) x"
  for sys :: "'w sysio" and rx tx rx0 tx0 a
proof
  fix s x y s'
  assume inv: "buf_inv sys rx tx rx0 tx0 a s" and x: "buf_arg a (bs_mem s) x"
  from buf_step_keeps [OF this] show "\<exists>s'. buf_step sys x s = Some s' \<and> buf_inv sys rx tx rx0 tx0 a s'"
    by (auto simp: keeps_def)
  assume "buf_arg a (bs_mem s) y" and "buf_step sys x s = Some s'"
  with buf_step_keeps [OF inv x] show "buf_arg a (bs_mem s') y"
    by (auto simp: keeps_def intro: buf_arg_frame)
qed

text \<open>
  C2. Both directions are byte streams: in any sequence of fill, get, reset, flush, put and
  format calls, in any order and with any answers of the system, short reads and writes, end of
  file and read errors included, every call stays inside the object and its indices stay in
  range, the bytes received are exactly the bytes taken so far followed by those still
  buffered, and the bytes accepted are exactly the bytes sent followed by those still
  buffered. Nothing is lost, doubled or reordered as long as no write fails. The object is one
  whose buffers are empty, its put count included, which \<^verbatim>\<open>cpr_makebuf\<close> does not set to zero
  (\<open>cpr_makebuf_put\<close>); \<^verbatim>\<open>cpr_lgetbuf\<close> is not among the calls and has theorems of its own.
\<close>

theorem bufio_streams:
  assumes "posix_io sys rx tx" and "writes_ok sys" and "heap_ok h" and "bufio_rep h r [] []"
    and "\<forall>x \<in> set ops. buf_arg (ptr_block (buf_addr r)) h x"
  shows "\<exists>s' r' q out. run_ops (buf_step sys) ops \<lparr>bs_buf = Some r, bs_mem = h, bs_io = io, bs_taken = [], bs_given = []\<rparr> = Some s' \<and>
    bs_buf s' = Some r' \<and> bufio_rep (bs_mem s') r' q out \<and>
    rx (bs_io s') = rx io @ bs_taken s' @ q \<and> tx io @ bs_given s' = tx (bs_io s') @ out"
proof -
  let ?s = "\<lparr>bs_buf = Some r, bs_mem = h, bs_io = io, bs_taken = [], bs_given = []\<rparr>"
  have "buf_inv sys rx tx (rx io) (tx io) (ptr_block (buf_addr r)) ?s" using assms(1-4) by (simp add: buf_inv_def)
  from bio.run_safe [OF this] assms(5) obtain s' where "run_ops (buf_step sys) ops ?s = Some s'"
    "buf_inv sys rx tx (rx io) (tx io) (ptr_block (buf_addr r)) s'" by auto
  then show ?thesis by (auto elim!: buf_invE)
qed

text \<open>A descriptor with a fixed input that takes every write whole, and an empty buffer of four bytes for it.\<close>

record script =
  incoming :: "byte list"
  received :: "byte list"
  sent_out :: "byte list"

definition script_io :: "script sysio" where
  "script_io = \<lparr>sys_read = \<lambda>fd n w. (Some (take n (incoming w)),
       w\<lparr>incoming := drop n (incoming w), received := received w @ take n (incoming w)\<rparr>),
     sys_write = \<lambda>fd cs w. (Some (length cs), w\<lparr>sent_out := sent_out w @ cs\<rparr>)\<rparr>"

definition script_of :: "byte list \<Rightarrow> script" where
  "script_of cs = \<lparr>incoming = cs, received = [], sent_out = []\<rparr>"

definition four_buf :: bufio where
  "four_buf = \<lparr>buf_addr = Ptr 0 0, buf_fd = 3, buf_tty = None, buf_size = 4, buf_start = 0, buf_end = 0, buf_put = 0\<rparr>"

definition four_heap :: heap where "four_heap = heap_of [replicate 112 0, str_bytes ''abc'' @ [0]]"

lemma script_io_posix: "posix_io script_io received sent_out" "writes_ok script_io"
  by (auto simp: posix_io_def writes_ok_def script_io_def got_def gone_def)

lemma four_buf_rep: "bufio_rep four_heap four_buf [] []"
  by (rule bufio_repI [of _ 0 _ "replicate 96 0" "[]" _ "replicate 12 0" _ "replicate 4 0"])
    (simp_all add: four_buf_def four_heap_def flip: replicate_add)

theorem bufio_streams_witness:
  "\<exists>s' r' q out. run_ops (buf_step script_io) [Get 2, Put (Ptr 1 0) 3, Get_Char, Put_Text (Ptr 1 0)]
      \<lparr>bs_buf = Some four_buf, bs_mem = four_heap, bs_io = script_of (str_bytes ''hello world''), bs_taken = [], bs_given = []\<rparr> = Some s' \<and>
    bs_buf s' = Some r' \<and> bufio_rep (bs_mem s') r' q out \<and>
    received (bs_io s') = bs_taken s' @ q \<and> bs_given s' = sent_out (bs_io s') @ out"
proof -
  have "cstr four_heap (Ptr 1 0) (str_bytes ''abc'')"
    by (simp add: four_heap_def str_bytes_def char_byte_def load_Ptr)
  moreover from load_list_cstr [OF this, of 3] have "load_list four_heap (Ptr 1 0) 3 \<noteq> None" by (simp add: str_bytes_def)
  ultimately have args: "\<forall>x \<in> set [Get 2, Put (Ptr 1 0) 3, Get_Char, Put_Text (Ptr 1 0)].
      buf_arg (ptr_block (buf_addr four_buf)) four_heap x" by (auto simp: four_buf_def)
  have "heap_ok four_heap" by (simp add: four_heap_def)
  from bufio_streams [OF script_io_posix this four_buf_rep args, of "script_of (str_bytes ''hello world'')"]
  show ?thesis by (simp add: script_of_def)
qed

subsection \<open>Lines\<close>

text \<open>Whether the delimiter occurs at an offset of the buffered bytes.\<close>

definition occurs :: "byte list \<Rightarrow> byte list \<Rightarrow> nat \<Rightarrow> bool" where
  "occurs d q i \<longleftrightarrow> take (length d) (drop i q) = d"

lemma memcmp_rep:
  assumes "bufio_rep h r q out" and "load_list h delim (length d) = Some d" and "i + length d \<le> length q"
  shows "c_memcmp_eq h (padd (buf_in r) (buf_start r + i)) delim (length d) = Some (occurs d q i)"
proof -
  have "bufio_rep h (r\<lparr>buf_start := buf_start r + i\<rparr>) (drop i q) out"
    by (rule take_front(1) [OF assms(1)]) (use assms(3) in simp)
  from take_front(2) [OF this, of "length d"] assms(3)
  have "load_list h (padd (buf_in r) (buf_start r + i)) (length d) = Some (take (length d) (drop i q))" by simp
  with assms(2) show ?thesis by (simp add: c_memcmp_eq_def occurs_def)
qed

lemma lget_scan_found:
  assumes "bufio_rep h r q out" and "load_list h delim (length d) = Some d" and "occurs d q k" and "k + length d \<le> length q"
  shows "i \<le> k \<Longrightarrow> (\<And>j. i \<le> j \<Longrightarrow> j < k \<Longrightarrow> \<not> occurs d q j) \<Longrightarrow>
    lget_scan h r delim (length d) (buf_start r + i) = Some (True, buf_start r + k)"
proof (induction "k - i" arbitrary: i)
  case 0
  then have "i = k" by simp
  with memcmp_rep [OF assms(1,2,4)] assms(3,4) bufio_rep_sizes(1) [OF assms(1)] show ?case
    by (subst lget_scan.simps) simp
next
  case (Suc m)
  have "i + length d \<le> length q" using Suc.hyps(2) assms(4) by simp
  then have c: "c_memcmp_eq h (padd (buf_in r) (buf_start r + i)) delim (length d) = Some False"
    "buf_start r + i + length d \<le> buf_end r"
    using memcmp_rep [OF assms(1,2), of i] Suc.prems(2) [of i] Suc.hyps(2) bufio_rep_sizes(1) [OF assms(1)] by auto
  have "lget_scan h r delim (length d) (buf_start r + Suc i) = Some (True, buf_start r + k)"
    by (rule Suc.hyps(1)) (use Suc.hyps(2) Suc.prems in auto)
  with c show ?case by (subst lget_scan.simps) simp
qed

lemma lget_scan_none:
  assumes "bufio_rep h r q out" and "load_list h delim (length d) = Some d"
  shows "(\<And>j. i \<le> j \<Longrightarrow> j + length d \<le> length q \<Longrightarrow> \<not> occurs d q j) \<Longrightarrow>
    \<exists>k. lget_scan h r delim (length d) (buf_start r + i) = Some (False, buf_start r + k) \<and> i \<le> k \<and> length q < k + length d"
proof (induction "length q - i" arbitrary: i rule: less_induct)
  case less
  show ?case
  proof (cases "i + length d \<le> length q")
    case True
    then have c: "c_memcmp_eq h (padd (buf_in r) (buf_start r + i)) delim (length d) = Some False"
      "buf_start r + i + length d \<le> buf_end r"
      using memcmp_rep [OF assms, of i] less.prems [of i] bufio_rep_sizes(1) [OF assms(1)] by auto
    show ?thesis
    proof (cases "i < length q")
      case lt: True
      have "length q - Suc i < length q - i" using lt by simp
      from less.hyps [OF this] less.prems obtain k where
        "lget_scan h r delim (length d) (buf_start r + Suc i) = Some (False, buf_start r + k)" "Suc i \<le> k" "length q < k + length d"
        by (metis Suc_leD)
      with c show ?thesis by (subst lget_scan.simps) (auto intro!: exI [of _ k])
    next
      case False
      with True have "length d = 0" by linarith
      then have "d = []" by simp
      then have "occurs d q i" by (simp add: occurs_def)
      with less.prems [of i] True show ?thesis by simp
    qed
  next
    case False
    then have "\<not> buf_start r + i + length d \<le> buf_end r" using bufio_rep_sizes(1) [OF assms(1)] by simp
    with False show ?thesis by (subst lget_scan.simps) (auto intro!: exI [of _ i])
  qed
qed

text \<open>
  C31. Reading a line that is buffered: when the unread bytes hold the delimiter,
  \<^verbatim>\<open>cpr_lgetbuf\<close> returns after one round without touching the descriptor, with a pointer to
  the bytes in front of the first delimiter, their number in \<^verbatim>\<open>outlen\<close> or a terminator behind
  them, and the bytes behind the delimiter stay unread.
\<close>

theorem cpr_lgetbuf_line:
  assumes "bufio_rep h r (line @ d @ rest) out" and "cstr h delim d" and "d \<noteq> []" and "length d \<le> 16"
    and "ptr_block delim \<noteq> ptr_block (buf_addr r)" and "\<And>i. i < length line \<Longrightarrow> \<not> occurs d (line @ d @ rest) i"
  shows "\<exists>p r' h'. cpr_lgetbuf (Suc n) sys (Some r) h io outlen nl delim =
      Some (Done (p, if outlen then Some (length line) else None, Some r', h', io)) \<and>
    load_list h' p (length line) = Some line \<and> bufio_rep h' r' rest out \<and> bufio_frame h r h' r' \<and>
    (outlen \<or> load h' (padd p (length line)) = Some 0)"
proof -
  let ?q = "line @ d @ rest"
  note sizes = bufio_rep_sizes [OF assms(1)]
  have nn: "delim \<noteq> Null" by (rule cstr_not_Null [OF assms(2)])
  have dl: "cpr_strlen h delim 16 = Some (length d)" using cpr_strlen_cstr [OF assms(2), of 16] assms(4) by simp
  have ld: "load_list h delim (length d) = Some d" using load_list_cstr [OF assms(2), of "length d"] by simp
  have sc: "lget_scan h r delim (length d) (buf_start r) = Some (True, buf_start r + length line)"
    using lget_scan_found [OF assms(1) ld, of "length line" 0] assms(6) by (simp add: occurs_def)
  obtain b hdr pre post rest' where r: "buf_addr r = Ptr b 0" "hblk h b = Some (hdr @ pre @ ?q @ post @ out @ rest')"
    "length hdr = 96" "length pre = buf_start r" "buf_end r = buf_start r + length ?q"
    "buf_end r \<le> buf_size r" "buf_end r + length post = buf_size r + 8" "length out = buf_put r"
    "length out + length rest' = buf_size r" "104 + 2 * buf_size r < 2 ^ 64"
    using assms(1) by (rule bufio_repE)
  obtain c d' where d: "d = c # d'" using assms(3) by (cases d) auto
  let ?p = "Ptr b (96 + buf_start r)" let ?r = "r\<lparr>buf_start := buf_start r + length line + length d\<rparr>"
  define e where "e = (if outlen then c else 0)"
  let ?h = "put_block h b (hdr @ (pre @ line @ e # d') @ rest @ post @ out @ rest')"
  have blk: "hblk h b = Some ((hdr @ pre @ line) @ c # d' @ rest @ post @ out @ rest')" using r(2) d by simp
  have same: "outlen \<Longrightarrow> ?h = h" using r(2) d by (simp add: e_def)
  have st: "store h (padd (buf_in r) (buf_start r + length line)) 0 = Some ?h" if "\<not> outlen"
    using that store_Ptr [OF blk, of "96 + (buf_start r + length line)" 0] r(1,3,4)
    by (simp add: buf_in_def e_def list_update_append split: if_splits)
  have "buf_start r + length line < buf_size r" using r(5,6) d by simp
  with st same have ln: "lget_line h r outlen (length d) (buf_start r + length line) =
      Some (?p, if outlen then Some (length line) else None, ?r, ?h)"
    using r(1) by (auto simp: lget_line_def buf_in_def Let_def)
  then have "cpr_lgetbuf (Suc n) sys (Some r) h io outlen nl delim =
      Some (Done (?p, if outlen then Some (length line) else None, Some ?r, ?h, io))"
    using nn dl sc by (simp add: cpr_lgetbuf_def)
  moreover have "load_list ?h ?p (length line) = Some line"
    by (rule load_list_mid [of _ _ "hdr @ pre" _ "e # d' @ rest @ post @ out @ rest'"]) (use r(3,4) in auto)
  moreover have "bufio_rep ?h ?r rest out"
    by (rule bufio_repI [of _ b _ hdr "pre @ line @ e # d'" _ post _ rest']) (use r d in auto)
  moreover have "bufio_frame h r ?h ?r" using r(1) by (auto simp: bufio_frame_def)
  moreover have "load ?h (padd ?p (length line)) = Some e"
    using load_Ptr [of ?h b "(hdr @ pre @ line) @ e # d' @ rest @ post @ out @ rest'" "96 + buf_start r + length line"] r(3,4)
    by (simp add: nth_append)
  ultimately show ?thesis by (intro exI [of _ ?p] exI [of _ ?r] exI [of _ ?h]) (auto simp: e_def)
qed

theorem cpr_lgetbuf_line_witness:
  "\<exists>p r' h'. cpr_lgetbuf 1 script_io (Some (four_buf\<lparr>buf_end := 3\<rparr>))
      (heap_of [replicate 96 0 @ [65, 10, 66] @ replicate 13 0, [10, 0]]) (script_of []) True Null (Ptr 1 0) =
      Some (Done (p, Some 1, Some r', h', script_of [])) \<and>
    load_list h' p 1 = Some [65] \<and> bufio_rep h' r' [66] []"
proof -
  let ?h = "heap_of [replicate 96 0 @ [65, 10, 66] @ replicate 13 0, [10, 0]]"
  have "bufio_rep ?h (four_buf\<lparr>buf_end := 3\<rparr>) ([65] @ [10] @ [66]) []"
    by (rule bufio_repI [of _ 0 _ "replicate 96 0" "[]" _ "replicate 9 0" _ "replicate 4 0"])
      (simp_all add: four_buf_def flip: replicate_add)
  moreover have "cstr ?h (Ptr 1 0) [10]" by (simp add: load_Ptr)
  moreover have "\<not> occurs [10] ([65] @ [10] @ [66]) i" if "i < length [65 :: byte]" for i using that by (simp add: occurs_def)
  ultimately show ?thesis
    using cpr_lgetbuf_line [of ?h "four_buf\<lparr>buf_end := 3\<rparr>" "[65]" "[10]" "[66]" "[]" "Ptr 1 0" 0 script_io "script_of []" True Null]
    by (simp add: four_buf_def) blast
qed

lemma lget_loop_full:
  assumes "bufio_rep h r q out" and "length q = buf_size r" and "load_list h delim (length d) = Some d"
    and "ptr_block delim \<noteq> ptr_block (buf_addr r)"
    and "\<And>j. i \<le> j \<Longrightarrow> j + length d \<le> length q \<Longrightarrow> \<not> occurs d q j"
  shows "lget_loop n sys r h io outlen delim (length d) i = Some Running"
  using assms
proof (induction n arbitrary: h i)
  case (Suc n)
  note sizes = bufio_rep_sizes [OF Suc.prems(1)]
  have s0: "buf_start r = 0" "buf_end r = buf_size r" using sizes(1,2) Suc.prems(2) by auto
  obtain k where k: "lget_scan h r delim (length d) i = Some (False, k)" "i \<le> k"
    using lget_scan_none [OF Suc.prems(1,3), of i] Suc.prems(5) s0(1) by auto
  obtain h' where h': "store h (padd (buf_in r) (buf_end r)) 0 = Some h'" "bufio_rep h' r q out" "bufio_frame h r h' r"
    using store_input [OF Suc.prems(1), of "[]"] sizes(2) by auto
  have f: "cpr_fillbuf sys (Some r) h io 0 = Some (True, Some r, h', io)"
    using h'(1) sizes Suc.prems(2) by (simp add: cpr_fillbuf_def Let_def)
  have "load_list h' delim (length d) = Some d"
    using Suc.prems(3,4) h'(3) load_list_same_block [of h' delim h] by (simp add: bufio_frame_def)
  from Suc.IH [OF h'(2) Suc.prems(2) this Suc.prems(4), of k] Suc.prems(5) k(2)
  have "lget_loop n sys r h' io outlen delim (length d) k = Some Running" by auto
  with k(1) f show ?case by simp
qed simp

text \<open>
  C38. A line that does not fit hangs the reader: once the buffer is full and holds no delimiter,
  \<^verbatim>\<open>cpr_fillbuf\<close> reports success without reading anything, and the loop of \<^verbatim>\<open>cpr_lgetbuf\<close> is
  still running after any number of rounds.
\<close>

theorem cpr_lgetbuf_hangs:
  assumes "bufio_rep h r q out" and "length q = buf_size r" and "cstr h delim d" and "length d \<le> 16"
    and "ptr_block delim \<noteq> ptr_block (buf_addr r)" and "\<And>i. i + length d \<le> length q \<Longrightarrow> \<not> occurs d q i"
  shows "cpr_lgetbuf n sys (Some r) h io outlen nl delim = Some Running"
proof -
  have "cpr_strlen h delim 16 = Some (length d)" using cpr_strlen_cstr [OF assms(3), of 16] assms(4) by simp
  moreover have ld: "load_list h delim (length d) = Some d" using load_list_cstr [OF assms(3), of "length d"] by simp
  moreover have "buf_start r = 0" using bufio_rep_sizes(1,2) [OF assms(1)] assms(2) by simp
  ultimately show ?thesis
    using lget_loop_full [OF assms(1,2) ld assms(5), of 0 n sys io outlen] assms(6) cstr_not_Null [OF assms(3)]
    by (simp add: cpr_lgetbuf_def)
qed

theorem cpr_lgetbuf_hangs_witness:
  "\<forall>n. cpr_lgetbuf n script_io (Some (four_buf\<lparr>buf_end := 4\<rparr>))
     (heap_of [replicate 96 0 @ [65, 66, 67, 68] @ replicate 12 0, [10, 0]]) (script_of [10]) True Null (Ptr 1 0) = Some Running"
proof -
  let ?h = "heap_of [replicate 96 0 @ [65, 66, 67, 68] @ replicate 12 0, [10, 0]]"
  have rep: "bufio_rep ?h (four_buf\<lparr>buf_end := 4\<rparr>) [65, 66, 67, 68] []"
    by (rule bufio_repI [of _ 0 _ "replicate 96 0" "[]" _ "replicate 8 0" _ "replicate 4 0"])
      (simp_all add: four_buf_def flip: replicate_add)
  have str: "cstr ?h (Ptr 1 0) [10]" by (simp add: load_Ptr)
  have no: "\<not> occurs [10] [65, 66, 67, 68] i" if "i + length [10 :: byte] \<le> length [65 :: byte, 66, 67, 68]" for i
    using that by (auto simp: occurs_def drop_Cons split: nat.splits)
  show ?thesis by (intro allI cpr_lgetbuf_hangs [OF rep _ str _ _ no]) (simp_all add: four_buf_def)
qed

text \<open>
  The scan position is not adjusted when the refill moves the unread bytes to the front, so that
  the reader looks for the delimiter only behind its old position: when the refill fills the
  buffer and the delimiter lies in front of that, the reader hangs although a whole line is buffered.
\<close>

theorem cpr_lgetbuf_misses:
  assumes "bufio_rep h r q out" and "0 < buf_start r" and "q \<noteq> []" and "c \<notin> set q"
    and "cstr h delim [c]" and "ptr_block delim \<noteq> ptr_block (buf_addr r)" and "posix_io sys rx tx"
    and "sys_read sys (buf_fd r) (buf_size r - length q) io = (Some bs, io')" and "length q + length bs = buf_size r"
    and "c \<notin> set (drop (buf_start r) bs)"
  shows "cpr_lgetbuf n sys (Some r) h io outlen nl delim = Some Running"
proof (cases n)
  case 0
  then show ?thesis using cpr_strlen_cstr [OF assms(5), of 16] cstr_not_Null [OF assms(5)] by (simp add: cpr_lgetbuf_def)
next
  case (Suc m)
  note sizes = bufio_rep_sizes [OF assms(1)]
  have dl: "cpr_strlen h delim 16 = Some (Suc 0)" using cpr_strlen_cstr [OF assms(5), of 16] by simp
  have ld: "load_list h delim (length [c]) = Some [c]" using load_list_cstr [OF assms(5), of 1] by simp
  have occ: "occurs [c] xs j \<Longrightarrow> j < length xs \<and> xs ! j = c" for xs j
    by (cases "j < length xs") (auto simp: occurs_def Cons_nth_drop_Suc [symmetric])
  obtain k where k: "lget_scan h r delim (length [c]) (buf_start r) = Some (False, buf_start r + k)" "length q \<le> k"
    using lget_scan_none [OF assms(1) ld, of 0] occ [of q] assms(4) nth_mem by fastforce
  let ?r = "r\<lparr>buf_end := length q, buf_start := 0\<rparr>"
  from move_front [OF assms(1,3)] obtain h1 where h1:
    "c_memmove h (buf_in r) (padd (buf_in r) (buf_start r)) (length q) = Some h1" "bufio_rep h1 ?r q out" "bufio_frame h r h1 ?r"
    by blast
  have lt: "length q < buf_size r" "buf_start r < buf_end r" using sizes(1,2) assms(2,3) by auto
  have sh: "fill_shift r h (buf_size r - buf_start r) (buf_size r) = Some (?r, h1)"
    using h1(1) lt assms(2) sizes(6) by (simp add: fill_shift_def)
  have "sys_read sys (buf_fd ?r) (sz_sub (buf_size ?r) (buf_end ?r)) io = (Some bs, io')"
    using assms(8) bufio_rep_sizes(8) [OF h1(2)] by simp
  from fill_read_rep [OF assms(7) h1(2) this, of "buf_size r" True] obtain ok b' h2 where f:
    "fill_read sys ?r h1 io (buf_size r) True = Some (ok, b', h2, io')" "buf_done h1 ?r b' h2 (q @ bs) out"
    "ok = (case Some bs of None \<Rightarrow> True | Some [] \<Rightarrow> False | Some _ \<Rightarrow> buf_size r \<le> length (q @ got (Some bs)))"
    by (auto simp: got_def)
  have "bs \<noteq> []" using assms(9) lt(1) by auto
  then have ok using f(3) assms(9) by (cases bs) (auto simp: got_def)
  from f(2) obtain r2 where r2: "b' = Some r2" "bufio_rep h2 r2 (q @ bs) out" "bufio_frame h1 ?r h2 r2"
    by (auto simp: buf_done_def)
  have fr: "bufio_frame h r h2 r2" using bufio_frame_trans [OF h1(3) r2(3)] .
  have "cpr_fillbuf sys (Some r) h io 0 = Some (True, Some r2, h2, io')"
    using sh f(1) \<open>ok\<close> r2(1) sizes lt by (simp add: cpr_fillbuf_def Let_def)
  moreover have "lget_loop m sys r2 h2 io' outlen delim (length [c]) (buf_start r + k) = Some Running"
  proof (rule lget_loop_full [OF r2(2)])
    show "length (q @ bs) = buf_size r2" using assms(9) fr by (simp add: bufio_frame_def)
    show "load_list h2 delim (length [c]) = Some [c]"
    proof -
      have "hblk h2 (ptr_block delim) = hblk h (ptr_block delim)" using assms(6) fr by (simp add: bufio_frame_def)
      from load_list_same_block [OF this] ld show ?thesis by (simp only:)
    qed
    show "ptr_block delim \<noteq> ptr_block (buf_addr r2)" using assms(6) fr by (simp add: bufio_frame_def)
    show "\<not> occurs [c] (q @ bs) j" if "buf_start r + k \<le> j" for j
    proof
      assume "occurs [c] (q @ bs) j"
      then have "j < length (q @ bs)" "(q @ bs) ! j = c" using occ [of "q @ bs" j] by blast+
      then have "bs ! (j - length q) = c" "j - length q < length bs" "buf_start r \<le> j - length q"
        using that k(2) by (auto simp: nth_append)
      then obtain e where "bs ! e = c" "e < length bs" "buf_start r \<le> e" by blast
      then have "drop (buf_start r) bs ! (e - buf_start r) = c" "e - buf_start r < length (drop (buf_start r) bs)" by auto
      then have "c \<in> set (drop (buf_start r) bs)" by (metis nth_mem)
      with assms(10) show False by simp
    qed
  qed
  ultimately show ?thesis using Suc dl k(1) cstr_not_Null [OF assms(5)] by (simp add: cpr_lgetbuf_def)
qed

subsection \<open>Errors\<close>

text \<open>
  C39. A failed write loses the buffered output: the result of \<^verbatim>\<open>write\<close> is compared as an unsigned
  number, so \<^verbatim>\<open>-1\<close> counts as a complete write. \<^verbatim>\<open>cpr_flushbuf\<close> then empties the buffer and
  reports success although nothing was sent.
\<close>

theorem cpr_flushbuf_loses:
  assumes "bufio_rep h r q out" and "out \<noteq> []" and "posix_io sys rx tx"
    and "sys_write sys (buf_fd r) out io = (None, io')"
  shows "\<exists>r'. cpr_flushbuf sys (Some r) h io = Some (True, Some r', h, io') \<and> bufio_rep h r' q [] \<and> tx io' = tx io"
proof -
  obtain b pre rest where r: "front_at r q b pre" "buf_out r = Ptr b (length pre)" "hblk h b = Some (pre @ out @ rest)"
    "length out + length rest = buf_size r"
    using assms(1) by (rule buf_out_rep)
  have put: "buf_put r = length out" "length out < 2 ^ 64 - 1" using bufio_rep_sizes [OF assms(1)] by simp_all
  have ld: "load_list h (buf_out r) (buf_put r) = Some out" unfolding r(2) put(1) by (rule load_list_mid [OF r(3)]) simp_all
  have "cpr_flushbuf sys (Some r) h io = Some (True, Some (r\<lparr>buf_put := 0\<rparr>), h, io')"
    using assms(2,4) ld put by (simp add: cpr_flushbuf_def)
  moreover have "bufio_rep h (r\<lparr>buf_put := 0\<rparr>) q []"
    using front_done [OF r(1), of h "[]" "out @ rest" h] r(3,4) by (simp add: buf_done_def)
  ultimately show ?thesis using posix_write(2) [OF assms(3,4)] by (simp add: gone_def)
qed

theorem cpr_flushbuf_loses_witness:
  "\<exists>r'. cpr_flushbuf (script_io\<lparr>sys_write := \<lambda>fd cs w. (None, w)\<rparr>) (Some (four_buf\<lparr>buf_put := 2\<rparr>)) four_heap (script_of []) =
      Some (True, Some r', four_heap, script_of []) \<and> bufio_rep four_heap r' [] [] \<and> sent_out (script_of []) = sent_out (script_of [])"
proof -
  let ?sys = "script_io\<lparr>sys_write := \<lambda>fd cs w. (None, w)\<rparr>"
  have "bufio_rep four_heap (four_buf\<lparr>buf_put := 2\<rparr>) [] [0, 0]"
    by (rule bufio_repI [of _ 0 _ "replicate 96 0" "[]" _ "replicate 12 0" _ "replicate 2 0"])
      (simp_all add: four_buf_def four_heap_def flip: replicate_add replicate.simps)
  moreover have "posix_io ?sys received sent_out"
    by (auto simp: posix_io_def script_io_def got_def gone_def)
  ultimately show ?thesis by (intro cpr_flushbuf_loses [of _ _ _ "[0, 0]"]) simp_all
qed

text \<open>
  End of buffer looks like end of file: when exactly the last byte of the buffer has been
  taken, nothing is moved to the front, the next read is asked for no bytes, and its answer of
  none counts as end of file. Every further request is refused in the same state,
  whatever the descriptor still has to give.
\<close>

theorem cpr_xgetbuf_stuck:
  assumes "bufio_rep h r [] out" and "buf_end r = buf_size r" and "posix_io sys rx tx" and "0 < n" and "n \<le> buf_size r"
  shows "\<exists>h' io'. cpr_xgetbuf sys (Some r) h io n = Some (Null, Some r, h', io') \<and> bufio_rep h' r [] out \<and> rx io' = rx io"
proof -
  note sizes = bufio_rep_sizes [OF assms(1)]
  have e: "buf_start r = buf_size r" using sizes(1) assms(2) by simp
  obtain res io' where rd: "sys_read sys (buf_fd r) (sz_sub (buf_size r) (buf_end r)) io = (res, io')" by fastforce
  have none: "got res = []" using posix_read(1) [OF assms(3) rd] sizes(8) assms(2) by simp
  obtain h' where h': "store h (padd (buf_in r) (buf_end r)) 0 = Some h'" "bufio_rep h' r [] out"
    using store_input [OF assms(1), of "[]"] sizes(2) by auto
  have "fill_read sys r h io n False = Some (False, Some r, h', io')"
    using none rd h'(1) by (auto simp: fill_read_def got_def split: option.splits)
  then have "cpr_fillbuf sys (Some r) h io n = Some (False, Some r, h', io')"
    using assms(2,4,5) e sizes by (simp add: cpr_fillbuf_def fill_shift_def Let_def)
  with assms(5) h'(2) posix_read(2) [OF assms(3) rd] none show ?thesis by (simp add: cpr_xgetbuf_def)
qed

theorem cpr_xgetbuf_stuck_witness:
  "\<exists>h' io'. cpr_xgetbuf script_io (Some (four_buf\<lparr>buf_start := 4, buf_end := 4\<rparr>)) four_heap (script_of [65, 66]) 1 =
      Some (Null, Some (four_buf\<lparr>buf_start := 4, buf_end := 4\<rparr>), h', io') \<and>
    bufio_rep h' (four_buf\<lparr>buf_start := 4, buf_end := 4\<rparr>) [] [] \<and> received io' = received (script_of [65, 66])"
proof -
  have "bufio_rep four_heap (four_buf\<lparr>buf_start := 4, buf_end := 4\<rparr>) [] []"
    by (rule bufio_repI [of _ 0 _ "replicate 96 0" "replicate 4 0" _ "replicate 8 0" _ "replicate 4 0"])
      (simp_all add: four_buf_def four_heap_def flip: replicate_add)
  then show ?thesis by (rule cpr_xgetbuf_stuck [OF _ _ script_io_posix(1)]) (simp_all add: four_buf_def)
qed

lemma load_list_past_end: "hblk h b = Some bs \<Longrightarrow> k \<le> length bs \<Longrightarrow> length bs < k + n \<Longrightarrow> load_list h (Ptr b k) n = None"
proof (induction n arbitrary: k)
  case (Suc n)
  then show ?case by (cases "k < length bs") (auto simp: load_Ptr)
qed simp

text \<open>
  A new buffer has no output count: \<^verbatim>\<open>cpr_makebuf\<close> assigns every field but \<^verbatim>\<open>put\<close>, which keeps
  what the memory held. When that happens to be zero, the buffer is empty in both directions; when
  it is more than the size, flushing the new buffer, and so just releasing it, reads past the
  object.
\<close>

theorem cpr_makebuf_put:
  assumes "c_malloc h (104 + 2 * n) = (Ptr b 0, h1)" and "le_get64 h1 (Ptr b 88) = Some v"
    and "0 \<le> fd" and "0 < n" and "104 + 2 * n < 2 ^ 64"
  shows "\<exists>r. cpr_makebuf h None fd n = Some (Some r, None, h1) \<and> buf_put r = unat v \<and>
    (v = 0 \<longrightarrow> bufio_rep h1 r [] []) \<and>
    (n < unat v \<longrightarrow> cpr_flushbuf sys (Some r) h1 io = None \<and> cpr_freebuf sys (Some r) h1 io tty sock = None)"
proof -
  let ?r = "\<lparr>buf_addr = Ptr b 0, buf_fd = fd, buf_tty = None, buf_size = n, buf_start = 0, buf_end = 0, buf_put = unat v\<rparr>"
  have sz: "sz_add 104 (sz_mul n 2) = 104 + 2 * n" "sz_add 104 n = 104 + n" using assms(5) by (simp_all add: size_simps mult.commute)
  have mk: "cpr_makebuf h None fd n = Some (Some ?r, None, h1)"
    using assms(1-4) sz(1) by (simp add: cpr_makebuf_def bufio_sizeof_def)
  obtain bs where bs: "hblk h1 b = Some bs" "length bs = 104 + 2 * n"
    using assms(1) by (auto simp: c_malloc_def split: if_splits)
  have "bufio_rep h1 ?r [] []" if "v = 0"
  proof (rule bufio_repI [of _ b _ "take 96 bs" "[]" _ "take (n + 8) (drop 96 bs)" _ "drop (104 + n) bs"])
    have "take 96 bs @ take (n + 8) (drop 96 bs) @ drop (96 + (n + 8)) bs = bs" by (rule split_run [symmetric])
    then show "hblk h1 b = Some (take 96 bs @ [] @ [] @ take (n + 8) (drop 96 bs) @ [] @ drop (104 + n) bs)"
      using bs(1) by (simp add: add.commute add.left_commute)
  qed (use bs that assms(5) in auto)
  moreover have "cpr_flushbuf sys (Some ?r) h1 io = None" if "n < unat v"
  proof -
    have "load_list h1 (Ptr b (104 + n)) (unat v) = None" by (rule load_list_past_end [OF bs(1)]) (use bs(2) that in auto)
    with that sz(2) show ?thesis by (simp add: cpr_flushbuf_def buf_out_def bufio_sizeof_def)
  qed
  ultimately show ?thesis using mk by (intro exI [of _ ?r]) (auto simp: cpr_freebuf_def)
qed

theorem cpr_makebuf_put_witness:
  "\<exists>r h1. cpr_makebuf (heap_of []) None 3 4 = Some (Some r, None, h1) \<and> buf_put r = unat (0xAAAAAAAAAAAAAAAA :: 64 word) \<and>
    cpr_flushbuf script_io (Some r) h1 (script_of []) = None"
proof -
  obtain h1 where h1: "c_malloc (heap_of []) (104 + 2 * 4) = (Ptr 0 0, h1)" "hblk h1 0 = Some (replicate 112 0xAA)"
    by (auto simp: c_malloc_def heap_of_def map_replicate_const)
  have "le_get64 h1 (Ptr 0 88) = Some 0xAAAAAAAAAAAAAAAA"
    using h1(2) by (simp add: le_get64_def load_Ptr)
  from cpr_makebuf_put [OF h1(1) this, of 3 script_io "script_of []"] obtain r where
    r: "cpr_makebuf (heap_of []) None 3 4 = Some (Some r, None, h1)" "buf_put r = unat (0xAAAAAAAAAAAAAAAA :: 64 word)"
    "4 < unat (0xAAAAAAAAAAAAAAAA :: 64 word) \<longrightarrow> cpr_flushbuf script_io (Some r) h1 (script_of []) = None" by auto
  have "4 < unat (0xAAAAAAAAAAAAAAAA :: 64 word)" by simp
  with r show ?thesis by blast
qed

text \<open>
  Waiting for input ends with the first answer of \<^verbatim>\<open>poll\<close> that is not an interruption, however many
  interruptions come before it, and reports it: readable, an error condition, an unexpected
  condition, a timeout or a failed call.
\<close>

theorem cpr_waitbuf_answers:
  assumes "list_all (\<lambda>(rv, revents, err). rv < 0 \<and> err = 4) interrupted" and "\<not> (rv < 0 \<and> err = 4)" and "0 \<le> buf_fd r"
  shows "cpr_waitbuf (Some r) (interrupted @ (rv, revents, err) # later) =
    Some (if rv < 0 then - 4 else if rv = 0 then 0 else if bit revents 0 then 1
      else if bit revents 3 \<or> bit revents 4 \<or> bit revents 5 then - 2 else - 3)"
proof -
  have b0: "revents AND 1 \<noteq> 0 \<longleftrightarrow> bit revents 0" by (simp add: and_one_eq odd_iff_mod_2_eq_one bit_0)
  define bad :: "16 word" where "bad = 8 OR 16 OR 32"
  have b345: "revents AND bad \<noteq> 0 \<longleftrightarrow> bit revents 3 \<or> bit revents 4 \<or> bit revents 5"
  proof -
    have p: "(8 :: 16 word) = 2 ^ 3" "(16 :: 16 word) = 2 ^ 4" "(32 :: 16 word) = 2 ^ 5" by simp_all
    have "bit bad i \<longleftrightarrow> i = 3 \<or> i = 4 \<or> i = 5" for i
      unfolding bad_def p by (auto simp only: bit_or_iff bit_exp_iff) simp_all
    moreover have "revents AND bad = 0 \<longleftrightarrow> (\<forall>i. \<not> bit (revents AND bad) i)" by (metis bit_0_eq bit_eqI bot_apply bot_bool_def)
    ultimately show ?thesis by (auto simp: bit_and_iff)
  qed
  have "wait_loop (interrupted @ (rv, revents, err) # later) = wait_loop ((rv, revents, err) # later)"
    using assms(1) by (induction interrupted) auto
  with assms(2,3) b0 b345 [unfolded bad_def] show ?thesis by (auto simp: cpr_waitbuf_def)
qed

theorem cpr_waitbuf_answers_witness:
  "cpr_waitbuf (Some four_buf) ([(- 1, 0, 4), (- 1, 0, 4)] @ (1, 16, 0) # []) = Some (- 2)"
proof -
  have "bit (16 :: 16 word) 4" "\<not> bit (16 :: 16 word) 0" by (simp_all add: bit_numeral_rec)
  then show ?thesis
    using cpr_waitbuf_answers [of "[(- 1, 0, 4), (- 1, 0, 4)]" 1 0 four_buf 16 "[]"] by (simp add: four_buf_def)
qed

end
