(* ===== verification/Socket.thy ===== *)
theory Socket
  imports Strchar
begin

text \<open>
  \<^verbatim>\<open>src/socket.c\<close> and \<^verbatim>\<open>src/socket.h\<close>: single characters and lines over a socket. \<^verbatim>\<open>recv\<close> and
  \<^verbatim>\<open>send\<close> are parameters that act on a world \<open>'w\<close> and give \<^const>\<open>None\<close> for \<^verbatim>\<open>-1\<close>; \<open>line_io\<close> below
  says what the theorems assume of them. \<^verbatim>\<open>char\<close> is signed, so a received byte from 128 on is a
  negative code. The line editor reads until a line is complete, which may never be, so it
  takes a bound on its rounds.

  The second part is a line editor on lists of bytes and the proof that the loop over the
  socket and the buffer in the store computes the same.
\<close>

record 'w sockets =
  sk_recv :: "int \<Rightarrow> size_t \<Rightarrow> 'w \<Rightarrow> byte list option \<times> 'w"
  sk_send :: "int \<Rightarrow> byte list \<Rightarrow> 'w \<Rightarrow> nat option \<times> 'w"

subsection \<open>Operations\<close>

text \<open>The POSIX versions; the system calls of \<^verbatim>\<open>cpr_sockclose\<close> are its result.\<close>

datatype sock_call = Sock_Shutdown int | Sock_Close int

definition cpr_sockclose :: "int \<Rightarrow> sock_call list" where
  "cpr_sockclose so = [Sock_Shutdown so, Sock_Close so]"

definition cpr_sockinit :: int where "cpr_sockinit = 0"

text \<open>The address families, and the sizes of \<^verbatim>\<open>struct sockaddr_in\<close> and \<^verbatim>\<open>struct sockaddr_in6\<close>.\<close>

definition AF_UNSPEC :: "16 word" where "AF_UNSPEC = 0"
definition AF_INET :: "16 word" where "AF_INET = 2"
definition AF_INET6 :: "16 word" where "AF_INET6 = 10"

definition cpr_socklen :: "heap \<Rightarrow> ptr \<Rightarrow> size_t option" where
  "cpr_socklen h addr =
     (if addr = Null then Some 0
      else do {
        family \<leftarrow> le_get16 h addr;
        Some (if family = AF_INET then 16 else if family = AF_INET6 then 28 else 0) })"

definition cpr_getch :: "'w sockets \<Rightarrow> int \<Rightarrow> 'w \<Rightarrow> int \<times> 'w" where
  "cpr_getch sk so w = (let (res, w) = sk_recv sk so 1 w in
     (case res of Some [c] \<Rightarrow> sint c | _ \<Rightarrow> - 1, w))"

definition cpr_putch :: "'w sockets \<Rightarrow> int \<Rightarrow> byte \<Rightarrow> 'w \<Rightarrow> bool \<times> 'w" where
  "cpr_putch sk so code w = (let (res, w) = sk_send sk so [code] w in (res = Some 1, w))"

definition cpr_putline :: "'w sockets \<Rightarrow> heap \<Rightarrow> int \<Rightarrow> ptr \<Rightarrow> size_t \<Rightarrow> 'w \<Rightarrow> (int \<times> 'w) option" where
  "cpr_putline sk h so text lim w = do {
     let lim = (if lim \<noteq> 0 then 256 else lim);
     n \<leftarrow> cpr_strlen h text lim;
     if n = 0 then Some (0, w)
     else do {
       cs \<leftarrow> load_list h text n;
       let (res, w) = sk_send sk so cs w;
       Some (case res of None \<Rightarrow> - 1 | Some k \<Rightarrow> int k, w) } }"

text \<open>
  One round of the loop of \<^verbatim>\<open>cpr_getline\<close>: either the loop goes on with a new position and
  carriage return flag, or it ends with the value that is returned. \<open>rub\<close> is the address of the
  literal that echoes an erased character.
\<close>

datatype line_step = Go_On size_t bool | Stop int

definition getline_step :: "'w sockets \<Rightarrow> int \<Rightarrow> ptr \<Rightarrow> bool \<Rightarrow> ptr \<Rightarrow> size_t \<Rightarrow> bool \<Rightarrow> heap \<Rightarrow> 'w \<Rightarrow>
    (line_step \<times> heap \<times> 'w) option" where
  "getline_step sk so text echo rub pos cr h w =
     (let (code, w) = cpr_getch sk so w in
      if code = - 1 then Some (Stop (- 1), h, w)
      else if code > 31 \<and> code < 127 then do {
        h \<leftarrow> store h (padd text pos) (word_of_int code);
        h \<leftarrow> store h (padd text (pos + 1)) 0;
        let w = (if echo then snd (cpr_putch sk so (word_of_int code) w) else w);
        Some (Go_On (pos + 1) False, h, w) }
      else if code = 10 then
        (let w = (if echo \<and> cr then snd (cpr_putch sk so 13 w) else w);
             w = snd (cpr_putch sk so 10 w) in
         Some (Stop (int pos), h, w))
      else if code = 13 \<and> cr then Some (Stop (int pos), h, w)
      else if code = 13 then Some (Go_On pos True, h, w)
      else if code = 8 \<or> code = 127 then
        (if pos = 0 then Some (Go_On pos False, h, w)
         else do {
           h \<leftarrow> store h (padd text (pos - 1)) 0;
           (_, w) \<leftarrow> (if echo then cpr_putline sk h so rub 0 w else Some (0, w));
           Some (Go_On (pos - 1) False, h, w) })
      else Some (Go_On pos False, h, w))"

primrec getline_loop :: "nat \<Rightarrow> 'w sockets \<Rightarrow> int \<Rightarrow> ptr \<Rightarrow> size_t \<Rightarrow> bool \<Rightarrow> ptr \<Rightarrow> size_t \<Rightarrow> bool \<Rightarrow> heap \<Rightarrow> 'w \<Rightarrow>
    (int \<times> heap \<times> 'w) progress option" where
  "getline_loop 0 sk so text lim echo rub pos cr h w = Some Running"
| "getline_loop (Suc n) sk so text lim echo rub pos cr h w =
     (if pos < lim - 1 then do {
        (r, h, w) \<leftarrow> getline_step sk so text echo rub pos cr h w;
        (case r of Stop i \<Rightarrow> Some (Done (i, h, w))
         | Go_On pos cr \<Rightarrow> getline_loop n sk so text lim echo rub pos cr h w) }
      else Some (Done (int pos, h, w)))"

definition cpr_getline :: "nat \<Rightarrow> 'w sockets \<Rightarrow> int \<Rightarrow> ptr \<Rightarrow> size_t \<Rightarrow> bool \<Rightarrow> ptr \<Rightarrow> heap \<Rightarrow> 'w \<Rightarrow>
    (int \<times> heap \<times> 'w) progress option" where
  "cpr_getline n sk so text lim echo rub h w =
     (if text = Null \<or> lim < 2 then Some (Done (0, h, w))
      else do {
        h \<leftarrow> store h text 0;
        getline_loop n sk so text lim echo rub 0 False h w })"

subsection \<open>A line editor on lists\<close>

definition sending :: "byte list \<Rightarrow> bool \<times> byte list \<times> byte list \<times> byte list \<Rightarrow> bool \<times> byte list \<times> byte list \<times> byte list" where
  "sending cs res = (case res of (ok, line, rest, sent) \<Rightarrow> (ok, line, rest, cs @ sent))"

text \<open>
  Whether the line was completed, the line, the input left over and what is sent back. The byte
  255 is not told apart from a closed connection, and erasing echoes a single backspace.
\<close>

primrec edit :: "nat \<Rightarrow> bool \<Rightarrow> byte list \<Rightarrow> bool \<Rightarrow> byte list \<Rightarrow> bool \<times> byte list \<times> byte list \<times> byte list" where
  "edit lim echo line cr [] = (\<not> length line < lim, line, [], [])"
| "edit lim echo line cr (c # cs) =
     (if \<not> length line < lim then (True, line, c # cs, [])
      else if c = 255 then (False, line, cs, [])
      else if 31 < c \<and> c < 127 then sending (if echo then [c] else []) (edit lim echo (line @ [c]) False cs)
      else if c = 10 then (True, line, cs, (if echo \<and> cr then [13] else []) @ [10])
      else if c = 13 then (if cr then (True, line, cs, []) else edit lim echo line True cs)
      else if (c = 8 \<or> c = 127) \<and> line \<noteq> [] then
        sending (if echo then [8] else []) (edit lim echo (butlast line) False cs)
      else edit lim echo line False cs)"

definition printable :: "byte \<Rightarrow> bool" where "printable c \<longleftrightarrow> 31 < c \<and> c < 127"

lemma sendingD: "sending cs x = (ok, line, rest, sent) \<Longrightarrow> \<exists>sent'. x = (ok, line, rest, sent')"
  by (cases x) (auto simp: sending_def)

lemma edit_step:
  assumes "edit lim echo line cr (c # cs) = (ok, line', rest, sent)" and "length line \<le> lim" and "list_all printable line"
  shows "line' = line \<and> (rest = cs \<or> rest = c # cs) \<or>
    (\<exists>line1 cr1 sent1. edit lim echo line1 cr1 cs = (ok, line', rest, sent1) \<and> length line1 \<le> lim \<and> list_all printable line1)"
proof (cases "length line < lim \<and> c \<noteq> 255")
  case True
  have bl: "list_all printable (butlast line)" using assms(3) by (auto simp: list_all_iff dest: in_set_butlastD)
  consider "printable c" | "c = 10" | "c = 13" | "(c = 8 \<or> c = 127) \<and> line \<noteq> []"
    | "\<not> printable c \<and> c \<noteq> 10 \<and> c \<noteq> 13 \<and> \<not> ((c = 8 \<or> c = 127) \<and> line \<noteq> [])" by blast
  then show ?thesis
  proof cases
    case 1
    then have "sending (if echo then [c] else []) (edit lim echo (line @ [c]) False cs) = (ok, line', rest, sent)"
      using assms(1) True by (simp add: printable_def)
    from sendingD [OF this] obtain s where "edit lim echo (line @ [c]) False cs = (ok, line', rest, s)" by blast
    moreover have "length (line @ [c]) \<le> lim" "list_all printable (line @ [c])" using 1 True assms(3) by auto
    ultimately show ?thesis by blast
  next
    case 4
    then have "\<not> printable c" "c \<noteq> 10" "c \<noteq> 13" by (auto simp: printable_def)
    with 4 have "sending (if echo then [8] else []) (edit lim echo (butlast line) False cs) = (ok, line', rest, sent)"
      using assms(1) True by (auto simp: printable_def)
    from sendingD [OF this] obtain s where "edit lim echo (butlast line) False cs = (ok, line', rest, s)" by blast
    moreover have "length (butlast line) \<le> lim" using True by auto
    ultimately show ?thesis using bl by blast
  next
    case 2
    then show ?thesis using assms(1) True by (simp add: printable_def)
  next
    case 3
    show ?thesis
    proof (cases cr)
      case True
      then show ?thesis using assms(1) 3 by (auto simp: printable_def split: if_splits)
    next
      case False
      then have "edit lim echo line True cs = (ok, line', rest, sent)" using assms(1) 3 True by (simp add: printable_def)
      then show ?thesis using assms(2,3) by blast
    qed
  next
    case 5
    then have "edit lim echo line False cs = (ok, line', rest, sent)"
      using assms(1) True by (auto simp: printable_def split: if_splits)
    then show ?thesis using assms(2,3) by blast
  qed
qed (use assms in \<open>auto split: if_splits\<close>)

lemma edit_line:
  assumes "edit lim echo line cr cs = (ok, line', rest, sent)" and "length line \<le> lim" and "list_all printable line"
  shows "length line' \<le> lim \<and> list_all printable line'"
  using assms
proof (induction cs arbitrary: line cr sent)
  case (Cons c cs)
  from edit_step [OF Cons.prems] Cons.IH Cons.prems(2,3) show ?case by blast
qed simp

lemma sint_byte: "sint (c :: byte) = (if uint c < 128 then uint c else uint c - 256)"
proof -
  have "sint c = signed_take_bit 7 (uint c)" by (simp add: sint_uint)
  also have "\<dots> = (uint c + 128) mod 256 - 128"
    by (simp add: signed_take_bit_eq_take_bit_shift take_bit_eq_mod)
  also have "\<dots> = (if uint c < 128 then uint c else uint c - 256)"
  proof (cases "uint c < 128")
    case True
    then have "uint c + 128 < 256" "0 \<le> uint c + 128" by simp_all
    with True show ?thesis by (simp add: mod_pos_pos_trivial)
  next
    case False
    define x where "x = uint c"
    have "x < 256" "128 \<le> x" using uint_lt2p [of c] False by (simp_all add: x_def)
    have "(x + 128) mod 256 = (x - 128 + 256) mod 256" by (rule arg_cong [of _ _ "\<lambda>y. y mod 256"]) simp
    also have "\<dots> = (x - 128) mod 256" by (rule mod_add_self2)
    also have "\<dots> = x - 128" using \<open>x < 256\<close> \<open>128 \<le> x\<close> by (intro mod_pos_pos_trivial) simp_all
    finally have "(x + 128) mod 256 = x - 128" .
    then have "(uint c + 128) mod 256 = uint c - 128" by (simp add: x_def)
    with False show ?thesis by simp
  qed
  finally show ?thesis .
qed

lemma code_facts:
  fixes c :: byte
  shows "sint c = - 1 \<longleftrightarrow> c = 255" "31 < sint c \<and> sint c < 127 \<longleftrightarrow> printable c" "sint c = 10 \<longleftrightarrow> c = 10"
    "sint c = 13 \<longleftrightarrow> c = 13" "sint c = 8 \<longleftrightarrow> c = 8" "sint c = 127 \<longleftrightarrow> c = 127"
proof -
  have "uint c < 256" "uint c \<noteq> - 1" using uint_lt2p [of c] uint_nonnegative [of c] by (simp, linarith)
  then show "sint c = - 1 \<longleftrightarrow> c = 255" "31 < sint c \<and> sint c < 127 \<longleftrightarrow> printable c" "sint c = 10 \<longleftrightarrow> c = 10"
    "sint c = 13 \<longleftrightarrow> c = 13" "sint c = 8 \<longleftrightarrow> c = 8" "sint c = 127 \<longleftrightarrow> c = 127"
    by (auto simp: sint_byte printable_def word_less_def word_uint_eq_iff)
qed

subsection \<open>The loop computes the same\<close>

text \<open>
  A peer as the editor sees it: the bytes it is going to send, one per call and a failed or empty
  answer when there are no more, and the bytes it has been sent, all of them taken.
\<close>

definition line_io :: "'w sockets \<Rightarrow> ('w \<Rightarrow> byte list) \<Rightarrow> ('w \<Rightarrow> byte list) \<Rightarrow> bool" where
  "line_io sk inp out \<longleftrightarrow>
     (\<forall>so w. \<exists>w'. out w' = out w \<and> (case inp w of
        [] \<Rightarrow> inp w' = [] \<and> (sk_recv sk so 1 w = (None, w') \<or> sk_recv sk so 1 w = (Some [], w'))
      | c # cs \<Rightarrow> inp w' = cs \<and> sk_recv sk so 1 w = (Some [c], w'))) \<and>
     (\<forall>so cs w. \<exists>w'. sk_send sk so cs w = (Some (length cs), w') \<and> inp w' = inp w \<and> out w' = out w @ cs)"

lemma getch_Nil:
  assumes "line_io sk inp out" and "inp w = []"
  obtains w' where "cpr_getch sk so w = (- 1, w')" and "inp w' = []" and "out w' = out w"
proof -
  from assms(1) [unfolded line_io_def, THEN conjunct1, rule_format, of w so] assms(2) obtain w' where
    "out w' = out w" "inp w' = []" "sk_recv sk so 1 w = (None, w') \<or> sk_recv sk so 1 w = (Some [], w')" by auto
  then show ?thesis by (intro that [of w']) (auto simp: cpr_getch_def)
qed

lemma getch_Cons:
  assumes "line_io sk inp out" and "inp w = c # cs"
  obtains w' where "cpr_getch sk so w = (sint c, w')" and "inp w' = cs" and "out w' = out w"
proof -
  from assms(1) [unfolded line_io_def, THEN conjunct1, rule_format, of w so] assms(2) obtain w' where
    "out w' = out w" "inp w' = cs" "sk_recv sk so 1 w = (Some [c], w')" by auto
  then show ?thesis by (intro that [of w']) (auto simp: cpr_getch_def)
qed

lemma send_all:
  assumes "line_io sk inp out"
  obtains w' where "sk_send sk so cs w = (Some (length cs), w')" and "inp w' = inp w" and "out w' = out w @ cs"
  using assms unfolding line_io_def by blast

lemma putch_all:
  assumes "line_io sk inp out"
  obtains w' where "(if b then snd (cpr_putch sk so c w) else w) = w'" and "inp w' = inp w" and "out w' = out w @ (if b then [c] else [])"
proof -
  obtain w' where "sk_send sk so [c] w = (Some (length [c]), w')" "inp w' = inp w" "out w' = out w @ [c]"
    using assms by (rule send_all)
  with that show ?thesis by (cases b) (auto simp: cpr_putch_def)
qed

text \<open>The echo of an erased character: a limit of zero lets the first character through.\<close>

lemma putline_rub:
  assumes "line_io sk inp out" and "cstr h rub [8, 32, 8]"
  obtains i w' where "(if echo then cpr_putline sk h so rub 0 w else Some (0, w)) = Some (i, w')"
    and "inp w' = inp w" and "out w' = out w @ (if echo then [8] else [])"
proof -
  obtain w' where w': "sk_send sk so [8] w = (Some (length [8 :: byte]), w')" "inp w' = inp w" "out w' = out w @ [8]"
    using assms(1) by (rule send_all)
  have "cpr_strlen h rub 0 = Some 1" "load h rub = Some 8"
    using cpr_strlen_cstr [OF assms(2), of 0] assms(2) by (simp_all add: clip_def)
  with w' have "cpr_putline sk h so rub 0 w = Some (1, w')" by (simp add: cpr_putline_def)
  with w'(2,3) show ?thesis by (cases echo) (auto intro: that)
qed

text \<open>The buffer holds the line so far, terminated, in front of bytes that are still free.\<close>

definition line_at :: "heap \<Rightarrow> nat \<Rightarrow> byte list \<Rightarrow> byte list \<Rightarrow> nat \<Rightarrow> byte list \<Rightarrow> bool" where
  "line_at h b pre post lim line \<longleftrightarrow> (\<exists>free. hblk h b = Some (pre @ line @ 0 # free @ post) \<and> length line + 1 + length free = lim)"

lemma line_at_add:
  assumes "line_at h b pre post lim line" and "length line < lim - 1"
  shows "\<exists>h1 h2. store h (Ptr b (length pre + length line)) c = Some h1 \<and>
    store h1 (Ptr b (length pre + length line + 1)) 0 = Some h2 \<and> line_at h2 b pre post lim (line @ [c]) \<and>
    (\<forall>a. a \<noteq> b \<longrightarrow> hblk h2 a = hblk h a)"
proof -
  obtain free where f: "hblk h b = Some (pre @ line @ 0 # free @ post)" "length line + 1 + length free = lim"
    using assms(1) by (auto simp: line_at_def)
  with assms(2) obtain x free' where fr: "free = x # free'" by (cases free) auto
  let ?h1 = "put_block h b (pre @ line @ c # free @ post)"
  let ?h2 = "put_block h b (pre @ (line @ [c]) @ 0 # free' @ post)"
  have "hblk h b = Some ((pre @ line) @ 0 # free @ post)" using f(1) by simp
  from store_Ptr [OF this, of "length pre + length line" c] have "store h (Ptr b (length pre + length line)) c = Some ?h1"
    by (simp add: list_update_append)
  moreover have "hblk ?h1 b = Some ((pre @ line @ [c]) @ x # free' @ post)" by (simp add: fr)
  from store_Ptr [OF this, of "length pre + length line + 1" 0]
  have "store ?h1 (Ptr b (length pre + length line + 1)) 0 = Some ?h2" by (simp add: list_update_append)
  moreover have "line_at ?h2 b pre post lim (line @ [c])" using f(2) fr by (auto simp: line_at_def)
  ultimately show ?thesis by (intro exI [of _ ?h1] exI [of _ ?h2]) auto
qed

lemma line_at_drop:
  assumes "line_at h b pre post lim line" and "line \<noteq> []"
  shows "\<exists>h1. store h (Ptr b (length pre + (length line - 1))) 0 = Some h1 \<and> line_at h1 b pre post lim (butlast line) \<and>
    (\<forall>a. a \<noteq> b \<longrightarrow> hblk h1 a = hblk h a)"
proof -
  obtain free where f: "hblk h b = Some (pre @ line @ 0 # free @ post)" "length line + 1 + length free = lim"
    using assms(1) by (auto simp: line_at_def)
  obtain l c where l: "line = l @ [c]" using assms(2) by (cases line rule: rev_cases) auto
  let ?h1 = "put_block h b (pre @ l @ 0 # (0 # free) @ post)"
  have "hblk h b = Some ((pre @ l) @ c # 0 # free @ post)" using f(1) l by simp
  from store_Ptr [OF this, of "length pre + length l" 0] have "store h (Ptr b (length pre + (length line - 1))) 0 = Some ?h1"
    by (simp add: list_update_append l)
  moreover have "line_at ?h1 b pre post lim l"
    unfolding line_at_def by (rule exI [of _ "0 # free"]) (use f(2) l in simp)
  ultimately show ?thesis using l by (intro exI [of _ ?h1]) auto
qed

text \<open>
  One round beside the editor: it ends with the editor's result, or goes on from a state in which the
  editor has the same result to give for the rest of the input.
\<close>

definition round_ends :: "'w sockets \<Rightarrow> ('w \<Rightarrow> byte list) \<Rightarrow> ('w \<Rightarrow> byte list) \<Rightarrow> int \<Rightarrow> nat \<Rightarrow> byte list \<Rightarrow> byte list \<Rightarrow> nat \<Rightarrow>
    bool \<Rightarrow> ptr \<Rightarrow> byte list \<Rightarrow> bool \<Rightarrow> heap \<Rightarrow> 'w \<Rightarrow> bool \<times> byte list \<times> byte list \<times> byte list \<Rightarrow> bool" where
  "round_ends sk inp out so b pre post lim echo rub line cr h w res \<longleftrightarrow> (case res of (ok, line', rest, sent) \<Rightarrow>
     \<exists>w1. getline_step sk so (Ptr b (length pre)) echo rub (length line) cr h w =
         Some (Stop (if ok then int (length line') else - 1), h, w1) \<and>
       line' = line \<and> inp w1 = rest \<and> out w1 = out w @ sent)"

definition round_goes :: "'w sockets \<Rightarrow> ('w \<Rightarrow> byte list) \<Rightarrow> ('w \<Rightarrow> byte list) \<Rightarrow> int \<Rightarrow> nat \<Rightarrow> byte list \<Rightarrow> byte list \<Rightarrow> nat \<Rightarrow>
    bool \<Rightarrow> ptr \<Rightarrow> byte list \<Rightarrow> bool \<Rightarrow> heap \<Rightarrow> 'w \<Rightarrow> byte list \<Rightarrow> bool \<times> byte list \<times> byte list \<times> byte list \<Rightarrow> bool" where
  "round_goes sk inp out so b pre post lim echo rub line cr h w cs res \<longleftrightarrow> (case res of (ok, line', rest, sent) \<Rightarrow>
     \<exists>line1 cr1 h1 w1 s sent1.
       getline_step sk so (Ptr b (length pre)) echo rub (length line) cr h w = Some (Go_On (length line1) cr1, h1, w1) \<and>
       edit (lim - 1) echo line1 cr1 cs = (ok, line', rest, sent1) \<and> line_at h1 b pre post lim line1 \<and>
       (\<forall>a. a \<noteq> b \<longrightarrow> hblk h1 a = hblk h a) \<and> inp w1 = cs \<and> out w1 = out w @ s \<and> sent = s @ sent1)"

lemma round_printable:
  assumes io: "line_io sk inp out" and la: "line_at h b pre post lim line" and lt: "length line < lim - 1"
    and inp: "inp w = c # cs" and c: "printable c"
  shows "round_goes sk inp out so b pre post lim echo rub line cr h w cs (edit (lim - 1) echo line cr (c # cs))"
proof -
  obtain w1 where w1: "cpr_getch sk so w = (sint c, w1)" "inp w1 = cs" "out w1 = out w" using io inp by (rule getch_Cons)
  have c': "c \<noteq> 255" "31 < c \<and> c < 127" using c by (auto simp: printable_def)
  from line_at_add [OF la lt, of c] obtain h1 h2 where h2:
    "store h (Ptr b (length pre + length line)) c = Some h1" "store h1 (Ptr b (length pre + length line + 1)) 0 = Some h2"
    "line_at h2 b pre post lim (line @ [c])" "\<forall>a. a \<noteq> b \<longrightarrow> hblk h2 a = hblk h a" by blast
  obtain w2 where w2: "(if echo then snd (cpr_putch sk so c w1) else w1) = w2" "inp w2 = inp w1"
    "out w2 = out w1 @ (if echo then [c] else [])" using io by (rule putch_all)
  obtain ok line' rest sent1 where e: "edit (lim - 1) echo (line @ [c]) False cs = (ok, line', rest, sent1)" by (rule prod_cases4)
  have res: "edit (lim - 1) echo line cr (c # cs) = (ok, line', rest, (if echo then [c] else []) @ sent1)"
    using lt c' e by (simp add: sending_def)
  have st: "getline_step sk so (Ptr b (length pre)) echo rub (length line) cr h w = Some (Go_On (length (line @ [c])) False, h2, w2)"
    using w1(1) w2(1) h2(1,2) c c'(1) by (cases echo) (simp_all add: getline_step_def code_facts Let_def)
  show ?thesis unfolding round_goes_def res prod.case
    by (intro exI [of _ "line @ [c]"] exI [of _ False] exI [of _ h2] exI [of _ w2] exI [of _ "if echo then [c] else []"] exI [of _ sent1])
       (use st e h2(3,4) w1 w2 in simp)
qed

lemma round_newline:
  assumes io: "line_io sk inp out" and lt: "length line < lim - 1" and inp: "inp w = 10 # cs"
  shows "round_ends sk inp out so b pre post lim echo rub line cr h w (edit (lim - 1) echo line cr (10 # cs))"
proof -
  obtain w1 where w1: "cpr_getch sk so w = (sint (10 :: byte), w1)" "inp w1 = cs" "out w1 = out w" using io inp by (rule getch_Cons)
  obtain w2 where w2: "(if echo \<and> cr then snd (cpr_putch sk so 13 w1) else w1) = w2" "inp w2 = inp w1"
    "out w2 = out w1 @ (if echo \<and> cr then [13] else [])" using io by (rule putch_all)
  obtain w3 where w3: "(if True then snd (cpr_putch sk so 10 w2) else w2) = w3" "inp w3 = inp w2"
    "out w3 = out w2 @ (if True then [10] else [])" using io by (rule putch_all)
  have np: "\<not> printable 10" by (simp add: printable_def)
  have "getline_step sk so (Ptr b (length pre)) echo rub (length line) cr h w = Some (Stop (int (length line)), h, w3)"
    using w1(1) w2(1) w3(1) np by (simp add: getline_step_def code_facts Let_def)
  then show ?thesis using lt w1 w2(2,3) w3(2,3) by (auto simp: round_ends_def)
qed

lemma round_erase:
  assumes io: "line_io sk inp out" and rub: "cstr h rub [8, 32, 8]" "ptr_block rub \<noteq> b" and la: "line_at h b pre post lim line"
    and lt: "length line < lim - 1" and inp: "inp w = c # cs" and c: "c = 8 \<or> c = 127" and ne: "line \<noteq> []"
  shows "round_goes sk inp out so b pre post lim echo rub line cr h w cs (edit (lim - 1) echo line cr (c # cs))"
proof -
  obtain w1 where w1: "cpr_getch sk so w = (sint c, w1)" "inp w1 = cs" "out w1 = out w" using io inp by (rule getch_Cons)
  from line_at_drop [OF la ne] obtain h1 where h1:
    "store h (Ptr b (length pre + (length line - 1))) 0 = Some h1" "line_at h1 b pre post lim (butlast line)"
    "\<forall>a. a \<noteq> b \<longrightarrow> hblk h1 a = hblk h a" by blast
  have "cstr h1 rub [8, 32, 8]" using cstr_same_block [OF rub(1)] h1(3) rub(2) by simp
  with io obtain i w2 where w2: "(if echo then cpr_putline sk h1 so rub 0 w1 else Some (0, w1)) = Some (i, w2)"
    "inp w2 = inp w1" "out w2 = out w1 @ (if echo then [8] else [])" by (rule putline_rub)
  have np: "\<not> printable c" "c \<noteq> 255" "c \<noteq> 10" "c \<noteq> 13" using c by (auto simp: printable_def)
  obtain ok line' rest sent1 where e: "edit (lim - 1) echo (butlast line) False cs = (ok, line', rest, sent1)" by (rule prod_cases4)
  have res: "edit (lim - 1) echo line cr (c # cs) = (ok, line', rest, (if echo then [8] else []) @ sent1)"
    using lt c ne np e by (auto simp: sending_def printable_def)
  have st: "getline_step sk so (Ptr b (length pre)) echo rub (length line) cr h w = Some (Go_On (length (butlast line)) False, h1, w2)"
    using w1(1) w2(1) h1(1) c ne np by (simp add: getline_step_def code_facts Let_def split del: if_split)
  show ?thesis unfolding round_goes_def res prod.case
    by (intro exI [of _ "butlast line"] exI [of _ False] exI [of _ h1] exI [of _ w2] exI [of _ "if echo then [8] else []"] exI [of _ sent1])
       (use st e h1(2,3) w1 w2 in simp)
qed

lemma round_quiet:
  assumes io: "line_io sk inp out" and la: "line_at h b pre post lim line" and lt: "length line < lim - 1" and inp: "inp w = c # cs"
    and c: "c \<noteq> 255" "\<not> printable c" "c \<noteq> 10" "\<not> (c = 13 \<and> cr)" "\<not> ((c = 8 \<or> c = 127) \<and> line \<noteq> [])"
  shows "round_goes sk inp out so b pre post lim echo rub line cr h w cs (edit (lim - 1) echo line cr (c # cs))"
proof -
  obtain w1 where w1: "cpr_getch sk so w = (sint c, w1)" "inp w1 = cs" "out w1 = out w" using io inp by (rule getch_Cons)
  obtain ok line' rest sent where e: "edit (lim - 1) echo line (c = 13) cs = (ok, line', rest, sent)" by (rule prod_cases4)
  have res: "edit (lim - 1) echo line cr (c # cs) = (ok, line', rest, sent)"
    using lt c e by (cases "c = 13") (auto simp: printable_def)
  have st: "getline_step sk so (Ptr b (length pre)) echo rub (length line) cr h w = Some (Go_On (length line) (c = 13), h, w1)"
    using w1(1) c by (cases "c = 13") (auto simp: getline_step_def code_facts Let_def)
  show ?thesis unfolding round_goes_def res prod.case
    by (intro exI [of _ line] exI [of _ "c = 13"] exI [of _ h] exI [of _ w1] exI [of _ "[]"] exI [of _ sent]) (use st e la w1 in simp)
qed

lemma round_edit:
  assumes io: "line_io sk inp out" and rub: "cstr h rub [8, 32, 8]" "ptr_block rub \<noteq> b" and la: "line_at h b pre post lim line"
    and lt: "length line < lim - 1" and inp: "inp w = c # cs"
  shows "round_ends sk inp out so b pre post lim echo rub line cr h w (edit (lim - 1) echo line cr (c # cs)) \<or>
    round_goes sk inp out so b pre post lim echo rub line cr h w cs (edit (lim - 1) echo line cr (c # cs))"
proof -
  obtain w1 where w1: "cpr_getch sk so w = (sint c, w1)" "inp w1 = cs" "out w1 = out w" using io inp by (rule getch_Cons)
  consider "c = 255" | "printable c" | "c = 10" | "c = 13" "cr" | "(c = 8 \<or> c = 127) \<and> line \<noteq> []"
    | "c \<noteq> 255" "\<not> printable c" "c \<noteq> 10" "\<not> (c = 13 \<and> cr)" "\<not> ((c = 8 \<or> c = 127) \<and> line \<noteq> [])" by blast
  then show ?thesis
  proof cases
    case 1
    then show ?thesis using lt w1 by (auto simp: round_ends_def getline_step_def code_facts)
  next
    case 2
    then show ?thesis using round_printable [OF io la lt inp] by simp
  next
    case 3
    then show ?thesis using round_newline [OF io lt, of w cs] inp by simp
  next
    case 4
    moreover have "\<not> printable 13" by (simp add: printable_def)
    ultimately have "getline_step sk so (Ptr b (length pre)) echo rub (length line) cr h w = Some (Stop (int (length line)), h, w1)"
      using w1(1) by (simp add: getline_step_def code_facts Let_def)
    then show ?thesis using 4 lt w1 by (simp add: round_ends_def)
  next
    case 5
    then show ?thesis using round_erase [OF io rub la lt inp] by simp
  next
    case 6
    then show ?thesis using round_quiet [OF io la lt inp] by blast
  qed
qed

lemma getline_loop_edit:
  assumes "line_io sk inp out" and "cstr h rub [8, 32, 8]" and "ptr_block rub \<noteq> b" and "line_at h b pre post lim line"
    and "length (inp w) < n" and "edit (lim - 1) echo line cr (inp w) = (ok, line', rest, sent)"
  shows "\<exists>h' w'. getline_loop n sk so (Ptr b (length pre)) lim echo rub (length line) cr h w =
      Some (Done (if ok then int (length line') else - 1, h', w')) \<and>
    line_at h' b pre post lim line' \<and> inp w' = rest \<and> out w' = out w @ sent \<and> (\<forall>a. a \<noteq> b \<longrightarrow> hblk h' a = hblk h a)"
  using assms(2,4-6)
proof (induction n arbitrary: h line cr w sent)
  case (Suc n)
  show ?case
  proof (cases "length line < lim - 1")
    case False
    with Suc.prems(4) show ?thesis using Suc.prems(2) by (cases "inp w") (auto split: if_splits)
  next
    case lt: True
    show ?thesis
    proof (cases "inp w")
      case Nil
      obtain w' where w': "cpr_getch sk so w = (- 1, w')" "inp w' = []" "out w' = out w"
        using assms(1) Nil by (rule getch_Nil)
      with lt Nil Suc.prems(2,4) show ?thesis by (intro exI [of _ h] exI [of _ w']) (auto simp: getline_step_def)
    next
      case (Cons c cs)
      from round_edit [OF assms(1) Suc.prems(1) assms(3) Suc.prems(2) lt Cons, of so echo cr] show ?thesis
        unfolding Suc.prems(4) [unfolded Cons]
      proof
        assume "round_ends sk inp out so b pre post lim echo rub line cr h w (ok, line', rest, sent)"
        then show ?thesis using lt Suc.prems(2) by (auto simp: round_ends_def)
      next
        assume "round_goes sk inp out so b pre post lim echo rub line cr h w cs (ok, line', rest, sent)"
        then obtain line1 cr1 h1 w1 s sent1 where g:
          "getline_step sk so (Ptr b (length pre)) echo rub (length line) cr h w = Some (Go_On (length line1) cr1, h1, w1)"
          "edit (lim - 1) echo line1 cr1 cs = (ok, line', rest, sent1)" "line_at h1 b pre post lim line1"
          "\<forall>a. a \<noteq> b \<longrightarrow> hblk h1 a = hblk h a" "inp w1 = cs" "out w1 = out w @ s" "sent = s @ sent1"
          unfolding round_goes_def prod.case by (elim exE conjE)
        have rub: "cstr h1 rub [8, 32, 8]" using cstr_same_block [OF Suc.prems(1)] g(4) assms(3) by simp
        have n: "length (inp w1) < n" using Suc.prems(3) Cons g(5) by simp
        from Suc.IH [OF rub g(3) n g(2) [folded g(5)]] obtain h' w' where
          "getline_loop n sk so (Ptr b (length pre)) lim echo rub (length line1) cr1 h1 w1 =
            Some (Done (if ok then int (length line') else - 1, h', w'))" "line_at h' b pre post lim line'"
          "inp w' = rest" "out w' = out w1 @ sent1" "\<forall>a. a \<noteq> b \<longrightarrow> hblk h' a = hblk h1 a" by blast
        with g lt show ?thesis by (intro exI [of _ h'] exI [of _ w']) simp
      qed
    qed
  qed
qed simp

text \<open>
  C8. Reading a line from a socket is line editing: whatever the peer sends, the loop of
  \<^verbatim>\<open>cpr_getline\<close> ends when the line is complete, the buffer is full or the peer stops, leaves in
  the buffer exactly the text the editor on lists makes of the input, terminated, at most
  \<^verbatim>\<open>max - 1\<close> characters and all of them printable, has consumed and echoed what the editor says,
  and has touched no byte outside the buffer.
\<close>

theorem cpr_getline_edits:
  assumes "line_io sk inp out" and "hblk h b = Some (pre @ buf @ post)" and "length buf = lim" and "2 \<le> lim"
    and "cstr h rub [8, 32, 8]" and "ptr_block rub \<noteq> b" and "length (inp w) < n"
    and "edit (lim - 1) echo [] False (inp w) = (ok, line, rest, sent)"
  shows "\<exists>h' w' buf'. cpr_getline n sk so (Ptr b (length pre)) lim echo rub h w =
      Some (Done (if ok then int (length line) else - 1, h', w')) \<and>
    cstr h' (Ptr b (length pre)) line \<and> length line < lim \<and> list_all printable line \<and>
    inp w' = rest \<and> out w' = out w @ sent \<and>
    hblk h' b = Some (pre @ buf' @ post) \<and> length buf' = lim \<and> (\<forall>a. a \<noteq> b \<longrightarrow> hblk h' a = hblk h a)"
proof -
  obtain x free where buf: "buf = x # free" using assms(3,4) by (cases buf) auto
  let ?h = "put_block h b (pre @ [] @ 0 # free @ post)"
  have st: "store h (Ptr b (length pre)) 0 = Some ?h"
    using store_Ptr [OF assms(2), of "length pre" 0] by (simp add: buf list_update_append)
  have la: "line_at ?h b pre post lim []" using assms(3) buf by (auto simp: line_at_def)
  have "cstr ?h rub [8, 32, 8]" using cstr_same_block [OF assms(5)] assms(6) by simp
  from getline_loop_edit [OF assms(1) this assms(6) la assms(7,8), of so] obtain h' w' where
    l: "getline_loop n sk so (Ptr b (length pre)) lim echo rub 0 False ?h w = Some (Done (if ok then int (length line) else - 1, h', w'))"
    "line_at h' b pre post lim line" "inp w' = rest" "out w' = out w @ sent" "\<forall>a. a \<noteq> b \<longrightarrow> hblk h' a = hblk ?h a" by auto
  have ln: "length line \<le> lim - 1" "list_all printable line" using edit_line [OF assms(8)] by auto
  from l(2) obtain free' where f: "hblk h' b = Some (pre @ line @ 0 # free' @ post)" "length line + 1 + length free' = lim"
    by (auto simp: line_at_def)
  have "0 \<notin> set line" using ln(2) by (auto simp: list_all_iff printable_def)
  then have "cstr h' (Ptr b (length pre)) line" using f(1) by (intro cstr_mid [of _ _ pre _ "free' @ post"]) auto
  moreover have "cpr_getline n sk so (Ptr b (length pre)) lim echo rub h w = Some (Done (if ok then int (length line) else - 1, h', w'))"
    using st l(1) assms(4) by (simp add: cpr_getline_def)
  ultimately show ?thesis using l ln f assms(4)
    by (intro exI [of _ h'] exI [of _ w'] exI [of _ "line @ 0 # free'"]) auto
qed

text \<open>A peer with a fixed text to send.\<close>

definition peer :: "(byte list \<times> byte list) sockets" where
  "peer = \<lparr>sk_recv = \<lambda>so n (inp, out). (case inp of [] \<Rightarrow> (None, [], out) | c # cs \<Rightarrow> (Some [c], cs, out)),
     sk_send = \<lambda>so cs (inp, out). (Some (length cs), inp, out @ cs)\<rparr>"

lemma peer_io: "line_io peer fst snd"
  unfolding line_io_def
proof (intro conjI allI)
  fix so and w :: "byte list \<times> byte list"
  obtain inp out where w: "w = (inp, out)" by (cases w)
  show "\<exists>w'. snd w' = snd w \<and> (case fst w of
      [] \<Rightarrow> fst w' = [] \<and> (sk_recv peer so 1 w = (None, w') \<or> sk_recv peer so 1 w = (Some [], w'))
    | c # cs \<Rightarrow> fst w' = cs \<and> sk_recv peer so 1 w = (Some [c], w'))"
    by (rule exI [of _ "(tl inp, out)"]) (simp add: w peer_def split: list.splits)
  show "\<exists>w'. sk_send peer so cs w = (Some (length cs), w') \<and> fst w' = fst w \<and> snd w' = snd w @ cs" for cs
    by (simp add: w peer_def)
qed

theorem cpr_getline_edits_witness:
  "\<exists>h' w'. cpr_getline 9 peer 3 (Ptr 0 0) 8 True (Ptr 1 0) (heap_of [replicate 8 7, [8, 32, 8, 0]])
      ([97, 98, 8, 99, 13, 10, 100], []) = Some (Done (2, h', w')) \<and>
    cstr h' (Ptr 0 0) [97, 99] \<and> fst w' = [100] \<and> snd w' = [97, 98, 8, 99, 13, 10]"
proof -
  have "edit 7 True [] False [97, 98, 8, 99, 13, 10, 100] = (True, [97, 99], [100], [97, 98, 8, 99, 13, 10])"
    by (simp add: sending_def)
  moreover have "cstr (heap_of [replicate 8 7, [8, 32, 8, 0]]) (Ptr 1 0) [8, 32, 8]" by (simp add: load_Ptr)
  ultimately show ?thesis
    using cpr_getline_edits [OF peer_io, of "heap_of [replicate 8 7, [8, 32, 8, 0]]" 0 "[]" "replicate 8 7" "[]" 8 "Ptr 1 0"
        "([97, 98, 8, 99, 13, 10, 100], [])" 9 True True "[97, 99]" "[100]" "[97, 98, 8, 99, 13, 10]" 3] by auto
qed

end
