(* ===== verification/Address.thy ===== *)
theory Address
  imports Socket
begin

text \<open>
  \<^verbatim>\<open>src/address.c\<close> and \<^verbatim>\<open>src/address.h\<close>: socket addresses. An address is a \<^verbatim>\<open>struct sockaddr_storage\<close>,
  a block of 128 bytes of the store with the family in its first two bytes and the port in
  network order in the next two; the IPv4 address is at offset 4, the IPv6 address at offset 8.
  The conversions of the C library between addresses and texts are parameters, \<open>pton\<close> and \<open>ntop\<close>,
  from and to lists of bytes; what \<^verbatim>\<open>getifaddrs\<close> and \<^verbatim>\<open>getaddrinfo\<close> answer is an argument, with the
  structures they return in the store.

  The second part says what the functions compute in terms of texts and lists of bytes.
\<close>

type_synonym inet_pton = "16 word \<Rightarrow> byte list \<Rightarrow> byte list option"
type_synonym inet_ntop = "16 word \<Rightarrow> byte list \<Rightarrow> byte list option"

definition sockaddr_sizeof :: size_t where "sockaddr_sizeof = 128"

definition sin_port :: "ptr \<Rightarrow> ptr" where "sin_port p = padd p 2"
definition sin_addr :: "ptr \<Rightarrow> ptr" where "sin_addr p = padd p 4"
definition sin6_addr :: "ptr \<Rightarrow> ptr" where "sin6_addr p = padd p 8"

text \<open>
  \<^verbatim>\<open>inet_pton\<close> stores the address only when the text is one and then returns one; \<^verbatim>\<open>inet_ntop\<close> stores
  the text with its terminator and returns the buffer, or null when it does not fit.
\<close>

definition c_inet_pton :: "inet_pton \<Rightarrow> heap \<Rightarrow> 16 word \<Rightarrow> ptr \<Rightarrow> ptr \<Rightarrow> (int \<times> heap) option" where
  "c_inet_pton pton h af src dst = do {
     n \<leftarrow> c_strlen h src;
     s \<leftarrow> load_list h src n;
     (case pton af s of None \<Rightarrow> Some (0, h)
      | Some a \<Rightarrow> do { h \<leftarrow> store_list h dst a; Some (1, h) }) }"

definition c_inet_ntop :: "inet_ntop \<Rightarrow> heap \<Rightarrow> 16 word \<Rightarrow> ptr \<Rightarrow> ptr \<Rightarrow> size_t \<Rightarrow> (ptr \<times> heap) option" where
  "c_inet_ntop ntop h af src dst sz = do {
     a \<leftarrow> load_list h src (if af = AF_INET then 4 else 16);
     (case ntop af a of None \<Rightarrow> Some (Null, h)
      | Some s \<Rightarrow>
          if length s + 1 > sz then Some (Null, h)
          else do { h \<leftarrow> store_list h dst (s @ [0]); Some (dst, h) }) }"

subsection \<open>Operations\<close>

definition cpr_addport :: "heap \<Rightarrow> ptr \<Rightarrow> 16 word \<Rightarrow> (bool \<times> heap) option" where
  "cpr_addport h addr port =
     (if addr = Null then Some (False, h)
      else do {
        family \<leftarrow> le_get16 h addr;
        if family = AF_INET then do { h \<leftarrow> be_set16 h (sin_port addr) port; Some (True, h) }
        else do {
          family \<leftarrow> le_get16 h addr;
          if family = AF_INET then do { h \<leftarrow> be_set16 h (sin_port addr) port; Some (True, h) }
          else Some (False, h) } })"

definition cpr_setaddr :: "inet_pton \<Rightarrow> heap \<Rightarrow> ptr \<Rightarrow> ptr \<Rightarrow> 16 word \<Rightarrow> (16 word \<times> heap) option" where
  "cpr_setaddr pton h st addr port =
     (if st = Null then Some (AF_UNSPEC, h)
      else do {
        (_, h) \<leftarrow> cpr_memset h st 0 sockaddr_sizeof;
        if addr = Null then Some (AF_UNSPEC, h)
        else do {
          c \<leftarrow> load h addr;
          if c = 0 then Some (AF_UNSPEC, h)
          else do {
            dot \<leftarrow> c_strchr h addr 46;
            h \<leftarrow> (if dot \<noteq> Null then do {
                    (r, h) \<leftarrow> c_inet_pton pton h AF_INET addr (sin_addr st);
                    if r = 1 then do { h \<leftarrow> le_set16 h st AF_INET; be_set16 h (sin_port st) port }
                    else Some h }
                  else do {
                    colon \<leftarrow> c_strchr h addr 58;
                    if colon \<noteq> Null then do {
                      (r, h) \<leftarrow> c_inet_pton pton h AF_INET6 addr (sin6_addr st);
                      if r = 1 then do { h \<leftarrow> le_set16 h st AF_INET6; be_set16 h (sin_port st) port }
                      else Some h }
                    else Some h });
            family \<leftarrow> le_get16 h st;
            Some (family, h) } } })"

text \<open>
  The local buffer of \<^verbatim>\<open>cpr_getaddr\<close> and its literal are blocks of the store, \<open>buf\<close> of 47 bytes and
  \<open>star\<close>.
\<close>

definition cpr_getaddr :: "inet_ntop \<Rightarrow> ptr \<Rightarrow> ptr \<Rightarrow> heap \<Rightarrow> ptr \<Rightarrow> (ptr \<times> heap) option" where
  "cpr_getaddr ntop buf star h st =
     (if st = Null then Some (Null, h)
      else do {
        h \<leftarrow> store h buf 0;
        family \<leftarrow> le_get16 h st;
        if family = AF_UNSPEC then cpr_strdup h star 2
        else do {
          (text, h) \<leftarrow>
            (if family = AF_INET then c_inet_ntop ntop h AF_INET (sin_addr st) buf 47
             else if family = AF_INET6 then c_inet_ntop ntop h AF_INET6 (sin6_addr st) buf 47
             else Some (Null, h));
          if text \<noteq> Null then cpr_strdup h text 47 else Some (Null, h) } })"

record iface =
  ifa_name :: ptr
  ifa_addr :: ptr

text \<open>The loop over the interfaces: the address of the first one that fits.\<close>

primrec find_iface :: "heap \<Rightarrow> ptr \<Rightarrow> int \<Rightarrow> iface list \<Rightarrow> ptr option" where
  "find_iface h to family [] = Some Null"
| "find_iface h to family (node # list) =
     (if ifa_addr node = Null then find_iface h to family list
      else do {
        af \<leftarrow> le_get16 h (ifa_addr node);
        if uint af \<noteq> family then find_iface h to family list
        else do {
          same \<leftarrow> eq h (ifa_name node) to;
          if same then Some (ifa_addr node) else find_iface h to family list } })"

definition getbind_iface :: "iface list option \<Rightarrow> heap \<Rightarrow> ptr \<Rightarrow> int \<Rightarrow> ptr \<Rightarrow> 16 word \<Rightarrow> (bool \<times> heap) option" where
  "getbind_iface ifs h to family st port =
     (case ifs of None \<Rightarrow> Some (False, h)
      | Some list \<Rightarrow> do {
          addr \<leftarrow> find_iface h to family list;
          if addr = Null then Some (False, h)
          else do {
            len \<leftarrow> cpr_socklen h addr;
            (_, h) \<leftarrow> cpr_memcpy h st sockaddr_sizeof addr len;
            (_, h) \<leftarrow> cpr_addport h st port;
            Some (True, h) } })"

definition cpr_getbind :: "inet_pton \<Rightarrow> iface list option \<Rightarrow> heap \<Rightarrow> ptr \<Rightarrow> int \<Rightarrow> ptr \<Rightarrow> 16 word \<Rightarrow> ptr \<Rightarrow> (bool \<times> heap) option" where
  "cpr_getbind pton ifs h to family st port star = do {
     (_, h) \<leftarrow> cpr_memset h st 0 sockaddr_sizeof;
     if (family \<noteq> uint AF_INET \<and> family \<noteq> uint AF_INET6) \<or> to = Null then Some (False, h)
     else do {
       c \<leftarrow> load h to;
       if c = 0 then Some (False, h)
       else do {
         cmp \<leftarrow> c_strcmp h to star;
         if cmp = 0 then do {
           h \<leftarrow> le_set16 h st (word_of_int family);
           (_, h) \<leftarrow> cpr_addport h st port;
           Some (True, h) }
         else do {
           dot \<leftarrow> (if family = uint AF_INET then c_strchr h to 46 else Some Null);
           colon \<leftarrow> (if dot = Null \<and> family = uint AF_INET6 then c_strchr h to 58 else Some Null);
           (r, h) \<leftarrow>
             (if dot \<noteq> Null then do {
                h \<leftarrow> le_set16 h st AF_INET;
                (_, h) \<leftarrow> cpr_addport h st port;
                c_inet_pton pton h AF_INET to (sin_addr st) }
              else if colon \<noteq> Null then do {
                h \<leftarrow> le_set16 h st AF_INET6;
                (_, h) \<leftarrow> cpr_addport h st port;
                c_inet_pton pton h AF_INET6 to (sin6_addr st) }
              else Some (0, h));
           if r = 1 then Some (True, h) else getbind_iface ifs h to family st port } } } }"

text \<open>
  \<open>gai\<close> is the resolver: for a host, a service, a family and a type the address of the first result
  and its length, or \<^const>\<open>None\<close> for an error or an empty list. The hints are built from the
  arguments.
\<close>

definition cpr_gethost :: "(ptr \<Rightarrow> ptr \<Rightarrow> int \<Rightarrow> int \<Rightarrow> (ptr \<times> size_t) option) \<Rightarrow> heap \<Rightarrow> ptr \<Rightarrow> ptr \<Rightarrow> int \<Rightarrow> int \<Rightarrow> ptr \<Rightarrow> (bool \<times> heap) option" where
  "cpr_gethost gai h host service family type st =
     (if host = Null then Some (False, h)
      else if family \<noteq> uint AF_INET \<and> family \<noteq> uint AF_INET6 then Some (False, h)
      else (case gai host service family type of None \<Rightarrow> Some (False, h)
        | Some (addr, len) \<Rightarrow> do {
            (_, h) \<leftarrow> cpr_memcpy h st sockaddr_sizeof addr len;
            Some (True, h) }))"

subsection \<open>Addresses as lists of bytes\<close>

definition sockaddr :: "16 word \<Rightarrow> 16 word \<Rightarrow> byte list \<Rightarrow> byte list" where
  "sockaddr family port a = le_bytes family @ be_bytes port @
     (if family = AF_INET then a @ replicate 120 0 else replicate 4 0 @ a @ replicate 104 0)"

definition addr_len :: "16 word \<Rightarrow> nat" where
  "addr_len family = (if family = AF_INET then 4 else 16)"

text \<open>The family and the address a text stands for, by the character it contains.\<close>

definition addr_parse :: "inet_pton \<Rightarrow> byte list \<Rightarrow> (16 word \<times> byte list) option" where
  "addr_parse pton s =
     (if 46 \<in> set s then map_option (Pair AF_INET) (pton AF_INET s)
      else if 58 \<in> set s then map_option (Pair AF_INET6) (pton AF_INET6 s)
      else None)"

text \<open>\<open>pton_sizes pton\<close>: an IPv4 address has four bytes, an IPv6 address sixteen.\<close>

definition pton_sizes :: "inet_pton \<Rightarrow> bool" where
  "pton_sizes pton \<longleftrightarrow> (\<forall>s a. (pton AF_INET s = Some a \<longrightarrow> length a = 4) \<and> (pton AF_INET6 s = Some a \<longrightarrow> length a = 16))"

text \<open>
  \<open>inet_forms pton ntop\<close>: what the C library documents of the texts \<open>inet_ntop\<close> writes. They are the
  standard forms, so \<open>inet_pton\<close> reads the same address from them; they fit into
  \<^verbatim>\<open>INET6_ADDRSTRLEN\<close> bytes with their terminator; an IPv4 address has dots and an IPv6 address
  colons. Nothing is said of the other texts that \<open>inet_pton\<close> reads: many texts stand for one address.
\<close>

definition inet_forms :: "inet_pton \<Rightarrow> inet_ntop \<Rightarrow> bool" where
  "inet_forms pton ntop \<longleftrightarrow>
     (\<forall>f a t. f = AF_INET \<or> f = AF_INET6 \<longrightarrow> ntop f a = Some t \<longrightarrow>
        pton f t = Some a \<and> length t \<le> 45 \<and> 0 \<notin> set t \<and> (if f = AF_INET then 46 else 58) \<in> set t)"

lemma AF_distinct [simp]: "AF_INET \<noteq> AF_INET6" "AF_INET6 \<noteq> AF_INET" "AF_INET \<noteq> AF_UNSPEC" "AF_INET6 \<noteq> AF_UNSPEC"
  "AF_UNSPEC \<noteq> AF_INET" "AF_UNSPEC \<noteq> AF_INET6"
  by (simp_all add: AF_INET_def AF_INET6_def AF_UNSPEC_def)

lemma sockaddr_offsets [simp]:
  "sin_port (Ptr b 0) = Ptr b 2" "sin_addr (Ptr b 0) = Ptr b 4" "sin6_addr (Ptr b 0) = Ptr b 8"
  by (simp_all add: sin_port_def sin_addr_def sin6_addr_def)

lemma word_bytes_zero: "le_bytes (0 :: 16 word) = replicate 2 0" "be_bytes (0 :: 16 word) = replicate 2 0"
  by (simp_all add: be_bytes_def le_bytes_16 numeral_2_eq_2)

lemma length_word_bytes [simp]: "length (le_bytes (v :: 16 word)) = 2" "length (be_bytes (v :: 16 word)) = 2"
  by (simp_all add: be_bytes_def)

lemma length_sockaddr [simp]: "length a = addr_len family \<Longrightarrow> length (sockaddr family port a) = 128"
  by (simp add: sockaddr_def addr_len_def)

lemma sockaddr_zero: "replicate 128 0 = sockaddr AF_UNSPEC 0 (replicate 16 0)"
  by (simp add: sockaddr_def) (simp add: AF_UNSPEC_def word_bytes_zero flip: replicate_add)

text \<open>The fields of an address in the store.\<close>

lemma sockaddr_family:
  assumes "hblk h b = Some (le_bytes f @ rest)"
  shows "le_get16 h (Ptr b 0) = Some f"
    and "le_set16 h (Ptr b 0) g = Some (put_block h b (le_bytes g @ rest))"
  using le16.getw_reads [of h b "[]" f rest] le16.setw_writes [of h b "[]" "le_bytes f" rest g] assms by simp_all

lemma sockaddr_port:
  assumes "hblk h b = Some (le_bytes (f :: 16 word) @ be_bytes (p :: 16 word) @ rest)"
  shows "be_set16 h (Ptr b 2) q = Some (put_block h b (le_bytes f @ be_bytes q @ rest))"
  using be16.setw_writes [of h b "le_bytes f" "be_bytes p" rest q] assms by simp

lemma cpr_addport_block:
  assumes "hblk h b = Some (le_bytes f @ be_bytes p @ rest)"
  shows "cpr_addport h (Ptr b 0) q =
    Some (f = AF_INET, put_block h b (le_bytes f @ be_bytes (if f = AF_INET then q else p) @ rest))"
  using assms by (simp add: cpr_addport_def sockaddr_family(1) [OF assms] sockaddr_port [OF assms])

lemma c_inet_pton_block:
  assumes "cstr h src s" and "ptr_block src \<noteq> b"
    and "hblk h b = Some (pre @ replicate (addr_len af) 0 @ post)" and "length pre = k"
    and "\<And>a. pton af s = Some a \<Longrightarrow> length a = addr_len af"
  shows "c_inet_pton pton h af src (Ptr b k) =
    Some (case pton af s of None \<Rightarrow> (0, h) | Some a \<Rightarrow> (1, put_block h b (pre @ a @ post)))"
proof -
  have "load_list h src (length s) = Some s" by (rule load_list_cstr [OF assms(1), of "length s", simplified])
  moreover have "pton af s = Some a \<Longrightarrow> store_list h (Ptr b k) a = Some (put_block h b (pre @ a @ post))" for a
    using store_list_mid [OF assms(3,4), of a] assms(5) by simp
  ultimately show ?thesis using c_strlen_cstr [OF assms(1)] by (simp add: c_inet_pton_def split: option.splits)
qed


lemma pton_len: "pton_sizes pton \<Longrightarrow> f = AF_INET \<or> f = AF_INET6 \<Longrightarrow> pton f s = Some a \<Longrightarrow> length a = addr_len f"
  by (auto simp: pton_sizes_def addr_len_def)

text \<open>Two views of the block that an IPv4 and an IPv6 address is stored into.\<close>

lemma sockaddr_room:
  "le_bytes f @ be_bytes p @ replicate 124 0 = (le_bytes f @ be_bytes p) @ replicate (addr_len AF_INET) 0 @ replicate 120 (0 :: byte)"
  "le_bytes f @ be_bytes p @ replicate 124 0 = (le_bytes f @ be_bytes p @ replicate 4 0) @ replicate (addr_len AF_INET6) 0 @ replicate 104 (0 :: byte)"
  by (simp_all add: addr_len_def flip: replicate_add)

lemma inet_pton_sockaddr:
  assumes "cstr h src s" and "ptr_block src \<noteq> b" and "pton_sizes pton"
    and "hblk h b = Some (le_bytes (f :: 16 word) @ be_bytes (p :: 16 word) @ replicate 124 0)"
  shows "c_inet_pton pton h AF_INET src (Ptr b 4) =
      Some (case pton AF_INET s of None \<Rightarrow> (0, h) | Some a \<Rightarrow> (1, put_block h b (le_bytes f @ be_bytes p @ a @ replicate 120 0)))"
    and "c_inet_pton pton h AF_INET6 src (Ptr b 8) =
      Some (case pton AF_INET6 s of None \<Rightarrow> (0, h) | Some a \<Rightarrow> (1, put_block h b (le_bytes f @ be_bytes p @ replicate 4 0 @ a @ replicate 104 0)))"
  using c_inet_pton_block [OF assms(1,2) assms(4) [unfolded sockaddr_room(1)], of 4 pton]
    c_inet_pton_block [OF assms(1,2) assms(4) [unfolded sockaddr_room(2)], of 8 pton] pton_len [OF assms(3)]
  by (simp_all split: option.split)

text \<open>The same on a store whose last change was to the address, as rewrite rules.\<close>

lemma sockaddr_put:
  "le_get16 (put_block h b (le_bytes f @ rest)) (Ptr b 0) = Some f"
  "le_set16 (put_block h b (le_bytes f @ rest)) (Ptr b 0) g = Some (put_block h b (le_bytes g @ rest))"
  "be_set16 (put_block h b (le_bytes f @ be_bytes p @ rest)) (Ptr b 2) q = Some (put_block h b (le_bytes f @ be_bytes q @ rest))"
  "cpr_addport (put_block h b (le_bytes f @ be_bytes p @ rest)) (Ptr b 0) q =
     Some (f = AF_INET, put_block h b (le_bytes f @ be_bytes (if f = AF_INET then q else p) @ rest))"
  for f p :: "16 word"
proof -
  have f: "hblk (put_block h b (le_bytes f @ rest)) b = Some (le_bytes f @ rest)" by simp
  have p: "hblk (put_block h b (le_bytes f @ be_bytes p @ rest)) b = Some (le_bytes f @ be_bytes p @ rest)" by simp
  show "le_get16 (put_block h b (le_bytes f @ rest)) (Ptr b 0) = Some f" by (rule sockaddr_family(1) [OF f])
  show "le_set16 (put_block h b (le_bytes f @ rest)) (Ptr b 0) g = Some (put_block h b (le_bytes g @ rest))"
    using sockaddr_family(2) [OF f] by simp
  show "be_set16 (put_block h b (le_bytes f @ be_bytes p @ rest)) (Ptr b 2) q = Some (put_block h b (le_bytes f @ be_bytes q @ rest))"
    using sockaddr_port [OF p] by simp
  show "cpr_addport (put_block h b (le_bytes f @ be_bytes p @ rest)) (Ptr b 0) q =
     Some (f = AF_INET, put_block h b (le_bytes f @ be_bytes (if f = AF_INET then q else p) @ rest))"
    using cpr_addport_block [OF p] by simp
qed

lemma inet_pton_put:
  fixes f p :: "16 word"
  assumes "cstr (put_block h b (le_bytes f @ be_bytes p @ replicate 124 0)) src s" and "ptr_block src \<noteq> b" and "pton_sizes pton"
  shows "c_inet_pton pton (put_block h b (le_bytes f @ be_bytes p @ replicate 124 0)) AF_INET src (Ptr b 4) =
      Some (case pton AF_INET s of None \<Rightarrow> (0, put_block h b (le_bytes f @ be_bytes p @ replicate 124 0))
        | Some a \<Rightarrow> (1, put_block h b (le_bytes f @ be_bytes p @ a @ replicate 120 0)))"
    and "c_inet_pton pton (put_block h b (le_bytes f @ be_bytes p @ replicate 124 0)) AF_INET6 src (Ptr b 8) =
      Some (case pton AF_INET6 s of None \<Rightarrow> (0, put_block h b (le_bytes f @ be_bytes p @ replicate 124 0))
        | Some a \<Rightarrow> (1, put_block h b (le_bytes f @ be_bytes p @ replicate 4 0 @ a @ replicate 104 0)))"
proof -
  have "hblk (put_block h b (le_bytes f @ be_bytes p @ replicate 124 0)) b = Some (le_bytes f @ be_bytes p @ replicate 124 0)" by simp
  note eqs = inet_pton_sockaddr [OF assms this]
  show "c_inet_pton pton (put_block h b (le_bytes f @ be_bytes p @ replicate 124 0)) AF_INET src (Ptr b 4) =
      Some (case pton AF_INET s of None \<Rightarrow> (0, put_block h b (le_bytes f @ be_bytes p @ replicate 124 0))
        | Some a \<Rightarrow> (1, put_block h b (le_bytes f @ be_bytes p @ a @ replicate 120 0)))"
    using eqs(1) by (simp split: option.split)
  show "c_inet_pton pton (put_block h b (le_bytes f @ be_bytes p @ replicate 124 0)) AF_INET6 src (Ptr b 8) =
      Some (case pton AF_INET6 s of None \<Rightarrow> (0, put_block h b (le_bytes f @ be_bytes p @ replicate 124 0))
        | Some a \<Rightarrow> (1, put_block h b (le_bytes f @ be_bytes p @ replicate 4 0 @ a @ replicate 104 0)))"
    using eqs(2) by (simp split: option.split)
qed


lemma cpr_memset_sockaddr:
  assumes "hblk h b = Some old" and "length old = 128"
  shows "cpr_memset h (Ptr b 0) 0 sockaddr_sizeof =
    Some (Ptr b 0, put_block h b (le_bytes AF_UNSPEC @ be_bytes (0 :: 16 word) @ replicate 124 0))"
  using cpr_memset_whole [OF assms(1), of 0] assms(2)
  by (simp add: sockaddr_sizeof_def AF_UNSPEC_def word_bytes_zero flip: replicate_add)

subsection \<open>Setting an address\<close>

lemma cpr_setaddr_parses:
  assumes "pton_sizes pton" and "hblk h b = Some old" and "length old = 128"
    and "cstr h addr s" and "s \<noteq> []" and "ptr_block addr \<noteq> b"
  shows "cpr_setaddr pton h (Ptr b 0) addr port =
    Some (case addr_parse pton s of None \<Rightarrow> (AF_UNSPEC, put_block h b (replicate 128 0))
      | Some (f, a) \<Rightarrow> (f, put_block h b (sockaddr f port a)))"
proof -
  define z where "z = le_bytes AF_UNSPEC @ be_bytes (0 :: 16 word) @ replicate 124 0"
  have s: "cstr (put_block h b z) addr s" using assms(4,6) by (auto intro: cstr_same_block)
  have c: "load (put_block h b z) addr = Some (s ! 0)" "s ! 0 \<noteq> 0" "addr \<noteq> Null" using s assms(5) by (cases s; auto)+
  have zero: "replicate 128 0 = z" by (simp add: z_def AF_UNSPEC_def word_bytes_zero flip: replicate_add)
  have z0: "le_get16 (put_block h b z) (Ptr b 0) = Some AF_UNSPEC" by (simp add: z_def sockaddr_put)
  note sim = cpr_setaddr_def cpr_memset_sockaddr [OF assms(2,3), folded z_def] c c_strchr_cstr [OF s]
    inet_pton_put [OF s [unfolded z_def] assms(6,1), folded z_def] sockaddr_put addr_parse_def sockaddr_def zero z0
  consider "46 \<in> set s" | "46 \<notin> set s" "58 \<in> set s" | "46 \<notin> set s" "58 \<notin> set s" by blast
  then show ?thesis
  proof cases
    case 1
    then show ?thesis by (cases "pton AF_INET s") (simp_all add: sim)
  next
    case 2
    then show ?thesis by (cases "pton AF_INET6 s") (simp_all add: sim)
  next
    case 3
    then show ?thesis by (simp add: sim)
  qed
qed

subsection \<open>Reading an address back\<close>

lemma load_list_sockaddr:
  assumes "hblk h b = Some (sockaddr f port a)" and "length a = addr_len f"
  shows "f = AF_INET \<Longrightarrow> load_list h (Ptr b 4) 4 = Some a"
    and "f = AF_INET6 \<Longrightarrow> load_list h (Ptr b 8) 16 = Some a"
  using assms load_list_mid [of h b "le_bytes f @ be_bytes port" a "replicate 120 0" 4 4]
    load_list_mid [of h b "le_bytes f @ be_bytes port @ replicate 4 0" a "replicate 104 0" 8 16]
  by (auto simp: sockaddr_def addr_len_def)

lemma cpr_getaddr_text:
  assumes "heap_ok h" and "\<forall>n m. hgrant h n m"
    and "hblk h b = Some (sockaddr f port a)" and "f = AF_INET \<or> f = AF_INET6" and "length a = addr_len f"
    and "hblk h c = Some room" and "length room = 47" and "c \<noteq> b"
    and "ntop f a = Some s" and "length s \<le> 46" and "0 \<notin> set s"
  shows "\<exists>p h'. cpr_getaddr ntop (Ptr c 0) star h (Ptr b 0) = Some (p, h') \<and> cstr h' p s \<and>
    hblk h' b = hblk h b \<and> ptr_block p \<noteq> b"
proof -
  obtain front rear where room: "room[0 := 0] = front @ rear" "length front = length s + 1"
    using assms(7,10) by (intro that [OF append_take_drop_id [symmetric], of "length s + 1"]) simp
  define h1 where "h1 = put_block h c (front @ rear)"
  define h2 where "h2 = put_block h c (s @ [0] @ rear)"
  have h1: "store h (Ptr c 0) 0 = Some h1" using assms(6,7) room(1) by (simp add: store_Ptr h1_def)
  have b: "hblk h1 b = Some (sockaddr f port a)" using assms(3,8) by (simp add: h1_def)
  have fam: "le_get16 h1 (Ptr b 0) = Some f" using sockaddr_family(1) [of h1 b f] b by (simp add: sockaddr_def)
  have "store_list h1 (Ptr c 0) (s @ [0]) = Some h2"
    using store_list_mid [of h1 c "[]" front rear 0 "s @ [0]"] room(2) by (simp add: h1_def h2_def)
  then have "c_inet_ntop ntop h1 f (if f = AF_INET then Ptr b 4 else Ptr b 8) (Ptr c 0) 47 = Some (Ptr c 0, h2)"
    using load_list_sockaddr [OF b assms(5)] assms(4,9,10) by (auto simp: c_inet_ntop_def)
  moreover have s2: "cstr h2 (Ptr c 0) s"
    using cstr_mid [of h2 c "[]" s rear 0] assms(11) by (simp add: h2_def)
  moreover obtain h' where "cpr_strdup h2 (Ptr c 0) 47 = Some (Ptr (hseq h2) 0, h')" "hblk h' = (hblk h2)(hseq h2 \<mapsto> s @ [0])"
  proof -
    have ok: "heap_ok h2" using assms(1,6) by (auto simp: h2_def intro: heap_ok_put_block heap_ok_live)
    have small: "length s + 1 < 2 ^ 64" using assms(10) by simp
    have clip: "clip 47 s = s" using assms(10) by (simp add: clip_def)
    have grant: "hgrant h2 (hseq h2) (length (clip 47 s) + 1)" using assms(2) by (simp add: h2_def)
    show ?thesis using sdup.dup_granted [OF ok s2 small grant] that clip by auto
  qed
  moreover have "hseq h2 \<noteq> b" using heap_ok_live [OF assms(1,3)] by (simp add: h2_def)
  moreover have "cstr h' (Ptr (hseq h2) 0) s" if "hblk h' = (hblk h2)(hseq h2 \<mapsto> s @ [0])" for h'
    using cstr_mid [of h' "hseq h2" "[]" s "[]" 0] assms(11) that by simp
  moreover have "hblk h2 b = hblk h b" using assms(8) by (simp add: h2_def)
  ultimately show ?thesis using h1 fam assms(4) by (auto simp: cpr_getaddr_def)
qed

text \<open>
  C17. Setting any text the library reads as an address, of either family, leaves the structure with
  exactly the family, the port in network order and the address, and zeros everywhere else.
  Reading it back gives a fresh string with the text the library writes for that address, which need
  not be the one that was set, and leaves the structure as it is. Setting that text gives the same
  family and address again. The texts of the library are assumed to be in the documented forms, memory
  to be granted, and an IPv6 text to be without dots (see \<open>mapped_address_refused\<close>).
\<close>

theorem address_roundtrip:
  assumes "pton_sizes pton" and "inet_forms pton ntop"
    and "addr_parse pton s = Some (f, a)" and "ntop f a = Some t" and "f = AF_INET6 \<longrightarrow> 46 \<notin> set t"
    and "heap_ok h" and "\<forall>n m. hgrant h n m" and "cstr h addr s"
    and "hblk h b = Some old" and "length old = 128" and "hblk h c = Some room" and "length room = 47"
    and "ptr_block addr \<noteq> b" and "c \<noteq> b"
  shows "\<exists>h1 p h2. cpr_setaddr pton h (Ptr b 0) addr port = Some (f, h1) \<and> h1 = put_block h b (sockaddr f port a) \<and>
    cpr_getaddr ntop (Ptr c 0) star h1 (Ptr b 0) = Some (p, h2) \<and> cstr h2 p t \<and>
    hblk h2 b = Some (sockaddr f port a) \<and>
    cpr_setaddr pton h2 (Ptr b 0) p port' = Some (f, put_block h2 b (sockaddr f port' a))"
proof -
  let ?h = "put_block h b (sockaddr f port a)"
  have fam: "f = AF_INET \<or> f = AF_INET6" "pton f s = Some a" and ne: "s \<noteq> []"
    using assms(3) by (auto simp: addr_parse_def split: if_splits)
  have len: "length a = addr_len f" using pton_len [OF assms(1) fam] .
  have form: "pton f t = Some a" "length t \<le> 45" "0 \<notin> set t" "(if f = AF_INET then 46 else 58) \<in> set t"
    using assms(2,4) fam(1) unfolding inet_forms_def by blast+
  have parse: "addr_parse pton t = Some (f, a)" and ne': "t \<noteq> []"
    using form(1,4) fam(1) assms(5) by (auto simp: addr_parse_def split: if_splits)
  have ok: "heap_ok ?h" using assms(6,9) by (auto intro: heap_ok_put_block heap_ok_live)
  have "\<exists>p h'. cpr_getaddr ntop (Ptr c 0) star ?h (Ptr b 0) = Some (p, h') \<and> cstr h' p t \<and>
      hblk h' b = hblk ?h b \<and> ptr_block p \<noteq> b"
    by (rule cpr_getaddr_text [OF ok _ _ fam(1) len]) (use assms form in auto)
  then obtain p h2 where g: "cpr_getaddr ntop (Ptr c 0) star ?h (Ptr b 0) = Some (p, h2)" "cstr h2 p t"
    "hblk h2 b = Some (sockaddr f port a)" "ptr_block p \<noteq> b" by auto
  have "cpr_setaddr pton h2 (Ptr b 0) p port' = Some (f, put_block h2 b (sockaddr f port' a))"
    using cpr_setaddr_parses [OF assms(1) g(3) length_sockaddr [OF len] g(2) ne' g(4)] parse by simp
  then show ?thesis using cpr_setaddr_parses [OF assms(1,9,10,8) ne assms(13), of port] assms(3) g(1-3) by auto
qed

text \<open>Library conversions that know a few addresses, among them the multicast group of \<^verbatim>\<open>multicast.h\<close>.\<close>

definition ten_pton :: inet_pton where
  "ten_pton f s = (if f = AF_INET \<and> s = str_bytes ''10.0.0.1'' then Some [10, 0, 0, 1]
     else if f = AF_INET6 \<and> s = str_bytes ''::1'' then Some (replicate 15 0 @ [1])
     else if f = AF_INET6 \<and> s = str_bytes ''::ffff:1.2.3.4'' then Some (replicate 10 0 @ [255, 255, 1, 2, 3, 4])
     else if f = AF_INET6 \<and> (s = str_bytes ''FF35::1234'' \<or> s = str_bytes ''ff35::1234'')
       then Some ([255, 53] @ replicate 12 0 @ [18, 52])
     else None)"

definition ten_ntop :: inet_ntop where
  "ten_ntop f a = (if f = AF_INET \<and> a = [10, 0, 0, 1] then Some (str_bytes ''10.0.0.1'')
     else if f = AF_INET6 \<and> a = replicate 15 0 @ [1] then Some (str_bytes ''::1'')
     else if f = AF_INET6 \<and> a = replicate 10 0 @ [255, 255, 1, 2, 3, 4] then Some (str_bytes ''::ffff:1.2.3.4'')
     else if f = AF_INET6 \<and> a = [255, 53] @ replicate 12 0 @ [18, 52] then Some (str_bytes ''ff35::1234'')
     else None)"

lemma ten_forms: "inet_forms ten_pton ten_ntop"
  by (auto simp: inet_forms_def ten_ntop_def ten_pton_def str_bytes_def char_byte_def split: if_splits)

lemma ten_sizes: "pton_sizes ten_pton"
  by (auto simp: pton_sizes_def ten_pton_def)

definition ten_heap :: "string \<Rightarrow> heap" where
  "ten_heap s = heap_of [replicate 128 7, replicate 47 7, str_bytes s @ [0], [42, 0]]"

lemma ten_heap_simps [simp]:
  "heap_ok (ten_heap s)" "hgrant (ten_heap s) n m"
  "hblk (ten_heap s) 0 = Some (replicate 128 7)" "hblk (ten_heap s) 1 = Some (replicate 47 7)"
  "hblk (ten_heap s) (Suc 0) = Some (replicate 47 7)"
  "cstr (ten_heap s) (Ptr 3 0) [42]"
  "load (ten_heap s) (Ptr 3 0) = Some 42" "load (ten_heap s) (Ptr 3 (Suc 0)) = Some 0"
  by (simp_all add: ten_heap_def load_Ptr)

lemma ten_heap_text: "0 \<notin> set (str_bytes s) \<Longrightarrow> cstr (ten_heap s) (Ptr 2 0) (str_bytes s)"
  by (rule cstr_mid [where pre = "[]" and post = "[]"]) (simp_all add: ten_heap_def)

theorem address_roundtrip_witness:
  "\<exists>h1 p h2. cpr_setaddr ten_pton (ten_heap ''FF35::1234'') (Ptr 0 0) (Ptr 2 0) 80 = Some (AF_INET6, h1) \<and>
    hblk h1 0 = Some ([10, 0, 0, 80] @ replicate 4 0 @ [255, 53] @ replicate 12 0 @ [18, 52] @ replicate 104 0) \<and>
    cpr_getaddr ten_ntop (Ptr 1 0) (Ptr 3 0) h1 (Ptr 0 0) = Some (p, h2) \<and> cstr h2 p (str_bytes ''ff35::1234'') \<and>
    cpr_setaddr ten_pton h2 (Ptr 0 0) p 81 =
      Some (AF_INET6, put_block h2 0 ([10, 0, 0, 81] @ replicate 4 0 @ [255, 53] @ replicate 12 0 @ [18, 52] @ replicate 104 0))"
proof -
  define a :: "byte list" where "a = [255, 53] @ replicate 12 0 @ [18, 52]"
  have tx: "str_bytes ''FF35::1234'' = [70, 70, 51, 53, 58, 58, 49, 50, 51, 52]"
    "str_bytes ''ff35::1234'' = [102, 102, 51, 53, 58, 58, 49, 50, 51, 52]" by (simp_all add: str_bytes_def char_byte_def)
  have s: "addr_parse ten_pton (str_bytes ''FF35::1234'') = Some (AF_INET6, a)"
      "ten_ntop AF_INET6 a = Some (str_bytes ''ff35::1234'')" "46 \<notin> set (str_bytes ''ff35::1234'')"
      "0 \<notin> set (str_bytes ''FF35::1234'')"
    by (simp_all add: tx a_def addr_parse_def ten_pton_def ten_ntop_def) (simp_all add: str_bytes_def char_byte_def)
  have bytes: "sockaddr AF_INET6 q a = [10, 0] @ be_bytes q @ replicate 4 0 @ [255, 53] @ replicate 12 0 @ [18, 52] @ replicate 104 0" for q
    by (simp add: sockaddr_def a_def) (simp add: AF_INET6_def le_bytes_16)
  have ports: "be_bytes (80 :: 16 word) = [0, 80]" "be_bytes (81 :: 16 word) = [0, 81]" by (simp_all add: be_bytes_def le_bytes_16)
  from address_roundtrip [OF ten_sizes ten_forms s(1,2) _ _ _ ten_heap_text [OF s(4)], of 0 "replicate 128 7" 1 "replicate 47 7" 80 "Ptr 3 0" 81] s(3)
  show ?thesis by (simp add: bytes ports del: One_nat_def) (auto simp: bytes ports)
qed


text \<open>
  An IPv6 address that embeds an IPv4 one is refused: its text contains a dot, so it is only tried as
  an IPv4 address, although the library knows it as an IPv6 address.
\<close>

theorem mapped_address_refused:
  assumes "pton_sizes pton" and "pton AF_INET6 s = Some a" and "pton AF_INET s = None" and "46 \<in> set s"
    and "cstr h addr s" and "hblk h b = Some old" and "length old = 128" and "ptr_block addr \<noteq> b"
  shows "cpr_setaddr pton h (Ptr b 0) addr port = Some (AF_UNSPEC, put_block h b (replicate 128 0))"
proof -
  have "s \<noteq> []" using assms(4) by auto
  from cpr_setaddr_parses [OF assms(1,6,7,5) this assms(8), of port] assms(3,4) show ?thesis by (simp add: addr_parse_def)
qed

theorem mapped_address_refused_witness:
  "cpr_setaddr ten_pton (ten_heap ''::ffff:1.2.3.4'') (Ptr 0 0) (Ptr 2 0) 80 =
     Some (AF_UNSPEC, put_block (ten_heap ''::ffff:1.2.3.4'') 0 (replicate 128 0))"
proof -
  have tx: "str_bytes ''::ffff:1.2.3.4'' = [58, 58, 102, 102, 102, 102, 58, 49, 46, 50, 46, 51, 46, 52]"
    by (simp add: str_bytes_def char_byte_def)
  have pt: "ten_pton AF_INET6 (str_bytes ''::ffff:1.2.3.4'') = Some (replicate 10 0 @ [255, 255, 1, 2, 3, 4])"
      "ten_pton AF_INET (str_bytes ''::ffff:1.2.3.4'') = None" "46 \<in> set (str_bytes ''::ffff:1.2.3.4'')"
      "0 \<notin> set (str_bytes ''::ffff:1.2.3.4'')"
    by (simp_all add: ten_pton_def str_bytes_def char_byte_def)
  show ?thesis
    using mapped_address_refused [OF ten_sizes pt(1-3) ten_heap_text [OF pt(4)], of 0 "replicate 128 7" 80] by simp
qed

subsection \<open>Addresses to bind to\<close>

text \<open>The family as the \<^verbatim>\<open>int\<close> the function takes and the character that marks its texts.\<close>

definition af_mark :: "16 word \<Rightarrow> byte" where
  "af_mark f = (if f = AF_INET then 46 else 58)"

lemma uint_AF [simp]: "uint AF_INET = 2" "uint AF_INET6 = 10"
  by (simp_all add: AF_INET_def AF_INET6_def)

lemma AF_numerals: "2 = AF_INET" "10 = AF_INET6"
  by (simp_all add: AF_INET_def AF_INET6_def)

text \<open>
  C37. Binding to every address of a family or to a literal address gives the family and the address, but
  the port only for IPv4: for IPv6 the port of the result is zero whatever was asked for, because
  the second test of \<^verbatim>\<open>cpr_addport\<close> repeats the first.
\<close>

theorem getbind_drops_ipv6_port:
  assumes "pton_sizes pton" and "f = AF_INET \<or> f = AF_INET6" and "hblk h b = Some old" and "length old = 128"
    and "cstr h to s" and "ptr_block to \<noteq> b" and "cstr h star [42]" and "ptr_block star \<noteq> b"
    and "s = [42] \<and> a = replicate (addr_len f) 0 \<or> s \<noteq> [42] \<and> af_mark f \<in> set s \<and> pton f s = Some a"
  shows "cpr_getbind pton ifs h to (uint f) (Ptr b 0) port star =
    Some (True, put_block h b (sockaddr f (if f = AF_INET then port else 0) a))"
proof -
  define z where "z = le_bytes AF_UNSPEC @ be_bytes (0 :: 16 word) @ replicate 124 0"
  have s: "cstr (put_block h b z) to s" by (rule cstr_same_block [OF assms(5)]) (use assms(6) in simp)
  have star: "cstr (put_block h b z) star [42]" by (rule cstr_same_block [OF assms(7)]) (use assms(8) in simp)
  have ne: "s \<noteq> []" using assms(9) by auto
  have c: "load (put_block h b z) to = Some (s ! 0)" "s ! 0 \<noteq> 0" "to \<noteq> Null" using s ne by (cases s; auto)+
  obtain r where r: "c_strcmp (put_block h b z) to star = Some r" "r = 0 \<longleftrightarrow> s = [42]"
    using c_strcmp_cstr [OF s star] by blast
  have z1: "le_set16 (put_block h b z) (Ptr b 0) g = Some (put_block h b (le_bytes g @ be_bytes (0 :: 16 word) @ replicate 124 0))" for g
    by (simp add: z_def sockaddr_put)
  have s': "cstr (put_block h b bs) to s" for bs by (rule cstr_same_block [OF assms(5)]) (use assms(6) in simp)
  have m: "cpr_memset h (Ptr b 0) 0 sockaddr_sizeof = Some (Ptr b 0, put_block h b z)"
    using cpr_memset_sockaddr [OF assms(3,4)] by (simp add: z_def)
  have zeros: "replicate (addr_len AF_INET) 0 @ replicate 120 0 = replicate 124 (0 :: byte)"
      "replicate 4 0 @ replicate (addr_len AF_INET6) 0 @ replicate 104 0 = replicate 124 (0 :: byte)"
    by (simp_all add: addr_len_def flip: replicate_add)
  note sim = AF_numerals cpr_getbind_def m c r z1 sockaddr_put sockaddr_def zeros c_strchr_cstr [OF s] af_mark_def
    inet_pton_put [OF s' assms(6,1)]
  from assms(2,9) [unfolded af_mark_def] consider "f = AF_INET" "s = [42]" "a = replicate (addr_len f) 0" | "f = AF_INET6" "s = [42]" "a = replicate (addr_len f) 0"
    | "f = AF_INET" "s \<noteq> [42]" "46 \<in> set s" "pton f s = Some a" | "f = AF_INET6" "s \<noteq> [42]" "58 \<in> set s" "pton f s = Some a"
    by (auto split: if_splits)
  then show ?thesis by cases (simp_all add: sim)
qed

theorem getbind_drops_ipv6_port_witness:
  "cpr_getbind ten_pton None (ten_heap ''::1'') (Ptr 2 0) 10 (Ptr 0 0) 80 (Ptr 3 0) =
     Some (True, put_block (ten_heap ''::1'') 0 ([10, 0, 0, 0] @ replicate 4 0 @ replicate 15 0 @ [1] @ replicate 104 0))"
proof -
  have s: "0 \<notin> set (str_bytes ''::1'')" "str_bytes ''::1'' \<noteq> [42]" "af_mark AF_INET6 \<in> set (str_bytes ''::1'')"
      "ten_pton AF_INET6 (str_bytes ''::1'') = Some (replicate 15 0 @ [1])"
    by (simp_all add: str_bytes_def char_byte_def af_mark_def ten_pton_def)
  have bytes: "sockaddr AF_INET6 0 (replicate 15 0 @ [1]) = [10, 0, 0, 0] @ replicate 4 0 @ replicate 15 0 @ [1] @ replicate 104 0"
    by (simp add: sockaddr_def) (simp add: AF_INET6_def le_bytes_16 be_bytes_def)
  show ?thesis
    using getbind_drops_ipv6_port [OF ten_sizes, of AF_INET6 "ten_heap ''::1''" 0 "replicate 128 7" "Ptr 2 0" "str_bytes ''::1''" "Ptr 3 0"
        "replicate 15 0 @ [1]" None 80] ten_heap_text [OF s(1)] s by (simp add: bytes)
qed

subsection \<open>Addresses of interfaces\<close>

text \<open>
  An interface as its name and its address, if it has one: the family, the port and the bytes
  behind. \<open>iface_at h b i e\<close>: the structures at \<open>i\<close> say so and lie outside the block \<open>b\<close>.
\<close>

type_synonym iface_entry = "byte list \<times> (16 word \<times> 16 word \<times> byte list) option"

fun iface_at :: "heap \<Rightarrow> nat \<Rightarrow> 'a iface_scheme \<Rightarrow> iface_entry \<Rightarrow> bool" where
  "iface_at h b i (name, None) \<longleftrightarrow> cstr h (ifa_name i) name \<and> ptr_block (ifa_name i) \<noteq> b \<and> ifa_addr i = Null"
| "iface_at h b i (name, Some (f, q, tail)) \<longleftrightarrow> cstr h (ifa_name i) name \<and> ptr_block (ifa_name i) \<noteq> b \<and>
     (\<exists>c pre post. ifa_addr i = Ptr c (length pre) \<and> c \<noteq> b \<and> hblk h c = Some (pre @ (le_bytes f @ be_bytes q @ tail) @ post)) \<and>
     (f = AF_INET \<longrightarrow> length tail = 12) \<and> (f = AF_INET6 \<longrightarrow> length tail = 24)"

fun pick_iface :: "16 word \<Rightarrow> byte list \<Rightarrow> iface_entry list \<Rightarrow> (16 word \<times> byte list) option" where
  "pick_iface f s [] = None"
| "pick_iface f s ((name, None) # es) = pick_iface f s es"
| "pick_iface f s ((name, Some (g, q, tail)) # es) = (if g = f \<and> name = s then Some (q, tail) else pick_iface f s es)"

lemma iface_at_put: "iface_at h b i e \<Longrightarrow> iface_at (put_block h b z) b i e"
  by (induction h b i e rule: iface_at.induct) (auto intro: cstr_same_block)

lemma iface_family: "iface_at h b i (name, Some (f, q, tail)) \<Longrightarrow> le_get16 h (ifa_addr i) = Some f"
  using le16.getw_reads by fastforce

lemma find_iface_picks:
  assumes "cstr h to s" and "f = AF_INET \<or> f = AF_INET6"
  shows "list_all2 (iface_at h b) ifs es \<Longrightarrow>
    (case pick_iface f s es of None \<Rightarrow> find_iface h to (uint f) ifs = Some Null
     | Some (q, tail) \<Rightarrow> \<exists>(i :: iface) name. iface_at h b i (name, Some (f, q, tail)) \<and> find_iface h to (uint f) ifs = Some (ifa_addr i))"
proof (induction rule: list_all2_induct)
  case (Cons i ifs e es)
  obtain name x where e: "e = (name, x)" by (cases e)
  show ?case
  proof (cases x)
    case None
    then show ?thesis using Cons e by (simp split: option.splits prod.splits)
  next
    case (Some y)
    obtain g q tail where y: "x = Some (g, q, tail)" using Some by (cases y) auto
    note at = Cons.hyps(1) [unfolded e y]
    have "ifa_addr i \<noteq> Null" "cpr_equal h (ifa_name i) to = Some (name = s)"
      using at cpr_equal_cstr [OF _ assms(1), of "ifa_name i" name] by auto
    then have ff: "find_iface h to (uint f) (i # ifs) =
        (if g = f \<and> name = s then Some (ifa_addr i) else find_iface h to (uint f) ifs)"
      using iface_family [OF at] by (simp add: eq_def word_uint_eq_iff)
    have pp: "pick_iface f s (e # es) = (if g = f \<and> name = s then Some (q, tail) else pick_iface f s es)" using e y by simp
    show ?thesis unfolding ff pp using Cons.IH at by (auto simp del: iface_at.simps split: option.splits)
  qed
qed simp

lemma getbind_iface_copies:
  fixes i :: iface
  assumes at: "iface_at h b i (name, Some (f, q, tail))" and f: "f = AF_INET \<or> f = AF_INET6"
    and blk: "hblk h b = Some (replicate 128 0)" and find: "find_iface h to family ifs = Some (ifa_addr i)"
  shows "getbind_iface (Some ifs) h to family (Ptr b 0) port =
    Some (True, put_block h b (le_bytes f @ be_bytes (if f = AF_INET then port else q) @ tail @ replicate (124 - length tail) 0))"
proof -
  let ?bs = "le_bytes f @ be_bytes q @ tail"
  obtain c pre post where c: "ifa_addr i = Ptr c (length pre)" "c \<noteq> b" "hblk h c = Some (pre @ ?bs @ post)" using at by auto
  have tail: "length tail = (if f = AF_INET then 12 else 24)" using at f by auto
  have fill: "length ?bs + (124 - length tail) = 128" using tail by simp
  have len: "cpr_socklen h (ifa_addr i) = Some (length ?bs)"
    using iface_family [OF at] c(1) f tail by (auto simp: cpr_socklen_def)
  have "load_list h (ifa_addr i) (length ?bs) = Some ?bs" unfolding c(1) by (rule load_list_mid [OF c(3)]) simp_all
  moreover have "hblk h b = Some ([] @ replicate (length ?bs) 0 @ replicate (124 - length tail) 0)"
    using blk fill by (metis append_Nil replicate_add)
  ultimately have "cpr_memcpy h (Ptr b 0) sockaddr_sizeof (ifa_addr i) (length ?bs) =
      Some (True, put_block h b (?bs @ replicate (124 - length tail) 0))"
    using cpr_memcpy_mid [of h "ifa_addr i" "length ?bs" ?bs b "[]" "replicate (length ?bs) 0" _ sockaddr_sizeof 0] c(1,2) tail
    by (auto simp: sockaddr_sizeof_def)
  then show ?thesis using find len c(1) sockaddr_put(4) [of h b f q "tail @ replicate (124 - length tail) 0" port]
    by (simp add: getbind_iface_def)
qed

text \<open>
  C22. Binding to an interface by its name, one without the mark of the family (a dot or a colon), when the
  system answers with its list of interfaces, gives the address of the first interface with that name and an
  address of the family, in a structure that is zero behind it, and with the port asked for in an
  IPv4 address; it fails, and leaves the structure zero, exactly when there is no such interface.
\<close>

theorem getbind_interface:
  assumes "f = AF_INET \<or> f = AF_INET6" and "hblk h b = Some old" and "length old = 128"
    and "cstr h to s" and "ptr_block to \<noteq> b" and "cstr h star [42]" and "ptr_block star \<noteq> b"
    and "s \<noteq> []" and "s \<noteq> [42]" and "af_mark f \<notin> set s" and "list_all2 (iface_at h b) ifs es"
  shows "cpr_getbind pton (Some ifs) h to (uint f) (Ptr b 0) port star =
    Some (case pick_iface f s es of None \<Rightarrow> (False, put_block h b (replicate 128 0))
      | Some (q, tail) \<Rightarrow> (True, put_block h b
          (le_bytes f @ be_bytes (if f = AF_INET then port else q) @ tail @ replicate (124 - length tail) 0)))"
proof -
  define z :: "byte list" where "z = replicate 128 0"
  have s: "cstr (put_block h b z) to s" by (rule cstr_same_block [OF assms(4)]) (use assms(5) in simp)
  have star: "cstr (put_block h b z) star [42]" by (rule cstr_same_block [OF assms(6)]) (use assms(7) in simp)
  have c: "load (put_block h b z) to = Some (s ! 0)" "s ! 0 \<noteq> 0" "to \<noteq> Null" using s assms(8) by (cases s; auto)+
  obtain r where r: "c_strcmp (put_block h b z) to star = Some r" "r \<noteq> 0"
    using c_strcmp_cstr [OF s star] assms(9) by blast
  have m: "cpr_memset h (Ptr b 0) 0 sockaddr_sizeof = Some (Ptr b 0, put_block h b z)"
    using cpr_memset_whole [OF assms(2), of 0] assms(3) by (simp add: z_def sockaddr_sizeof_def)
  have "cpr_getbind pton (Some ifs) h to (uint f) (Ptr b 0) port star = getbind_iface (Some ifs) (put_block h b z) to (uint f) (Ptr b 0) port"
    using assms(1,10) by (auto simp: cpr_getbind_def m c r c_strchr_cstr [OF s] af_mark_def)
  moreover have "list_all2 (iface_at (put_block h b z) b) ifs es"
    using assms(11) by (rule list_all2_mono) (rule iface_at_put)
  note find = find_iface_picks [OF s assms(1) this]
  have "getbind_iface (Some ifs) (put_block h b z) to (uint f) (Ptr b 0) port =
    Some (case pick_iface f s es of None \<Rightarrow> (False, put_block h b z)
      | Some (q, tail) \<Rightarrow> (True, put_block h b
          (le_bytes f @ be_bytes (if f = AF_INET then port else q) @ tail @ replicate (124 - length tail) 0)))"
  proof (cases "pick_iface f s es")
    case None
    then show ?thesis using find by (simp add: getbind_iface_def)
  next
    case (Some x)
    obtain q tail where x: "x = (q, tail)" by (cases x)
    obtain i :: iface and name where i: "iface_at (put_block h b z) b i (name, Some (f, q, tail))"
        "find_iface (put_block h b z) to (uint f) ifs = Some (ifa_addr i)" using find Some x by (auto simp del: iface_at.simps)
    show ?thesis using getbind_iface_copies [OF i(1) assms(1) _ i(2), of port] Some x by (simp add: z_def)
  qed
  ultimately show ?thesis by (simp only: z_def)
qed

theorem getbind_interface_witness:
  "\<forall>pton. cpr_getbind pton (Some [\<lparr>ifa_name = Ptr 1 0, ifa_addr = Null\<rparr>, \<lparr>ifa_name = Ptr 1 0, ifa_addr = Ptr 2 0\<rparr>])
     (heap_of [replicate 128 7, [101, 48, 0], [2, 0, 0, 9, 10, 0, 0, 1] @ replicate 8 0, [42, 0]]) (Ptr 1 0) 2 (Ptr 0 0) 80 (Ptr 3 0) =
   Some (True, put_block (heap_of [replicate 128 7, [101, 48, 0], [2, 0, 0, 9, 10, 0, 0, 1] @ replicate 8 0, [42, 0]]) 0
     ([2, 0, 0, 80, 10, 0, 0, 1] @ replicate 8 0 @ replicate 112 0))"
proof -
  define h where "h = heap_of [replicate 128 7, [101, 48, 0], [2, 0, 0, 9, 10, 0, 0, 1] @ replicate 8 0, [42, 0]]"
  have blk: "hblk h 0 = Some (replicate 128 7)" "hblk h 1 = Some [101, 48, 0]" "hblk h 3 = Some [42, 0]"
      "hblk h 2 = Some ([] @ (le_bytes AF_INET @ be_bytes (9 :: 16 word) @ ([10, 0, 0, 1] @ replicate 8 0)) @ [])"
    by (simp_all add: h_def AF_INET_def le_bytes_16 be_bytes_def)
  have str: "cstr h (Ptr 1 0) [101, 48]" "cstr h (Ptr 3 0) [42]" using blk by (simp_all add: load_Ptr)
  have at: "iface_at h 0 \<lparr>ifa_name = Ptr 1 0, ifa_addr = Ptr 2 0\<rparr> ([101, 48], Some (AF_INET, 9, [10, 0, 0, 1] @ replicate 8 0))"
    unfolding iface_at.simps by (intro conjI exI [of _ 2] exI [of _ "[]"]) (use blk(4) str in simp_all)
  have ifs: "list_all2 (iface_at h 0) [\<lparr>ifa_name = Ptr 1 0, ifa_addr = Null\<rparr>, \<lparr>ifa_name = Ptr 1 0, ifa_addr = Ptr 2 0\<rparr>]
      [([101, 48], None), ([101, 48], Some (AF_INET, 9, [10, 0, 0, 1] @ replicate 8 0))]"
    using at str(1) by (simp del: cstr.simps)
  have bytes: "le_bytes AF_INET = [2, 0]" "be_bytes (80 :: 16 word) = [0, 80]"
    by (simp_all add: AF_INET_def le_bytes_16 be_bytes_def)
  show ?thesis
    unfolding h_def [symmetric] using getbind_interface [of AF_INET h 0 "replicate 128 7" "Ptr 1 0" "[101, 48]" "Ptr 3 0" _ _ _ 80, OF _ blk(1) _ str(1) _ str(2) _ _ _ _ ifs]
    by (simp add: af_mark_def bytes)
qed


subsection \<open>Resolved hosts\<close>

text \<open>
  What the resolver found is copied to the front of the structure, which is not cleared before; a
  result that is longer than the structure is not copied, and the call still succeeds.
\<close>

lemma cpr_gethost_copies:
  assumes "host \<noteq> Null" and "family = uint AF_INET \<or> family = uint AF_INET6"
    and "gai host service family type = Some (Ptr c k, length bs)" and "load_list h (Ptr c k) (length bs) = Some bs" and "c \<noteq> b"
    and "hblk h b = Some (front @ rest)" and "length front = length bs" and "length (front @ rest) = 128"
  shows "cpr_gethost gai h host service family type (Ptr b 0) = Some (True, put_block h b (bs @ rest))"
  using cpr_memcpy_mid [OF assms(4), of b "[]" front rest sockaddr_sizeof 0] assms
  by (auto simp: cpr_gethost_def sockaddr_sizeof_def)

lemma cpr_gethost_too_long:
  assumes "host \<noteq> Null" and "family = uint AF_INET \<or> family = uint AF_INET6"
    and "gai host service family type = Some (p, n)" and "n > 128"
  shows "cpr_gethost gai h host service family type st = Some (True, h)"
  using assms by (auto simp: cpr_gethost_def cpr_memcpy_def sockaddr_sizeof_def)

end
