(* ===== verification/Multicast.thy ===== *)
theory Multicast
  imports Address
begin

text \<open>
  \<^verbatim>\<open>src/multicast.c\<close> and \<^verbatim>\<open>src/multicast.h\<close> in their POSIX version: a datagram socket on an interface,
  and joining and leaving groups on it. The global \<^verbatim>\<open>if_multicast\<close> is a union of the two membership
  requests of the socket interface; it is a block of 20 bytes in the store, at \<open>ifm\<close>, so that the
  fields share their bytes as they do in C: an IPv4 request is the group and the interface address,
  four bytes each, an IPv6 request the group in 16 bytes and the interface index in four.

  The system calls are parameters that act on a world \<open>'w\<close>. A failure that makes the source
  call \<^verbatim>\<open>exit\<close> is a result.
\<close>

datatype sockopt = SO_REUSEADDR | IP_MULTICAST_IF | IPV6_MULTICAST_IF
  | IP_ADD_MEMBERSHIP | IP_DROP_MEMBERSHIP | IPV6_ADD_MEMBERSHIP | IPV6_DROP_MEMBERSHIP

text \<open>\<open>mc_setsockopt\<close> gives the error number of a call that failed.\<close>

record 'w mcast_calls =
  mc_socket :: "int \<Rightarrow> 'w \<Rightarrow> int \<times> 'w"
  mc_setsockopt :: "int \<Rightarrow> sockopt \<Rightarrow> byte list \<Rightarrow> 'w \<Rightarrow> int option \<times> 'w"
  mc_bind :: "int \<Rightarrow> byte list \<Rightarrow> 'w \<Rightarrow> bool \<times> 'w"
  mc_index :: "ptr \<Rightarrow> 32 word"

record mface = iface +
  ifa_flags :: "32 word"

definition IFF_MULTICAST :: "32 word" where "IFF_MULTICAST = 0x1000"

definition multicast_sizeof :: size_t where "multicast_sizeof = 20"

definition imr_interface :: "ptr \<Rightarrow> ptr" where "imr_interface p = padd p 4"
definition ipv6mr_interface :: "ptr \<Rightarrow> ptr" where "ipv6mr_interface p = padd p 16"

definition EBADF :: int where "EBADF = 9"
definition EAI_FAMILY :: int where "EAI_FAMILY = - 6"

subsection \<open>Operations\<close>

primrec find_multicast :: "heap \<Rightarrow> mface list \<Rightarrow> ptr \<Rightarrow> int \<Rightarrow> mface option option" where
  "find_multicast h [] iface family = Some None"
| "find_multicast h (node # list) iface family = do {
     same \<leftarrow> eq h (ifa_name node) iface;
     let addr = (if same \<and> ifa_flags node AND IFF_MULTICAST \<noteq> 0 then ifa_addr node else Null);
     fits \<leftarrow> (if addr = Null then Some False
             else do { af \<leftarrow> le_get16 h addr; Some (uint af = family) });
     if fits then Some (Some node) else find_multicast h list iface family }"

text \<open>The two address structures that are bound: any address of the family, with the port.\<close>

definition any_in4 :: "16 word \<Rightarrow> byte list" where
  "any_in4 port = le_bytes AF_INET @ be_bytes port @ replicate 4 0 @ replicate 8 0"

definition any_in6 :: "16 word \<Rightarrow> byte list" where
  "any_in6 port = le_bytes AF_INET6 @ be_bytes port @ replicate 4 0 @ replicate 16 0 @ replicate 4 0"

datatype made = Exit int | Made int

definition multicast_in4 :: "'w mcast_calls \<Rightarrow> ptr \<Rightarrow> heap \<Rightarrow> int \<Rightarrow> ptr \<Rightarrow> 16 word \<Rightarrow> 'w \<Rightarrow> (made \<times> heap \<times> 'w) option" where
  "multicast_in4 sys ifm h sock target port w =
     (let (ok, w) = mc_bind sys sock (any_in4 port) w in
      if \<not> ok then Some (Exit (- 5), h, w)
      else do {
        if_addr \<leftarrow> load_list h (sin_addr target) 4;
        h \<leftarrow> store_list h (imr_interface ifm) if_addr;
        let (err, w) = mc_setsockopt sys sock IP_MULTICAST_IF if_addr w;
        Some (if err \<noteq> None then Exit (- 6) else Made sock, h, w) })"

definition multicast_in6 :: "'w mcast_calls \<Rightarrow> ptr \<Rightarrow> heap \<Rightarrow> int \<Rightarrow> ptr \<Rightarrow> 16 word \<Rightarrow> 'w \<Rightarrow> (made \<times> heap \<times> 'w) option" where
  "multicast_in6 sys ifm h sock mcast port w =
     (let (ok, w) = mc_bind sys sock (any_in6 port) w in
      if \<not> ok then Some (Exit (- 5), h, w)
      else do {
        let if_index = mc_index sys mcast;
        h \<leftarrow> le_set32 h (ipv6mr_interface ifm) if_index;
        let (err, w) = mc_setsockopt sys sock IPV6_MULTICAST_IF (le_bytes if_index) w;
        Some (if err \<noteq> None then Exit (- 6) else Made sock, h, w) })"

definition make_multicast :: "'w mcast_calls \<Rightarrow> mface list option \<Rightarrow> ptr \<Rightarrow> heap \<Rightarrow> ptr \<Rightarrow> int \<Rightarrow> 16 word \<Rightarrow> 'w \<Rightarrow> (made \<times> heap \<times> 'w) option" where
  "make_multicast sys ifs ifm h mcast family port w = do {
     (_, h) \<leftarrow> cpr_memset h ifm 0 multicast_sizeof;
     (case ifs of None \<Rightarrow> Some (Exit (- 1), h, w)
      | Some list \<Rightarrow> do {
          found \<leftarrow> find_multicast h list mcast family;
          (case found of None \<Rightarrow> Some (Exit (- 2), h, w)
           | Some iface \<Rightarrow>
               (let (sock, w) = mc_socket sys family w in
                if sock < 0 then Some (Exit (- 3), h, w)
                else (let (err, w) = mc_setsockopt sys sock SO_REUSEADDR [1, 0, 0, 0] w in
                  if err \<noteq> None then Some (Exit (- 4), h, w)
                  else if family = uint AF_INET then multicast_in4 sys ifm h sock (ifa_addr iface) port w
                  else if family = uint AF_INET6 then multicast_in6 sys ifm h sock mcast port w
                  else Some (Made sock, h, w)))) }) }"

text \<open>
  Joining and leaving copy the union, put the group in front and hand its first 8 or 20 bytes
  to the kernel; they differ in the option only.
\<close>

definition change_multicast :: "sockopt \<Rightarrow> sockopt \<Rightarrow> 'w mcast_calls \<Rightarrow> ptr \<Rightarrow> heap \<Rightarrow> int \<Rightarrow> ptr \<Rightarrow> 'w \<Rightarrow> (int \<times> 'w) option" where
  "change_multicast opt4 opt6 sys ifm h so member w = do {
     multicast \<leftarrow> load_list h ifm multicast_sizeof;
     if so < 0 then Some (EBADF, w)
     else do {
       family \<leftarrow> le_get16 h member;
       if family = AF_INET then do {
         a \<leftarrow> load_list h (sin_addr member) 4;
         let (err, w) = mc_setsockopt sys so opt4 (take 8 (a @ drop 4 multicast)) w;
         Some (case err of None \<Rightarrow> 0 | Some e \<Rightarrow> e, w) }
       else if family = AF_INET6 then do {
         a \<leftarrow> load_list h (sin6_addr member) 16;
         let (err, w) = mc_setsockopt sys so opt6 (a @ drop 16 multicast) w;
         Some (case err of None \<Rightarrow> 0 | Some e \<Rightarrow> e, w) }
       else Some (EAI_FAMILY, w) } }"

definition join_multicast :: "'w mcast_calls \<Rightarrow> ptr \<Rightarrow> heap \<Rightarrow> int \<Rightarrow> ptr \<Rightarrow> 'w \<Rightarrow> (int \<times> 'w) option" where
  "join_multicast = change_multicast IP_ADD_MEMBERSHIP IPV6_ADD_MEMBERSHIP"

definition drop_multicast :: "'w mcast_calls \<Rightarrow> ptr \<Rightarrow> heap \<Rightarrow> int \<Rightarrow> ptr \<Rightarrow> 'w \<Rightarrow> (int \<times> 'w) option" where
  "drop_multicast = change_multicast IP_DROP_MEMBERSHIP IPV6_DROP_MEMBERSHIP"

subsection \<open>Membership in groups\<close>

text \<open>
  The first interface of the name that takes multicast and has an address of the family: the
  bytes of its address behind the port.
\<close>

fun pick_multicast :: "16 word \<Rightarrow> byte list \<Rightarrow> (32 word \<times> iface_entry) list \<Rightarrow> byte list option" where
  "pick_multicast f s [] = None"
| "pick_multicast f s ((flags, name, x) # es) =
     (case x of
        Some (g, q, rest) \<Rightarrow>
          if name = s \<and> flags AND IFF_MULTICAST \<noteq> 0 \<and> g = f then Some rest else pick_multicast f s es
      | None \<Rightarrow> pick_multicast f s es)"

definition mface_at :: "heap \<Rightarrow> nat \<Rightarrow> mface \<Rightarrow> 32 word \<times> iface_entry \<Rightarrow> bool" where
  "mface_at h b i e \<longleftrightarrow> ifa_flags i = fst e \<and> iface_at h b i (snd e)"

text \<open>
  \<open>mcast_kernel sys groups\<close>: the documented effect of the socket options on the requests a socket
  is a member by; a call that fails changes nothing.
\<close>

fun members_after :: "sockopt \<Rightarrow> byte list \<Rightarrow> byte list set \<Rightarrow> byte list set" where
  "members_after IP_ADD_MEMBERSHIP r g = insert r g"
| "members_after IPV6_ADD_MEMBERSHIP r g = insert r g"
| "members_after IP_DROP_MEMBERSHIP r g = g - {r}"
| "members_after IPV6_DROP_MEMBERSHIP r g = g - {r}"
| "members_after _ r g = g"

definition mcast_kernel :: "'w mcast_calls \<Rightarrow> ('w \<Rightarrow> int \<Rightarrow> byte list set) \<Rightarrow> bool" where
  "mcast_kernel sys groups \<longleftrightarrow> (\<forall>so opt r w. case mc_setsockopt sys so opt r w of (err, w') \<Rightarrow>
     groups w' so = (if err = None then members_after opt r (groups w so) else groups w so) \<and> err \<noteq> Some 0)"

text \<open>The bytes that stand for the interface in a request, and the request for a group.\<close>

definition iface_bytes :: "'w mcast_calls \<Rightarrow> 16 word \<Rightarrow> ptr \<Rightarrow> byte list \<Rightarrow> byte list" where
  "iface_bytes sys f mcast rest = (if f = AF_INET then take 4 rest else le_bytes (mc_index sys mcast))"

lemma find_multicast_picks:
  assumes "cstr h mcast s"
  shows "list_all2 (mface_at h b) ifs es \<Longrightarrow>
    (case pick_multicast f s es of None \<Rightarrow> find_multicast h ifs mcast (uint f) = Some None
     | Some rest \<Rightarrow> \<exists>(i :: mface) name q. iface_at h b i (name, Some (f, q, rest)) \<and> find_multicast h ifs mcast (uint f) = Some (Some i))"
proof (induction rule: list_all2_induct)
  case (Cons i ifs e es)
  obtain name x where e: "e = (ifa_flags i, name, x)" "iface_at h b i (name, x)"
    using Cons.hyps(1) by (cases e) (auto simp: mface_at_def)
  have nm: "cstr h (ifa_name i) name" using e(2) by (cases "(h, b, i, (name, x))" rule: iface_at.cases) auto
  then have q: "eq h (ifa_name i) mcast = Some (name = s)" using cpr_equal_cstr [OF _ assms] by (simp add: eq_def)
  show ?case
  proof (cases x)
    case None
    then have "find_multicast h (i # ifs) mcast (uint f) = find_multicast h ifs mcast (uint f)" using e q by simp
    then show ?thesis using Cons.IH e(1) None by (auto simp del: find_multicast.simps split: option.splits)
  next
    case (Some y)
    obtain g p rest where y: "x = Some (g, p, rest)" using Some by (cases y) auto
    note at = e(2) [unfolded y]
    have "ifa_addr i \<noteq> Null" using at by auto
    then have ff: "find_multicast h (i # ifs) mcast (uint f) =
        (if name = s \<and> ifa_flags i AND IFF_MULTICAST \<noteq> 0 \<and> g = f then Some (Some i) else find_multicast h ifs mcast (uint f))"
      using iface_family [OF at] q by (auto simp: word_uint_eq_iff)
    have pp: "pick_multicast f s (e # es) =
        (if name = s \<and> ifa_flags i AND IFF_MULTICAST \<noteq> 0 \<and> g = f then Some rest else pick_multicast f s es)" using e y by simp
    show ?thesis unfolding ff pp using Cons.IH at by (auto simp del: iface_at.simps split: option.splits)
  qed
qed simp

lemma pick_multicast_length:
  assumes "cstr h mcast s" and "list_all2 (mface_at h b) ifs es" and "pick_multicast f s es = Some rest"
  shows "f = AF_INET \<Longrightarrow> length rest = 12"
  using find_multicast_picks [OF assms(1,2), of f] assms(3) by auto

text \<open>After a socket has been made the union holds the interface and zeros.\<close>

lemma make_multicast_union:
  assumes "f = AF_INET \<or> f = AF_INET6" and "hblk h b = Some old" and "length old = 20"
    and "cstr h mcast s" and "ptr_block mcast \<noteq> b" and "list_all2 (mface_at h b) ifs es" and "pick_multicast f s es = Some rest"
    and made: "make_multicast sys (Some ifs) (Ptr b 0) h mcast (uint f) port w = Some (Made sock, h', w')"
  shows "hblk h' b = Some (if f = AF_INET then replicate 4 0 @ take 4 rest @ replicate 12 0
      else replicate 16 0 @ le_bytes (mc_index sys mcast))" and "sock \<ge> 0"
proof -
  define z where "z = put_block h b (replicate 20 0)"
  have m: "cpr_memset h (Ptr b 0) 0 multicast_sizeof = Some (Ptr b 0, z)"
    using cpr_memset_whole [OF assms(2), of 0] assms(3) by (simp add: multicast_sizeof_def z_def)
  have s: "cstr z mcast s" unfolding z_def by (rule cstr_same_block [OF assms(4)]) (use assms(5) in simp)
  have "list_all2 (mface_at z b) ifs es"
    using assms(6) unfolding z_def by (rule list_all2_mono) (auto simp: mface_at_def intro: iface_at_put)
  with find_multicast_picks [OF s this, of f] assms(7) obtain i :: mface and name q where
    i: "iface_at z b i (name, Some (f, q, rest))" "find_multicast z ifs mcast (uint f) = Some (Some i)" by (auto simp del: iface_at.simps)
  show "sock \<ge> 0"
    using made m i(2) by (auto simp: make_multicast_def multicast_in4_def multicast_in6_def Let_def split: prod.splits if_splits bind_splits)
  show "hblk h' b = Some (if f = AF_INET then replicate 4 0 @ take 4 rest @ replicate 12 0
      else replicate 16 0 @ le_bytes (mc_index sys mcast))"
  proof (cases "f = AF_INET")
    case True
    obtain c pre post where c: "ifa_addr i = Ptr c (length pre)" "hblk z c = Some (pre @ (le_bytes f @ be_bytes q @ rest) @ post)" "length rest = 12"
      using i(1) True by auto
    have "hblk z c = Some ((pre @ le_bytes f @ be_bytes q) @ take 4 rest @ drop 4 rest @ post)" using c(2) by simp
    from load_list_mid [OF this, of "length pre + 4" 4] c(3)
    have ld: "load_list z (sin_addr (ifa_addr i)) 4 = Some (take 4 rest)" by (simp add: c(1) sin_addr_def)
    have "hblk z b = Some (replicate 4 0 @ replicate 4 0 @ replicate 12 0)" by (simp add: z_def flip: replicate_add)
    from store_list_mid [OF this, of 4 "take 4 rest"] c(3)
    have st: "store_list z (imr_interface (Ptr b 0)) (take 4 rest) = Some (put_block z b (replicate 4 0 @ take 4 rest @ replicate 12 0))"
      by (simp add: imr_interface_def)
    show ?thesis using made m i(2) True ld st
      by (auto simp: make_multicast_def multicast_in4_def Let_def split: prod.splits if_splits)
  next
    case False
    then have f: "f = AF_INET6" using assms(1) by simp
    have "hblk z b = Some (replicate 16 0 @ replicate 4 0 @ [])" by (simp add: z_def flip: replicate_add)
    then have st: "le_set32 z (ipv6mr_interface (Ptr b 0)) v = Some (put_block z b (replicate 16 0 @ le_bytes v))" for v
      using le32.setw_writes [of z b "replicate 16 0" "replicate 4 0" "[]" v] by (simp add: ipv6mr_interface_def)
    show ?thesis using made m i(2) f st
      by (auto simp: make_multicast_def multicast_in6_def Let_def split: prod.splits if_splits)
  qed
qed


text \<open>What joining or leaving a group asks of the kernel, once the union holds an interface.\<close>

lemma change_multicast_request:
  assumes "f = AF_INET \<or> f = AF_INET6" and "hblk h m = Some (sockaddr f p g)" and "length g = addr_len f" and "0 \<le> so"
    and "hblk h b = Some (if f = AF_INET then replicate 4 0 @ i @ replicate 12 0 else replicate 16 0 @ i)" and "length i = 4"
  shows "change_multicast opt4 opt6 sys (Ptr b 0) h so (Ptr m 0) w =
    (let (err, w') = mc_setsockopt sys so (if f = AF_INET then opt4 else opt6) (g @ i) w in
     Some (case err of None \<Rightarrow> 0 | Some e \<Rightarrow> e, w'))"
proof -
  have fam: "le_get16 h (Ptr m 0) = Some f" using sockaddr_family(1) [of h m f] assms(2) by (simp add: sockaddr_def)
  have g: "f = AF_INET \<Longrightarrow> load_list h (Ptr m 4) 4 = Some g" "f = AF_INET6 \<Longrightarrow> load_list h (Ptr m 8) 16 = Some g"
    using load_list_sockaddr [OF assms(2,3)] by blast+
  have u: "load_list h (Ptr b 0) multicast_sizeof = Some (if f = AF_INET then replicate 4 0 @ i @ replicate 12 0 else replicate 16 0 @ i)"
    by (rule load_list_mid [of h b "[]" _ "[]"]) (use assms(1,5,6) in \<open>auto simp: multicast_sizeof_def\<close>)
  show ?thesis
  proof (cases "f = AF_INET")
    case True
    then have "take 8 (g @ drop 4 (replicate 4 0 @ i @ replicate 12 0)) = g @ i" using assms(3,6) by (simp add: addr_len_def)
    then show ?thesis using True fam g(1) u assms(4) by (simp add: change_multicast_def)
  next
    case False
    then have "f = AF_INET6" using assms(1) by simp
    then show ?thesis using fam g(2) u assms(4) by (simp add: change_multicast_def)
  qed
qed

text \<open>
  C16. A socket made for an interface and a joined group: the kernel gets a request for the group on
  that interface, the first of the name that takes multicast and has an address of the family, and a
  call that succeeds makes the socket a member by it. Leaving the group asks for the same request
  to be dropped, so what is left when it succeeds are the other memberships.
\<close>

theorem multicast_membership:
  assumes kernel: "mcast_kernel sys groups" and f: "f = AF_INET \<or> f = AF_INET6"
    and union: "hblk h b = Some old" "length old = 20"
    and iface: "cstr h mcast s" "ptr_block mcast \<noteq> b" "list_all2 (mface_at h b) ifs es" "pick_multicast f s es = Some rest"
    and made: "make_multicast sys (Some ifs) (Ptr b 0) h mcast (uint f) port w = Some (Made sock, h1, w1)"
    and member: "hblk h1 m = Some (sockaddr f p g)" "length g = addr_len f"
  shows "\<exists>r1 w2 r2 w3. join_multicast sys (Ptr b 0) h1 sock (Ptr m 0) w1 = Some (r1, w2) \<and>
    groups w2 sock = (if r1 = 0 then insert (g @ iface_bytes sys f mcast rest) (groups w1 sock) else groups w1 sock) \<and>
    drop_multicast sys (Ptr b 0) h1 sock (Ptr m 0) w2 = Some (r2, w3) \<and>
    (r1 = 0 \<longrightarrow> r2 = 0 \<longrightarrow> groups w3 sock = groups w1 sock - {g @ iface_bytes sys f mcast rest})"
proof -
  note u = make_multicast_union [OF f union iface made]
  have len: "length (iface_bytes sys f mcast rest) = 4" and
    blk: "hblk h1 b = Some (if f = AF_INET then replicate 4 0 @ iface_bytes sys f mcast rest @ replicate 12 0
      else replicate 16 0 @ iface_bytes sys f mcast rest)"
    using u(1) pick_multicast_length [OF iface(1,3,4)] f by (auto simp: iface_bytes_def)
  note req = change_multicast_request [OF f member u(2) blk len]
  let ?r = "g @ iface_bytes sys f mcast rest"
  have k: "mc_setsockopt sys so opt r w = (err, w') \<Longrightarrow>
      groups w' so = (if err = None then members_after opt r (groups w so) else groups w so) \<and> err \<noteq> Some 0" for so opt r w err w'
    using kernel [unfolded mcast_kernel_def, rule_format, of so opt r w] by simp
  obtain e1 w2 where 1: "mc_setsockopt sys sock (if f = AF_INET then IP_ADD_MEMBERSHIP else IPV6_ADD_MEMBERSHIP) ?r w1 = (e1, w2)"
    by fastforce
  obtain e2 w3 where 2: "mc_setsockopt sys sock (if f = AF_INET then IP_DROP_MEMBERSHIP else IPV6_DROP_MEMBERSHIP) ?r w2 = (e2, w3)"
    by fastforce
  show ?thesis
    unfolding join_multicast_def drop_multicast_def req
    using 1 2 k [OF 1] k [OF 2] by (auto split: option.splits if_splits)
qed


text \<open>A kernel for the witness: one socket, whose memberships are the world, and calls that succeed.\<close>

definition one_socket :: "byte list set mcast_calls" where
  "one_socket = \<lparr>mc_socket = (\<lambda>family w. (5, w)), mc_setsockopt = (\<lambda>so opt r w. (None, members_after opt r w)),
     mc_bind = (\<lambda>so a w. (True, w)), mc_index = (\<lambda>name. 3)\<rparr>"

lemma one_socket_kernel: "mcast_kernel one_socket (\<lambda>w so. w)"
  by (simp add: mcast_kernel_def one_socket_def)

definition eth_heap :: heap where
  "eth_heap = heap_of [replicate 20 7, [101, 48, 0], [2, 0, 0, 9, 10, 0, 0, 1] @ replicate 8 0, sockaddr AF_INET 0 [239, 0, 0, 1]]"

theorem multicast_membership_witness:
  "\<exists>h1 r1 w2 r2 w3. make_multicast one_socket (Some [\<lparr>ifa_name = Ptr 1 0, ifa_addr = Ptr 2 0, ifa_flags = 0x1003\<rparr>]) (Ptr 0 0)
      eth_heap (Ptr 1 0) 2 80 {} = Some (Made 5, h1, {}) \<and>
    join_multicast one_socket (Ptr 0 0) h1 5 (Ptr 3 0) {} = Some (r1, w2) \<and>
    w2 = (if r1 = 0 then {[239, 0, 0, 1, 10, 0, 0, 1]} else {}) \<and>
    drop_multicast one_socket (Ptr 0 0) h1 5 (Ptr 3 0) w2 = Some (r2, w3)"
proof -
  let ?i = "\<lparr>ifa_name = Ptr 1 0, ifa_addr = Ptr 2 0, ifa_flags = 0x1003\<rparr> :: mface"
  let ?rest = "[10, 0, 0, 1] @ replicate 8 (0 :: byte)"
  have blk: "hblk eth_heap 0 = Some (replicate 20 7)" "hblk eth_heap 1 = Some [101, 48, 0]"
      "hblk eth_heap 2 = Some ([] @ (le_bytes AF_INET @ be_bytes (9 :: 16 word) @ ?rest) @ [])"
      "hblk eth_heap 3 = Some (sockaddr AF_INET 0 [239, 0, 0, 1])"
    by (simp_all add: eth_heap_def AF_INET_def le_bytes_16 be_bytes_def)
  have s: "cstr eth_heap (Ptr 1 0) [101, 48]" using blk by (simp add: load_Ptr)
  have "iface_at eth_heap 0 ?i ([101, 48], Some (AF_INET, 9, ?rest))"
    unfolding iface_at.simps by (intro conjI exI [of _ 2] exI [of _ "[]"]) (use blk(3) s in simp_all)
  then have ifs: "list_all2 (mface_at eth_heap 0) [?i] [(0x1003, [101, 48], Some (AF_INET, 9, ?rest))]"
    by (simp add: mface_at_def del: iface_at.simps)
  have pick: "pick_multicast AF_INET [101, 48] [(0x1003, [101, 48], Some (AF_INET, 9, ?rest))] = Some ?rest"
    by (simp add: IFF_MULTICAST_def)
  define z where "z = put_block eth_heap 0 (replicate 20 0)"
  define h1 where "h1 = put_block z 0 (replicate 4 0 @ [10, 0, 0, 1] @ replicate 12 0)"
  have m: "cpr_memset eth_heap (Ptr 0 0) 0 multicast_sizeof = Some (Ptr 0 0, z)"
    using cpr_memset_whole [OF blk(1), of 0] by (simp add: multicast_sizeof_def z_def)
  have z2: "hblk z 2 = Some (le_bytes AF_INET @ be_bytes (9 :: 16 word) @ ?rest)" using blk(3) by (simp add: z_def)
  have ld: "load_list z (sin_addr (Ptr 2 0)) 4 = Some [10, 0, 0, 1]"
    using load_list_mid [of z 2 "le_bytes AF_INET @ be_bytes (9 :: 16 word)" "[10, 0, 0, 1]" "replicate 8 0" 4 4] z2 by simp
  have st: "store_list z (imr_interface (Ptr 0 0)) [10, 0, 0, 1] = Some h1"
    using store_list_mid [of z 0 "replicate 4 0" "replicate 4 0" "replicate 12 0" 4 "[10, 0, 0, 1]"]
    by (simp add: h1_def z_def imr_interface_def flip: replicate_add)
  have made: "make_multicast one_socket (Some [?i]) (Ptr 0 0) eth_heap (Ptr 1 0) (uint AF_INET) 80 {} = Some (Made 5, h1, {})"
    using m ld st sockaddr_family(1) [OF z2]
    by (simp add: make_multicast_def multicast_in4_def one_socket_def eq_def cpr_equal_def IFF_MULTICAST_def del: load_list.simps store_list.simps)
  moreover have "hblk h1 3 = Some (sockaddr AF_INET 0 [239, 0, 0, 1])" using blk(4) by (simp add: h1_def z_def)
  moreover have req: "[239, 0, 0, 1] @ iface_bytes one_socket AF_INET (Ptr 1 0) ?rest = [239, 0, 0, 1, 10, 0, 0, 1]"
    by (simp add: iface_bytes_def)
  ultimately obtain r1 w2 r2 w3 where "join_multicast one_socket (Ptr 0 0) h1 5 (Ptr 3 0) {} = Some (r1, w2)"
      "w2 = (if r1 = 0 then {[239, 0, 0, 1, 10, 0, 0, 1]} else {})" "drop_multicast one_socket (Ptr 0 0) h1 5 (Ptr 3 0) w2 = Some (r2, w3)"
    using multicast_membership [OF one_socket_kernel disjI1 [OF refl] blk(1) _ s _ ifs pick made, of 3 0 "[239, 0, 0, 1]", unfolded req]
    by (simp add: addr_len_def) blast
  then show ?thesis
    by (intro exI [of _ h1] exI [of _ r1] exI [of _ w2] exI [of _ r2] exI [of _ w3] conjI) (use made in simp_all)
qed

end
