(* ===== verification/Events.thy ===== *)
theory Events
  imports Cpr_Prelude
begin

text \<open>
  \<^verbatim>\<open>src/events.c\<close> and \<^verbatim>\<open>src/events.h\<close>: a wakeup flag that can be polled, kept by the kernel as an
  event counter or, where there is none, as a pipe. The two builds are told apart by the
  argument \<open>efd\<close>, true where \<^verbatim>\<open>EFD_NONBLOCK\<close> is defined. The system calls are parameters that act
  on a world \<open>'w\<close>; \<open>event_kernel\<close> below says what the theorems assume of them.

  The second part is what an event promises, as a step relation on the number of signals that
  are pending, and the proof that every sequence of calls is a run of it that neither loses a
  descriptor nor closes a foreign one.
\<close>

record 'w evt_calls =
  ev_eventfd :: "'w \<Rightarrow> int \<times> 'w"
  ev_pipe :: "'w \<Rightarrow> (int \<times> int) option \<times> 'w"
  ev_nonblock :: "int \<Rightarrow> 'w \<Rightarrow> 'w"
  ev_write :: "int \<Rightarrow> byte list \<Rightarrow> 'w \<Rightarrow> int \<times> 'w"
  ev_read :: "int \<Rightarrow> size_t \<Rightarrow> 'w \<Rightarrow> int \<times> 'w"
  ev_poll :: "int \<Rightarrow> int \<Rightarrow> 'w \<Rightarrow> int \<times> 'w"
  ev_close :: "int \<Rightarrow> 'w \<Rightarrow> 'w"

record event_t =
  fds0 :: int
  fds1 :: int

subsection \<open>Operations\<close>

text \<open>
  Each takes what its pointer argument points to, \<^const>\<open>None\<close> for the null pointer, and gives
  back what it points to afterwards.
\<close>

definition cpr_initevt :: "bool \<Rightarrow> 'w evt_calls \<Rightarrow> event_t option \<Rightarrow> 'w \<Rightarrow> bool \<times> event_t option \<times> 'w" where
  "cpr_initevt efd sys evt w =
     (case evt of None \<Rightarrow> (False, None, w)
      | Some e \<Rightarrow>
          if efd then
            (let (fd, w) = ev_eventfd sys w; e = e\<lparr>fds0 := fd\<rparr> in
             if fd = - 1 then (False, Some e, w)
             else (True, Some (e\<lparr>fds1 := fds0 e\<rparr>), w))
          else
            (let (res, w) = ev_pipe sys w in
             case res of None \<Rightarrow> (False, Some e, w)
             | Some (r, s) \<Rightarrow> (True, Some (e\<lparr>fds0 := r, fds1 := s\<rparr>), ev_nonblock sys s (ev_nonblock sys r w))))"

definition cpr_freeevt :: "'w evt_calls \<Rightarrow> event_t option \<Rightarrow> 'w \<Rightarrow> event_t option \<times> 'w" where
  "cpr_freeevt sys evt w =
     (case evt of None \<Rightarrow> (None, w)
      | Some e \<Rightarrow>
          if fds0 e = - 1 then (Some e, w)
          else
            (let w = (if fds0 e \<noteq> fds1 e then ev_close sys (fds1 e) w else w);
                 w = ev_close sys (fds0 e) w in
             (Some (e\<lparr>fds0 := - 1, fds1 := - 1\<rparr>), w)))"

text \<open>The end the three other operations share: a negative result frees the event.\<close>

definition evt_result :: "'w evt_calls \<Rightarrow> event_t option \<Rightarrow> int \<times> 'w \<Rightarrow> bool \<times> event_t option \<times> 'w" where
  "evt_result sys evt res =
     (let (rtn, w) = res in
      if rtn < 0 then (let (evt, w) = cpr_freeevt sys evt w in (False, evt, w))
      else (rtn > 0, evt, w))"

definition cpr_setevt :: "bool \<Rightarrow> 'w evt_calls \<Rightarrow> event_t option \<Rightarrow> 'w \<Rightarrow> bool \<times> event_t option \<times> 'w" where
  "cpr_setevt efd sys evt w =
     (case evt of None \<Rightarrow> (False, evt, w)
      | Some e \<Rightarrow>
          if fds0 e = - 1 then (False, evt, w)
          else evt_result sys evt
            (if efd then ev_write sys (fds1 e) [1, 0, 0, 0, 0, 0, 0, 0] w
             else ev_write sys (fds1 e) [120] w))"

definition cpr_clearevt :: "bool \<Rightarrow> 'w evt_calls \<Rightarrow> event_t option \<Rightarrow> 'w \<Rightarrow> bool \<times> event_t option \<times> 'w" where
  "cpr_clearevt efd sys evt w =
     (case evt of None \<Rightarrow> (False, evt, w)
      | Some e \<Rightarrow>
          if fds0 e = - 1 then (False, evt, w)
          else evt_result sys evt
            (if efd then ev_read sys (fds0 e) 8 w else ev_read sys (fds0 e) 64 w))"

definition cpr_waitevt :: "'w evt_calls \<Rightarrow> event_t option \<Rightarrow> int \<Rightarrow> 'w \<Rightarrow> bool \<times> event_t option \<times> 'w" where
  "cpr_waitevt sys evt timeout w =
     (case evt of None \<Rightarrow> (False, evt, w)
      | Some e \<Rightarrow>
          if fds0 e = - 1 then (False, evt, w)
          else evt_result sys evt (ev_poll sys (fds0 e) timeout w))"

text \<open>The calls a client makes on an event it has initialised.\<close>

datatype evt_op = Set_Evt | Clear_Evt | Wait_Evt int | Free_Evt

definition evt_op :: "bool \<Rightarrow> 'w evt_calls \<Rightarrow> evt_op \<Rightarrow> event_t option \<Rightarrow> 'w \<Rightarrow> bool \<times> event_t option \<times> 'w" where
  "evt_op efd sys p evt w =
     (case p of Set_Evt \<Rightarrow> cpr_setevt efd sys evt w
      | Clear_Evt \<Rightarrow> cpr_clearevt efd sys evt w
      | Wait_Evt t \<Rightarrow> cpr_waitevt sys evt t w
      | Free_Evt \<Rightarrow> (False, cpr_freeevt sys evt w))"

primrec evt_ops :: "bool \<Rightarrow> 'w evt_calls \<Rightarrow> evt_op list \<Rightarrow> event_t option \<Rightarrow> 'w \<Rightarrow> bool list \<times> event_t option \<times> 'w" where
  "evt_ops efd sys [] evt w = ([], evt, w)"
| "evt_ops efd sys (p # ps) evt w =
     (let (r, evt, w) = evt_op efd sys p evt w; (rs, evt, w) = evt_ops efd sys ps evt w in (r # rs, evt, w))"

subsection \<open>What the kernel promises\<close>

text \<open>
  The kernel's side of an event: the descriptors that are open, those that do not block, the
  amount pending behind a descriptor that is read (the value of a counter, the bytes of a pipe),
  and the descriptor a written one feeds, which for an event counter is itself. Other files have
  no entry in the last two.
\<close>

record fd_table =
  opened :: "int set"
  nonblock :: "int set"
  pending :: "int \<rightharpoonup> nat"
  feeds :: "int \<rightharpoonup> int"

definition fd_counter :: "int \<Rightarrow> fd_table \<Rightarrow> fd_table" where
  "fd_counter r v = \<lparr>opened = insert r (opened v), nonblock = insert r (nonblock v),
     pending = (pending v)(r \<mapsto> 0), feeds = (feeds v)(r \<mapsto> r)\<rparr>"

definition fd_pipe :: "int \<Rightarrow> int \<Rightarrow> fd_table \<Rightarrow> fd_table" where
  "fd_pipe r s v = \<lparr>opened = {r, s} \<union> opened v, nonblock = nonblock v - {r, s},
     pending = (pending v)(s := None, r \<mapsto> 0), feeds = (feeds v)(r := None, s \<mapsto> r)\<rparr>"

definition fd_close :: "int \<Rightarrow> fd_table \<Rightarrow> fd_table" where
  "fd_close fd v = \<lparr>opened = opened v - {fd}, nonblock = nonblock v - {fd},
     pending = (pending v)(fd := None), feeds = (feeds v)(fd := None)\<rparr>"

lemmas fd_defs = fd_counter_def fd_pipe_def fd_close_def

text \<open>What may be pending at most, and what clearing leaves of it.\<close>

definition evt_limit :: "bool \<Rightarrow> nat" where
  "evt_limit efd = (if efd then 2 ^ 64 - 2 else 65536)"

definition evt_left :: "bool \<Rightarrow> nat \<Rightarrow> nat" where
  "evt_left efd n = (if efd then 0 else n - 64)"

text \<open>
  What writing the bytes \<open>bs\<close> adds. A counter takes the 64-bit integer in the first eight bytes,
  refusing less than eight and the greatest value; a pipe takes every byte.
\<close>

primrec le_value :: "byte list \<Rightarrow> nat" where
  "le_value [] = 0"
| "le_value (b # bs) = unat b + 256 * le_value bs"

definition evt_adds :: "bool \<Rightarrow> byte list \<Rightarrow> nat option" where
  "evt_adds efd bs =
     (if \<not> efd then Some (length bs)
      else if length bs < 8 \<or> le_value (take 8 bs) = 2 ^ 64 - 1 then None
      else Some (le_value (take 8 bs)))"

text \<open>
  \<open>event_kernel efd sys view\<close>: the documented behaviour of the system calls, for the two kinds of
  descriptors the source makes and the requests that are small enough to be atomic on a pipe.
  A new descriptor is one that was not open; it does not block if it is a counter made with
  \<^verbatim>\<open>EFD_NONBLOCK\<close> or after \<^verbatim>\<open>fcntl\<close>. A counter takes values up to \<open>2 ^ 64 - 2\<close>, is read as a whole and
  refuses a buffer of less than eight bytes; a pipe holds 65536 bytes and gives at most as many
  as are asked for. What would block on a descriptor that does not block fails. Waiting may be
  interrupted at any time; otherwise it ends with the descriptor ready, or not ready when a limit
  of time was given. Nothing is said about blocking descriptors, other files, or a pipe whose
  other end is closed.
\<close>

definition write_law :: "bool \<Rightarrow> 'w evt_calls \<Rightarrow> ('w \<Rightarrow> fd_table) \<Rightarrow> bool" where
  "write_law efd sys view \<longleftrightarrow>
     (\<forall>fd to n bs w. fd \<in> opened (view w) \<inter> nonblock (view w) \<longrightarrow> to \<in> opened (view w) \<longrightarrow>
        feeds (view w) fd = Some to \<longrightarrow> pending (view w) to = Some n \<longrightarrow> efd \<or> length bs \<le> 512 \<longrightarrow>
        (case ev_write sys fd bs w of (r, w') \<Rightarrow>
         case evt_adds efd bs of None \<Rightarrow> r = - 1 \<and> view w' = view w
         | Some d \<Rightarrow>
             if n + d \<le> evt_limit efd
             then r = (if efd then 8 else int (length bs)) \<and>
                  view w' = view w\<lparr>pending := (pending (view w))(to \<mapsto> n + d)\<rparr>
             else r = - 1 \<and> view w' = view w))"

definition read_law :: "bool \<Rightarrow> 'w evt_calls \<Rightarrow> ('w \<Rightarrow> fd_table) \<Rightarrow> bool" where
  "read_law efd sys view \<longleftrightarrow>
     (\<forall>fd s n k w. fd \<in> opened (view w) \<inter> nonblock (view w) \<longrightarrow> s \<in> opened (view w) \<longrightarrow>
        feeds (view w) s = Some fd \<longrightarrow> pending (view w) fd = Some n \<longrightarrow> 0 < k \<longrightarrow>
        (case ev_read sys fd k w of (r, w') \<Rightarrow>
         if n = 0 \<or> efd \<and> k < 8 then r = - 1 \<and> view w' = view w
         else r = (if efd then 8 else int (min n k)) \<and>
              view w' = view w\<lparr>pending := (pending (view w))(fd \<mapsto> if efd then 0 else n - k)\<rparr>))"

definition poll_law :: "'w evt_calls \<Rightarrow> ('w \<Rightarrow> fd_table) \<Rightarrow> bool" where
  "poll_law sys view \<longleftrightarrow>
     (\<forall>fd s n t w. fd \<in> opened (view w) \<longrightarrow> s \<in> opened (view w) \<longrightarrow>
        feeds (view w) s = Some fd \<longrightarrow> pending (view w) fd = Some n \<longrightarrow>
        (case ev_poll sys fd t w of (r, w') \<Rightarrow>
         view w' = view w \<and> (r = - 1 \<or> (if n = 0 then r = 0 \<and> 0 \<le> t else r = 1))))"

definition event_kernel :: "bool \<Rightarrow> 'w evt_calls \<Rightarrow> ('w \<Rightarrow> fd_table) \<Rightarrow> bool" where
  "event_kernel efd sys view \<longleftrightarrow>
     (\<forall>w. case ev_eventfd sys w of (r, w') \<Rightarrow>
        (r = - 1 \<and> view w' = view w) \<or>
        (0 \<le> r \<and> r \<notin> opened (view w) \<and> view w' = fd_counter r (view w))) \<and>
     (\<forall>w. case ev_pipe sys w of (res, w') \<Rightarrow>
        (res = None \<and> view w' = view w) \<or>
        (\<exists>r s. res = Some (r, s) \<and> 0 \<le> r \<and> 0 \<le> s \<and> r \<noteq> s \<and> r \<notin> opened (view w) \<and> s \<notin> opened (view w) \<and>
         view w' = fd_pipe r s (view w))) \<and>
     (\<forall>fd w. fd \<in> opened (view w) \<longrightarrow>
        view (ev_nonblock sys fd w) = view w\<lparr>nonblock := insert fd (nonblock (view w))\<rparr>) \<and>
     (\<forall>fd w. fd \<in> opened (view w) \<longrightarrow> view (ev_close sys fd w) = fd_close fd (view w)) \<and>
     write_law efd sys view \<and> read_law efd sys view \<and> poll_law sys view"


subsection \<open>What an event promises\<close>

text \<open>
  An event is gone or has a number of pending signals. \<open>evt_spec efd s p r s'\<close>: the call \<open>p\<close> may
  return \<open>r\<close> and lead from \<open>s\<close> to \<open>s'\<close>. Whatever fails for the kernel ends the event, also clearing one
  that is not set and a wait that is interrupted.
\<close>

inductive evt_spec :: "bool \<Rightarrow> nat option \<Rightarrow> evt_op \<Rightarrow> bool \<Rightarrow> nat option \<Rightarrow> bool" for efd where
  spec_set: "n < evt_limit efd \<Longrightarrow> evt_spec efd (Some n) Set_Evt True (Some (n + 1))"
| spec_full: "\<not> n < evt_limit efd \<Longrightarrow> evt_spec efd (Some n) Set_Evt False None"
| spec_clear: "0 < n \<Longrightarrow> evt_spec efd (Some n) Clear_Evt True (Some (evt_left efd n))"
| spec_idle: "evt_spec efd (Some 0) Clear_Evt False None"
| spec_ready: "0 < n \<Longrightarrow> evt_spec efd (Some n) (Wait_Evt t) True (Some n)"
| spec_timeout: "0 \<le> t \<Longrightarrow> evt_spec efd (Some 0) (Wait_Evt t) False (Some 0)"
| spec_intr: "evt_spec efd (Some n) (Wait_Evt t) False None"
| spec_free: "evt_spec efd (Some n) Free_Evt False None"
| spec_gone: "evt_spec efd None p False None"

inductive_simps evt_spec_gone_simps: "evt_spec efd None p r s"

inductive evt_run :: "bool \<Rightarrow> nat option \<Rightarrow> evt_op list \<Rightarrow> bool list \<Rightarrow> nat option \<Rightarrow> bool" for efd where
  run_stop: "evt_run efd s [] [] s"
| run_step: "evt_spec efd s p r s' \<Longrightarrow> evt_run efd s' ps rs s'' \<Longrightarrow> evt_run efd s (p # ps) (r # rs) s''"

inductive_cases evt_run_ConsE: "evt_run efd s (p # ps) rs s'"

text \<open>The descriptors of an event: both valid, one or two of them by build, or both gone.\<close>

fun evt_type :: "bool \<Rightarrow> event_t \<Rightarrow> bool" where
  "evt_type efd e \<longleftrightarrow> (fds0 e = - 1 \<and> fds1 e = - 1) \<or> (0 \<le> fds0 e \<and> 0 \<le> fds1 e \<and> (fds0 e = fds1 e \<longleftrightarrow> efd))"

text \<open>How an event and the table of descriptors represent such a state, beside the descriptors \<open>base\<close>.\<close>

fun evt_rel :: "bool \<Rightarrow> int set \<Rightarrow> fd_table \<Rightarrow> event_t option \<Rightarrow> nat option \<Rightarrow> bool" where
  "evt_rel efd base v (Some e) None \<longleftrightarrow> fds0 e = - 1 \<and> fds1 e = - 1 \<and> opened v = base"
| "evt_rel efd base v (Some e) (Some n) \<longleftrightarrow>
     0 \<le> fds0 e \<and> 0 \<le> fds1 e \<and> (fds0 e = fds1 e \<longleftrightarrow> efd) \<and>
     fds0 e \<notin> base \<and> fds1 e \<notin> base \<and> opened v = {fds0 e, fds1 e} \<union> base \<and>
     fds0 e \<in> nonblock v \<and> fds1 e \<in> nonblock v \<and>
     feeds v (fds1 e) = Some (fds0 e) \<and> pending v (fds0 e) = Some n"
| "evt_rel efd base v None s \<longleftrightarrow> False"

subsection \<open>Every sequence of calls is a run of an event\<close>

lemma kernel_eventfd:
  assumes "event_kernel efd sys view" and "ev_eventfd sys w = (r, w')" and "r \<noteq> - 1"
  shows "0 \<le> r \<and> r \<notin> opened (view w) \<and> view w' = fd_counter r (view w)"
  using assms unfolding event_kernel_def by (elim conjE allE [of _ w]) simp

lemma kernel_pipe:
  assumes "event_kernel efd sys view" and "ev_pipe sys w = (Some (r, s), w')"
  shows "0 \<le> r \<and> 0 \<le> s \<and> r \<noteq> s \<and> r \<notin> opened (view w) \<and> s \<notin> opened (view w) \<and> view w' = fd_pipe r s (view w)"
  using assms unfolding event_kernel_def by (elim conjE allE [of _ w]) simp

lemma kernel_quiet:
  assumes "event_kernel efd sys view" and "fd \<in> opened (view w)"
  shows "view (ev_nonblock sys fd w) = view w\<lparr>nonblock := insert fd (nonblock (view w))\<rparr>"
    and "view (ev_close sys fd w) = fd_close fd (view w)"
  using assms unfolding event_kernel_def by simp_all

lemma kernel_write:
  assumes "event_kernel efd sys view" and "evt_rel efd base (view w) (Some e) (Some n)"
    and "ev_write sys (fds1 e) bs w = (r, w')" and "evt_adds efd bs = Some d" and "efd \<or> length bs \<le> 512"
  shows "if n + d \<le> evt_limit efd
         then r = (if efd then 8 else int (length bs)) \<and> view w' = view w\<lparr>pending := (pending (view w))(fds0 e \<mapsto> n + d)\<rparr>
         else r = - 1 \<and> view w' = view w"
proof -
  have "write_law efd sys view" using assms(1) by (simp add: event_kernel_def)
  from this [unfolded write_law_def, rule_format, of "fds1 e" w "fds0 e" n bs] show ?thesis using assms by simp
qed

lemma kernel_read:
  assumes "event_kernel efd sys view" and "evt_rel efd base (view w) (Some e) (Some n)"
    and "ev_read sys (fds0 e) k w = (r, w')" and "8 \<le> k"
  shows "if n = 0 then r = - 1 \<and> view w' = view w
         else r = (if efd then 8 else int (min n k)) \<and>
              view w' = view w\<lparr>pending := (pending (view w))(fds0 e \<mapsto> if efd then 0 else n - k)\<rparr>"
proof -
  have "read_law efd sys view" using assms(1) by (simp add: event_kernel_def)
  from this [unfolded read_law_def, rule_format, of "fds0 e" w "fds1 e" n k] show ?thesis using assms by simp
qed

lemma kernel_poll:
  assumes "event_kernel efd sys view" and "evt_rel efd base (view w) (Some e) (Some n)"
    and "ev_poll sys (fds0 e) t w = (r, w')"
  shows "view w' = view w \<and> (r = - 1 \<or> (if n = 0 then r = 0 \<and> 0 \<le> t else r = 1))"
proof -
  have "poll_law sys view" using assms(1) by (simp add: event_kernel_def)
  from this [unfolded poll_law_def, rule_format, of "fds0 e" w "fds1 e" n t] show ?thesis using assms by simp
qed

lemma init_rel:
  assumes "event_kernel efd sys view" and "cpr_initevt efd sys (Some e) w = (True, evt, w')"
  shows "evt_rel efd (opened (view w)) (view w') evt (Some 0)"
proof (cases efd)
  case True
  then obtain fd where fd: "ev_eventfd sys w = (fd, w')" "fd \<noteq> - 1" "evt = Some \<lparr>fds0 = fd, fds1 = fd\<rparr>"
    using assms(2) by (auto simp: cpr_initevt_def Let_def split: prod.splits if_splits)
  show ?thesis using kernel_eventfd [OF assms(1) fd(1,2)] fd(3) True by (simp add: fd_counter_def)
next
  case False
  then obtain r s w1 where rs: "ev_pipe sys w = (Some (r, s), w1)" "evt = Some \<lparr>fds0 = r, fds1 = s\<rparr>"
      "w' = ev_nonblock sys s (ev_nonblock sys r w1)"
    using assms(2) by (auto simp: cpr_initevt_def split: prod.splits option.splits)
  show ?thesis using kernel_pipe [OF assms(1) rs(1)] rs(2,3) False
    by (simp add: kernel_quiet(1) [OF assms(1)] fd_pipe_def)
qed

lemma free_rel:
  assumes "event_kernel efd sys view" and "evt_rel efd base (view w) (Some e) (Some n)" and "cpr_freeevt sys (Some e) w = (evt, w')"
  shows "evt_rel efd base (view w') evt None"
  using assms(2,3) by (auto simp: cpr_freeevt_def Let_def kernel_quiet(2) [OF assms(1)] fd_close_def split: if_splits)

lemma evt_result_rel:
  assumes "event_kernel efd sys view" and "evt_result sys (Some e) (rtn, w) = (r, evt, w')"
    and "evt_rel efd base (view w) (Some e) (Some n)"
  shows "if rtn < 0 then \<not> r \<and> evt_rel efd base (view w') evt None
         else (r \<longleftrightarrow> rtn > 0) \<and> evt_rel efd base (view w') evt (Some n)"
  using assms(2,3) free_rel [OF assms(1,3)] by (auto simp: evt_result_def split: prod.splits)

lemma evt_op_gone:
  assumes "fds0 e = - 1"
  shows "evt_op efd sys p (Some e) w = (False, Some e, w)"
  using assms by (simp add: evt_op_def cpr_setevt_def cpr_clearevt_def cpr_waitevt_def cpr_freeevt_def split: evt_op.splits)

lemma setevt_rel:
  assumes k: "event_kernel efd sys view" and rel: "evt_rel efd base (view w) (Some e) (Some n)"
    and op: "cpr_setevt efd sys (Some e) w = (r, evt, w')"
  shows "\<exists>s. evt_spec efd (Some n) Set_Evt r s \<and> evt_rel efd base (view w') evt s"
proof -
  obtain bs rtn w1 where w1: "ev_write sys (fds1 e) bs w = (rtn, w1)" "bs = (if efd then [1, 0, 0, 0, 0, 0, 0, 0] else [120])"
      "evt_result sys (Some e) (rtn, w1) = (r, evt, w')"
    using op rel
    by (cases "ev_write sys (fds1 e) (if efd then [1, 0, 0, 0, 0, 0, 0, 0] else [120]) w")
       (auto simp: cpr_setevt_def if_distrib [of "\<lambda>bs. ev_write sys (fds1 e) bs w"] split: if_splits)
  have bs: "evt_adds efd bs = Some 1" "efd \<or> length bs \<le> 512" "bs \<noteq> []" by (simp_all add: w1(2) evt_adds_def)
  note sys = kernel_write [OF k rel w1(1) bs(1,2)]
  show ?thesis
  proof (cases "n < evt_limit efd")
    case True
    then have "evt_rel efd base (view w1) (Some e) (Some (n + 1))" using sys rel by simp
    from evt_result_rel [OF k w1(3) this] True sys bs(3) show ?thesis
      by (auto intro!: exI [of _ "Some (n + 1)"] spec_set split: if_splits)
  next
    case False
    then have "evt_rel efd base (view w1) (Some e) (Some n)" using sys rel by simp
    from evt_result_rel [OF k w1(3) this] False sys show ?thesis
      by (auto intro!: exI [of _ None] spec_full)
  qed
qed

lemma clearevt_rel:
  assumes k: "event_kernel efd sys view" and rel: "evt_rel efd base (view w) (Some e) (Some n)"
    and op: "cpr_clearevt efd sys (Some e) w = (r, evt, w')"
  shows "\<exists>s. evt_spec efd (Some n) Clear_Evt r s \<and> evt_rel efd base (view w') evt s"
proof -
  obtain rtn w1 where w1: "ev_read sys (fds0 e) (if efd then 8 else 64) w = (rtn, w1)"
      "evt_result sys (Some e) (rtn, w1) = (r, evt, w')"
    using op rel by (cases "ev_read sys (fds0 e) (if efd then 8 else 64) w") (auto simp: cpr_clearevt_def split: if_splits)
  have sys: "if n = 0 then rtn = - 1 \<and> view w1 = view w
      else 0 < rtn \<and> view w1 = view w\<lparr>pending := (pending (view w))(fds0 e \<mapsto> evt_left efd n)\<rparr>"
    using kernel_read [OF k rel w1(1)] by (auto simp: evt_left_def split: if_splits)
  show ?thesis
  proof (cases "n = 0")
    case False
    then have "evt_rel efd base (view w1) (Some e) (Some (evt_left efd n))" using sys rel by simp
    from evt_result_rel [OF k w1(2) this] False sys show ?thesis
      by (auto intro!: exI [of _ "Some (evt_left efd n)"] spec_clear)
  next
    case True
    then have "evt_rel efd base (view w1) (Some e) (Some n)" using sys rel by simp
    from evt_result_rel [OF k w1(2) this] True sys show ?thesis
      by (auto intro!: exI [of _ None] spec_idle)
  qed
qed

lemma waitevt_rel:
  assumes k: "event_kernel efd sys view" and rel: "evt_rel efd base (view w) (Some e) (Some n)"
    and op: "cpr_waitevt sys (Some e) t w = (r, evt, w')"
  shows "\<exists>s. evt_spec efd (Some n) (Wait_Evt t) r s \<and> evt_rel efd base (view w') evt s"
proof -
  obtain rtn w1 where w1: "ev_poll sys (fds0 e) t w = (rtn, w1)" "evt_result sys (Some e) (rtn, w1) = (r, evt, w')"
    using op rel by (cases "ev_poll sys (fds0 e) t w") (auto simp: cpr_waitevt_def)
  have sys: "view w1 = view w \<and> (rtn = - 1 \<or> (if n = 0 then rtn = 0 \<and> 0 \<le> t else rtn = 1))"
    using kernel_poll [OF k rel w1(1)] .
  then have "evt_rel efd base (view w1) (Some e) (Some n)" using rel by simp
  note done_ = evt_result_rel [OF k w1(2) this]
  show ?thesis
  proof (cases "rtn = - 1")
    case True
    then show ?thesis using done_ by (auto intro!: exI [of _ None] spec_intr)
  next
    case False
    then show ?thesis using done_ sys by (intro exI [of _ "Some n"]) (auto intro!: spec_ready spec_timeout split: if_splits)
  qed
qed

lemma evt_op_rel:
  assumes k: "event_kernel efd sys view" and rel: "evt_rel efd base (view w) evt s"
    and op: "evt_op efd sys p evt w = (r, evt', w')"
  shows "\<exists>s'. evt_spec efd s p r s' \<and> evt_rel efd base (view w') evt' s'"
proof (cases s)
  case None
  obtain e where e: "evt = Some e" "fds0 e = - 1" using rel None by (cases evt) auto
  show ?thesis using rel None op e evt_op_gone [OF e(2), of efd sys p w] by (auto intro!: exI [of _ None] spec_gone)
next
  case (Some n)
  obtain e where e: "evt = Some e" using rel by (cases evt) auto
  note r = rel [unfolded e Some]
  show ?thesis
  proof (cases p)
    case Free_Evt
    then show ?thesis using free_rel [OF k r] op e Some spec_free by (auto simp: evt_op_def split: prod.splits)
  qed (use setevt_rel [OF k r] clearevt_rel [OF k r] waitevt_rel [OF k r] op e Some in \<open>auto simp: evt_op_def\<close>)
qed

lemma evt_ops_rel:
  assumes "event_kernel efd sys view"
  shows "evt_rel efd base (view w) evt s \<Longrightarrow> evt_ops efd sys ps evt w = (rs, evt', w') \<Longrightarrow>
    \<exists>s'. evt_run efd s ps rs s' \<and> evt_rel efd base (view w') evt' s'"
proof (induction ps arbitrary: rs evt w s)
  case Nil
  then show ?case by (auto intro: run_stop)
next
  case (Cons p ps)
  obtain r evt1 w1 where 1: "evt_op efd sys p evt w = (r, evt1, w1)" by (cases "evt_op efd sys p evt w") auto
  obtain rs1 where 2: "evt_ops efd sys ps evt1 w1 = (rs1, evt', w')" "rs = r # rs1"
    using Cons.prems(2) 1 by (auto split: prod.splits)
  from evt_op_rel [OF assms Cons.prems(1) 1] obtain s1 where s1: "evt_spec efd s p r s1" "evt_rel efd base (view w1) evt1 s1"
    by blast
  from Cons.IH [OF s1(2) 2(1)] s1(1) 2(2) show ?case by (blast intro: run_step)
qed


lemma evt_ops_gone: "fds0 e = - 1 \<Longrightarrow> evt_ops efd sys ps (Some e) w = (replicate (length ps) False, Some e, w)"
  by (induction ps) (simp_all add: evt_op_gone)

lemma evt_run_gone: "evt_run efd None ps rs s \<Longrightarrow> rs = replicate (length ps) False \<and> s = None"
proof (induction ps arbitrary: rs)
  case (Cons p ps)
  then show ?case by (auto elim!: evt_run_ConsE simp: evt_spec_gone_simps)
qed (auto elim: evt_run.cases)

lemma evt_op_type:
  assumes "evt_type efd e" and "evt_op efd sys p (Some e) w = (r, evt, w')"
  shows "\<exists>e'. evt = Some e' \<and> evt_type efd e'"
  using assms by (cases p)
    (auto simp: evt_op_def cpr_setevt_def cpr_clearevt_def cpr_waitevt_def evt_result_def cpr_freeevt_def Let_def
      split: if_splits prod.splits)

lemma evt_ops_type:
  "evt_type efd e \<Longrightarrow> evt_ops efd sys ps (Some e) w = (rs, evt, w') \<Longrightarrow> \<exists>e'. evt = Some e' \<and> evt_type efd e'"
proof (induction ps arbitrary: e w rs)
  case (Cons p ps)
  obtain r evt1 w1 where 1: "evt_op efd sys p (Some e) w = (r, evt1, w1)" by (cases "evt_op efd sys p (Some e) w") auto
  obtain e1 where "evt1 = Some e1" "evt_type efd e1" using evt_op_type [OF Cons.prems(1) 1] by auto
  then show ?case using Cons.IH [of e1 w1] Cons.prems(2) 1 by (auto simp del: evt_type.simps split: prod.splits)
qed auto

subsection \<open>Properties\<close>

text \<open>
  A kernel with the two descriptors 3 and 4, for the witnesses. It answers as the documented calls
  do and interrupts only a wait that would never end.
\<close>

definition two_slots :: "bool \<Rightarrow> fd_table evt_calls" where
  "two_slots efd =
     \<lparr>ev_eventfd = (\<lambda>v. if 3 \<in> opened v then (- 1, v) else (3, fd_counter 3 v)),
      ev_pipe = (\<lambda>v. if 3 \<in> opened v \<or> 4 \<in> opened v then (None, v) else (Some (3, 4), fd_pipe 3 4 v)),
      ev_nonblock = (\<lambda>fd v. v\<lparr>nonblock := insert fd (nonblock v)\<rparr>),
      ev_write = (\<lambda>fd bs v. let to = the (feeds v fd); n = the (pending v to) in
        case evt_adds efd bs of None \<Rightarrow> (- 1, v)
        | Some d \<Rightarrow>
            if n + d \<le> evt_limit efd
            then (if efd then 8 else int (length bs), v\<lparr>pending := (pending v)(to \<mapsto> n + d)\<rparr>) else (- 1, v)),
      ev_read = (\<lambda>fd k v. let n = the (pending v fd) in
        if n = 0 \<or> efd \<and> k < 8 then (- 1, v)
        else (if efd then 8 else int (min n k), v\<lparr>pending := (pending v)(fd \<mapsto> if efd then 0 else n - k)\<rparr>)),
      ev_poll = (\<lambda>fd t v. (if the (pending v fd) = 0 then if 0 \<le> t then 0 else - 1 else 1, v)),
      ev_close = fd_close\<rparr>"

definition no_fds :: fd_table where
  "no_fds = \<lparr>opened = {0, 1, 2}, nonblock = {}, pending = Map.empty, feeds = Map.empty\<rparr>"

lemma two_slots_kernel: "event_kernel efd (two_slots efd) (\<lambda>v. v)"
  unfolding event_kernel_def two_slots_def write_law_def read_law_def poll_law_def
  by (intro conjI allI) (simp_all add: Let_def split: option.splits)

text \<open>
  C14. Every sequence of calls on an initialised event is a run of the abstract event, for every
  kernel that behaves as \<open>event_kernel\<close> documents, whichever descriptors it refuses and whichever waits
  it interrupts. One call of cpr_setevt adds one signal; each call returns what the number of pending signals says, the event holds exactly
  its own descriptors while it lives, beside those that were open before, and none when it is gone;
  it never closes a foreign descriptor and never loses one of its own.
\<close>

theorem event_refines:
  assumes "event_kernel efd sys view" and "cpr_initevt efd sys (Some e) w0 = (True, evt, w)"
    and "evt_ops efd sys ps evt w = (rs, evt', w')"
  shows "\<exists>s. evt_run efd (Some 0) ps rs s \<and> evt_rel efd (opened (view w0)) (view w') evt' s"
  using evt_ops_rel [OF assms(1) init_rel [OF assms(1,2)] assms(3)] .

text \<open>Two signals are taken together from a counter; the second time there is nothing to take, and the event is gone.\<close>

lemma two_slots_run:
  "cpr_initevt True (two_slots True) (Some \<lparr>fds0 = 0, fds1 = 0\<rparr>) no_fds =
     (True, Some \<lparr>fds0 = 3, fds1 = 3\<rparr>, fd_counter 3 no_fds)"
  "evt_ops True (two_slots True) [Set_Evt, Set_Evt, Clear_Evt, Clear_Evt, Set_Evt]
     (Some \<lparr>fds0 = 3, fds1 = 3\<rparr>) (fd_counter 3 no_fds) =
     ([True, True, True, False, False], Some \<lparr>fds0 = - 1, fds1 = - 1\<rparr>, no_fds)"
  by (simp_all add: cpr_initevt_def two_slots_def no_fds_def evt_op_def cpr_setevt_def cpr_clearevt_def
      evt_result_def cpr_freeevt_def evt_limit_def evt_adds_def fd_defs)

theorem event_refines_witness:
  "\<exists>s. evt_run True (Some 0) [Set_Evt, Set_Evt, Clear_Evt, Clear_Evt, Set_Evt] [True, True, True, False, False] s \<and>
     evt_rel True {0, 1, 2} no_fds (Some \<lparr>fds0 = - 1, fds1 = - 1\<rparr>) s"
  using event_refines [OF two_slots_kernel two_slots_run] by (simp add: no_fds_def)

text \<open>
  C24. The two descriptors of an event are always both valid or both \<^verbatim>\<open>-1\<close>, one descriptor in the build
  with event counters and two in the other: initialisation establishes it and every sequence of calls
  keeps it, whatever the kernel answers to them. On an event that is gone no call reaches the kernel.
\<close>

theorem event_typed:
  assumes "event_kernel efd sys view" and "cpr_initevt efd sys (Some e) w0 = (True, evt, w)"
    and "evt_ops efd sys' ps evt w1 = (rs, evt', w')"
  shows "\<exists>e'. evt' = Some e' \<and> evt_type efd e' \<and>
    (fds0 e' = - 1 \<longrightarrow> (\<forall>qs w. evt_ops efd sys' qs (Some e') w = (replicate (length qs) False, Some e', w)))"
proof -
  obtain e1 where e1: "evt = Some e1" "evt_type efd e1"
    using init_rel [OF assms(1,2)] by (cases evt) (simp_all del: One_nat_def)
  obtain e' where e': "evt' = Some e'" "evt_type efd e'" 
    using evt_ops_type [OF e1(2) assms(3) [unfolded e1(1)]] by auto
  show ?thesis by (intro exI [of _ e'] conjI impI allI e') (rule evt_ops_gone)
qed

theorem event_typed_witness:
  "\<exists>e'. Some \<lparr>fds0 = - 1, fds1 = - 1\<rparr> = Some e' \<and> evt_type True e' \<and>
    (\<forall>qs w. evt_ops True (two_slots True) qs (Some e') w = (replicate (length qs) False, Some e', w))"
  using event_typed [OF two_slots_kernel two_slots_run] by auto

text \<open>
  Clearing an event that nobody has set is not harmless: the read of the descriptor that does not
  block fails, which frees the event. The descriptors are closed and no later call signals or waits
  any more.
\<close>

theorem clear_idle_frees:
  assumes "event_kernel efd sys view" and "cpr_initevt efd sys (Some e) w0 = (True, evt, w)"
    and "evt_ops efd sys (Clear_Evt # ps) evt w = (rs, evt', w')"
  shows "rs = replicate (length ps + 1) False \<and> evt' = Some \<lparr>fds0 = - 1, fds1 = - 1\<rparr> \<and>
    opened (view w') = opened (view w0)"
proof -
  obtain s where s: "evt_run efd (Some 0) (Clear_Evt # ps) rs s" "evt_rel efd (opened (view w0)) (view w') evt' s"
    using evt_ops_rel [OF assms(1) init_rel [OF assms(1,2)] assms(3)] by blast
  from s(1) have "rs = replicate (length ps + 1) False \<and> s = None"
    by (auto elim!: evt_run_ConsE elim: evt_spec.cases dest!: evt_run_gone)
  then show ?thesis using s(2) by (cases evt') auto
qed

theorem clear_idle_frees_witness:
  "evt_ops False (two_slots False) [Clear_Evt, Set_Evt] (Some \<lparr>fds0 = 3, fds1 = 4\<rparr>)
     (fd_pipe 3 4 no_fds\<lparr>nonblock := {4, 3}\<rparr>) =
     ([False, False], Some \<lparr>fds0 = - 1, fds1 = - 1\<rparr>, no_fds)"
proof -
  have 1: "cpr_initevt False (two_slots False) (Some \<lparr>fds0 = 0, fds1 = 0\<rparr>) no_fds =
      (True, Some \<lparr>fds0 = 3, fds1 = 4\<rparr>, fd_pipe 3 4 no_fds\<lparr>nonblock := {4, 3}\<rparr>)"
    by (simp add: cpr_initevt_def two_slots_def no_fds_def fd_pipe_def)
  obtain rs evt' w' where 2: "evt_ops False (two_slots False) [Clear_Evt, Set_Evt] (Some \<lparr>fds0 = 3, fds1 = 4\<rparr>)
      (fd_pipe 3 4 no_fds\<lparr>nonblock := {4, 3}\<rparr>) = (rs, evt', w')"
    by (rule prod_cases3)
  have 3: "w' = no_fds"
    using 2 by (auto simp add: two_slots_def no_fds_def evt_op_def cpr_setevt_def cpr_clearevt_def evt_result_def
        cpr_freeevt_def Let_def fd_defs)
  show ?thesis using clear_idle_frees [OF two_slots_kernel 1 2] 2 3 by (simp add: numeral_2_eq_2)
qed

end
