(* ===== verification/System.thy ===== *)
theory System
  imports Strchar
begin

text \<open>
  \<^verbatim>\<open>src/system.c\<close> and \<^verbatim>\<open>src/system.h\<close>: file tests, the scanners that hand the lines of a file or
  the entries of a directory to a callback, and the \<^verbatim>\<open>getline\<close> of the Windows build. A file open for
  reading is what is left of it and its end-of-file flag; a callback acts on a world \<open>'w\<close>; what
  \<^verbatim>\<open>stat\<close> and \<^verbatim>\<open>mkdir\<close> answer is an argument.

  The second part shows that the scanner hands out the whole file in order and in bounded
  pieces, and that \<^verbatim>\<open>getline\<close> reads lines of any length into a buffer that grows.
\<close>

subsection \<open>Messages and file tests\<close>

text \<open>\<open>line\<close> is the text the format expands to; the result is what is written to \<^verbatim>\<open>stderr\<close>.\<close>

definition cpr_debug :: "int \<Rightarrow> int \<Rightarrow> byte list \<Rightarrow> byte list" where
  "cpr_debug cpr_verbose level line = (if cpr_verbose < level then [] else line @ [10])"

text \<open>\<^verbatim>\<open>cpr_crit\<close> does not return: its result is what it wrote and the exit code.\<close>

definition cpr_crit :: "int \<Rightarrow> byte list \<Rightarrow> byte list \<times> int" where
  "cpr_crit exit_code line = (line @ [10], exit_code)"

definition make_dir :: "(ptr \<Rightarrow> int \<Rightarrow> int) \<Rightarrow> ptr \<Rightarrow> int \<Rightarrow> int" where
  "make_dir mkdir path perms = (let perms = (if perms = 0 then 493 else perms) in mkdir path perms)"

definition make_dir_win32 :: "(ptr \<Rightarrow> int) \<Rightarrow> (ptr \<Rightarrow> int \<Rightarrow> int) \<Rightarrow> ptr \<Rightarrow> int \<Rightarrow> int" where
  "make_dir_win32 mkdir chmod path perms =
     (let err = mkdir path in if err = 0 \<and> perms \<noteq> 0 then chmod path perms else err)"

text \<open>\<open>stat\<close> gives the mode of a path; the file type is in the bits \<^verbatim>\<open>0170000\<close>.\<close>

definition is_dir :: "(ptr \<Rightarrow> 32 word option) \<Rightarrow> ptr \<Rightarrow> bool" where
  "is_dir stat path = (case stat path of None \<Rightarrow> False | Some m \<Rightarrow> m AND 0xF000 = 0x4000)"

definition is_file :: "(ptr \<Rightarrow> 32 word option) \<Rightarrow> ptr \<Rightarrow> bool" where
  "is_file stat path = (case stat path of None \<Rightarrow> False | Some m \<Rightarrow> m AND 0xF000 = 0x8000)"

subsection \<open>Scanning\<close>

record stream =
  left :: "byte list"
  eof :: bool

text \<open>
  \<^verbatim>\<open>fgets\<close>: at most \<open>n - 1\<close> bytes up to and with the first newline; null when there is nothing
  to read. The flag is set when the end was looked at.
\<close>

primrec upto_newline :: "byte list \<Rightarrow> byte list" where
  "upto_newline [] = []"
| "upto_newline (c # cs) = (if c = 10 then [c] else c # upto_newline cs)"

definition c_fgets :: "nat \<Rightarrow> stream \<Rightarrow> byte list option \<times> stream" where
  "c_fgets n fp =
     (let line = upto_newline (take (n - 1) (left fp));
          fp' = fp\<lparr>left := drop (length line) (left fp), eof := eof fp \<or> length line < n - 1 \<and> last line \<noteq> 10\<rparr> in
      if n = 0 then (None, fp)
      else if n = 1 then (Some [], fp)
      else if left fp = [] then (None, fp\<lparr>eof := True\<rparr>)
      else (Some line, fp'))"

text \<open>
  The loop of \<^verbatim>\<open>scan_file\<close>. The callback \<open>proc\<close> is given the bytes that \<^verbatim>\<open>fgets\<close> put into the buffer in
  front of its terminator. It is an arbitrary function of them; one that reads the buffer as a C
  string depends only on those before the first zero byte, which is the instance
  \<open>\<lambda>line. proc (takeWhile (\<lambda>c. c \<noteq> 0) line)\<close>.
\<close>

primrec scan_loop :: "nat \<Rightarrow> nat \<Rightarrow> (byte list \<Rightarrow> nat \<Rightarrow> 'w \<Rightarrow> bool \<times> 'w) \<Rightarrow> nat \<Rightarrow> stream \<Rightarrow> 'w \<Rightarrow> (nat \<times> stream \<times> 'w) progress" where
  "scan_loop 0 n proc count fp w = Running"
| "scan_loop (Suc k) n proc count fp w =
     (if eof fp then Done (count, fp, w)
      else (case c_fgets n fp of
          (None, fp) \<Rightarrow> Done (count, fp, w)
        | (Some line, fp) \<Rightarrow>
            (case proc line (count + 1) w of
               (False, w) \<Rightarrow> Done (count + 1, fp, w)
             | (True, w) \<Rightarrow> scan_loop k n proc (count + 1) fp w)))"

text \<open>
  The scan of a file, in at most \<open>k\<close> rounds; \<^const>\<open>None\<close> for the null pointer as the file. A buffer
  of no bytes is undefined behaviour.
\<close>

definition scan_file :: "nat \<Rightarrow> stream option \<Rightarrow> size_t \<Rightarrow> (byte list \<Rightarrow> nat \<Rightarrow> 'w \<Rightarrow> bool \<times> 'w) \<Rightarrow> 'w \<Rightarrow>
    (nat \<times> stream option \<times> 'w) progress option" where
  "scan_file k fp n proc w =
     (case fp of None \<Rightarrow> Some (Done (0, None, w))
      | Some fp \<Rightarrow>
          (let n = (if n > 65536 then 65536 else n) in
           if n = 0 then None
           else Some (case scan_loop k n proc 0 fp w of Running \<Rightarrow> Running
             | Done (count, fp, w) \<Rightarrow> Done (count, Some fp, w))))"

primrec scan_entries :: "('e \<Rightarrow> 'w \<Rightarrow> bool \<times> 'w) \<Rightarrow> nat \<Rightarrow> 'e list \<Rightarrow> 'w \<Rightarrow> nat \<times> 'w" where
  "scan_entries proc count [] w = (count, w)"
| "scan_entries proc count (entry # dir) w =
     (case proc entry w of (False, w) \<Rightarrow> (count + 1, w) | (True, w) \<Rightarrow> scan_entries proc (count + 1) dir w)"

definition scan_dir :: "'e list option \<Rightarrow> ('e \<Rightarrow> 'w \<Rightarrow> bool \<times> 'w) \<Rightarrow> 'w \<Rightarrow> nat \<times> 'w" where
  "scan_dir dir proc w = (case dir of None \<Rightarrow> (0, w) | Some entries \<Rightarrow> scan_entries proc 0 entries w)"

subsection \<open>The getline of the Windows build\<close>

text \<open>
  \<^verbatim>\<open>realloc\<close> of a live block: a new block with the old bytes in front, the old one freed; when the
  request is refused the old block stays.
\<close>

definition c_realloc :: "heap \<Rightarrow> ptr \<Rightarrow> size_t \<Rightarrow> (ptr \<times> heap) option" where
  "c_realloc h p n = (case p of Null \<Rightarrow> Some (c_malloc h n) | Ptr b k \<Rightarrow>
     (case hblk h b of None \<Rightarrow> None
      | Some bs \<Rightarrow>
          if k \<noteq> 0 then None
          else (let (q, h) = c_malloc h n in
            if q = Null then Some (Null, h)
            else do { h \<leftarrow> store_list h q (take n bs); h \<leftarrow> c_free h p; Some (q, h) })))"

definition getline_room :: "heap \<Rightarrow> ptr \<Rightarrow> size_t \<Rightarrow> nat \<Rightarrow> (bool \<times> ptr \<times> size_t \<times> heap) option" where
  "getline_room h lp sz pos =
     (if sz_add pos 1 \<ge> sz then
        (let new_size = sz_add sz (sz div 4); new_size = (if new_size < 128 then 128 else new_size) in
         do {
           (new_ptr, h) \<leftarrow> c_realloc h lp new_size;
           Some (if new_ptr = Null then (False, lp, sz, h) else (True, new_ptr, new_size, h)) })
      else Some (True, lp, sz, h))"

text \<open>
  The loop with the character \<open>c\<close> just read and \<open>fp\<close> what is left of the file. The result is what
  the function returns, the pointer and size variables, and what is left.
\<close>

fun winline_loop :: "heap \<Rightarrow> ptr \<Rightarrow> size_t \<Rightarrow> nat \<Rightarrow> byte \<Rightarrow> byte list \<Rightarrow> (int \<times> ptr \<times> size_t \<times> byte list \<times> heap) option" where
  "winline_loop h lp sz pos c fp = do {
     (ok, lp, sz, h) \<leftarrow> getline_room h lp sz pos;
     if \<not> ok then Some (- 1, lp, sz, fp, h)
     else do {
       h \<leftarrow> store h (padd lp pos) c;
       (case (c = 10, fp) of
          (False, c' # fp) \<Rightarrow> winline_loop h lp sz (pos + 1) c' fp
        | _ \<Rightarrow> do { h \<leftarrow> store h (padd lp (pos + 1)) 0; Some (int (pos + 1), lp, sz, fp, h) }) } }"

declare winline_loop.simps [simp del]

text \<open>The variables behind \<^verbatim>\<open>lp\<close> and \<^verbatim>\<open>size\<close> and the file; \<^const>\<open>None\<close> for a null argument.\<close>

definition getline_win32 :: "heap \<Rightarrow> ptr option \<Rightarrow> size_t option \<Rightarrow> byte list option \<Rightarrow> (int \<times> ptr option \<times> size_t option \<times> byte list option \<times> heap) option" where
  "getline_win32 h lp sz fp =
     (case (lp, sz, fp) of
        (Some lp', Some sz', Some (c # rest)) \<Rightarrow>
          (let (lp1, sz1, h) = (if lp' = Null then (let (p, h) = c_malloc h 128 in (p, if p = Null then sz' else 128, h)) else (lp', sz', h)) in
           if lp1 = Null then Some (- 1, Some lp1, Some sz1, Some rest, h)
           else do {
             (r, lp2, sz2, rest, h) \<leftarrow> winline_loop h lp1 sz1 0 c rest;
             Some (r, Some lp2, Some sz2, Some rest, h) })
      | _ \<Rightarrow> Some (- 1, lp, sz, fp, h))"

subsection \<open>Scanning hands out the whole file\<close>

lemma upto_newline_Nil [simp]: "upto_newline cs = [] \<longleftrightarrow> cs = []"
  by (cases cs) auto

lemma upto_newline_prefix: "\<exists>rest. cs = upto_newline cs @ rest"
  by (induction cs) auto

lemma length_upto_newline: "length (upto_newline cs) \<le> length cs"
  using upto_newline_prefix [of cs] by (metis length_append le_add1)

lemma take_upto_newline: "take (length (upto_newline cs)) cs = upto_newline cs"
  using upto_newline_prefix [of cs] by (metis append_eq_conv_conj)

lemma upto_newline_take: "take (length (upto_newline (take n cs))) cs = upto_newline (take n cs)"
  using take_upto_newline [of "take n cs"] length_upto_newline [of "take n cs"] by (simp add: min_def split: if_splits)

lemma newline_last: "10 \<notin> set (butlast (upto_newline cs))"
  by (induction cs) auto

lemma upto_newline_short: "cs \<noteq> [] \<Longrightarrow> last (upto_newline cs) \<noteq> 10 \<Longrightarrow> upto_newline cs = cs"
  by (induction cs) (auto split: if_splits)

text \<open>A file cut into lines, a line of \<open>m\<close> bytes and more into several pieces.\<close>

function pieces :: "nat \<Rightarrow> byte list \<Rightarrow> byte list list" where
  "pieces m cs = (if m = 0 \<or> cs = [] then []
     else upto_newline (take m cs) # pieces m (drop (length (upto_newline (take m cs))) cs))"
  by pat_completeness auto
termination
proof (relation "measure (\<lambda>(m, cs). length cs)")
  fix m :: nat and cs :: "byte list"
  assume a: "\<not> (m = 0 \<or> cs = [])"
  then have "upto_newline (take m cs) \<noteq> []" by simp
  then show "((m, drop (length (upto_newline (take m cs))) cs), (m, cs)) \<in> measure (\<lambda>(m, cs). length cs)" using a by simp
qed simp

declare pieces.simps [simp del]

lemma concat_pieces: "0 < m \<Longrightarrow> concat (pieces m cs) = cs"
proof (induction m cs rule: pieces.induct)
  case (1 m cs)
  show ?case
  proof (cases "cs = []")
    case False
    then have "concat (pieces m cs) = upto_newline (take m cs) @ drop (length (upto_newline (take m cs))) cs"
      using 1 by (subst pieces.simps) simp
    also have "\<dots> = cs" using upto_newline_take [of m cs] by (metis append_take_drop_id)
    finally show ?thesis .
  qed (simp add: pieces.simps)
qed

lemma pieces_bounded: "p \<in> set (pieces m cs) \<Longrightarrow> 0 < length p \<and> length p \<le> m \<and> 10 \<notin> set (butlast p)"
proof (induction m cs rule: pieces.induct)
  case (1 m cs)
  have "length (upto_newline (take m cs)) \<le> m" using length_upto_newline [of "take m cs"] by simp
  moreover have "p \<in> set (if m = 0 \<or> cs = [] then []
      else upto_newline (take m cs) # pieces m (drop (length (upto_newline (take m cs))) cs))"
    using 1(2) by (simp only: pieces.simps [of m cs])
  ultimately show ?case using 1(1) newline_last [of "take m cs"] by (auto split: if_splits)
qed

lemma pieces_last: "pieces m cs = p # ps \<Longrightarrow> length p < m \<Longrightarrow> last p \<noteq> 10 \<Longrightarrow> drop (length p) cs = []"
proof -
  assume a: "pieces m cs = p # ps" "length p < m" "last p \<noteq> 10"
  then have p: "p = upto_newline (take m cs)" "cs \<noteq> []" "m \<noteq> 0" by (auto simp: pieces.simps [of m cs] split: if_splits)
  then have "p = take m cs" using upto_newline_short [of "take m cs"] a(3) by simp
  then show "drop (length p) cs = []" using a(2) by simp
qed

text \<open>The callback on the pieces one after the other, numbered from the count on, until it refuses.\<close>

primrec feed :: "(byte list \<Rightarrow> nat \<Rightarrow> 'w \<Rightarrow> bool \<times> 'w) \<Rightarrow> nat \<Rightarrow> byte list list \<Rightarrow> 'w \<Rightarrow> nat \<times> 'w" where
  "feed proc count [] w = (count, w)"
| "feed proc count (p # ps) w =
     (case proc p (count + 1) w of (False, w) \<Rightarrow> (count + 1, w) | (True, w) \<Rightarrow> feed proc (count + 1) ps w)"

lemma scan_loop_feeds:
  assumes "2 \<le> n" and "length cs < k" and "e \<Longrightarrow> cs = []"
  shows "\<exists>fp'. scan_loop k n proc count \<lparr>left = cs, eof = e\<rparr> w =
    Done (fst (feed proc count (pieces (n - 1) cs) w), fp', snd (feed proc count (pieces (n - 1) cs) w))"
  using assms(2,3)
proof (induction k arbitrary: cs e count w)
  case (Suc k)
  show ?case
  proof (cases "cs = []")
    case True
    then show ?thesis using assms(1) by (auto simp: c_fgets_def pieces.simps)
  next
    case False
    define line where "line = upto_newline (take (n - 1) cs)"
    define rest where "rest = drop (length line) cs"
    have e: "\<not> e" using Suc.prems(2) False by blast
    have ps: "pieces (n - 1) cs = line # pieces (n - 1) rest"
      using False assms(1) by (subst pieces.simps) (simp add: line_def rest_def)
    have ne: "line \<noteq> []" using False assms(1) by (simp add: line_def)
    then have "0 < length line" "0 < length cs" using False by auto
    then have len: "length rest < k" using Suc.prems(1) unfolding rest_def length_drop by linarith
    have g: "c_fgets n \<lparr>left = cs, eof = e\<rparr> = (Some line, \<lparr>left = rest, eof = length line < n - 1 \<and> last line \<noteq> 10\<rparr>)"
      using False assms(1) e by (simp add: c_fgets_def line_def rest_def Let_def)
    have last: "length line < n - 1 \<and> last line \<noteq> 10 \<Longrightarrow> rest = []" using pieces_last [OF ps] by (simp add: rest_def)
    obtain ok w' where pr: "proc line (count + 1) w = (ok, w')" by (cases "proc line (count + 1) w")
    show ?thesis
      using Suc.IH [OF len, of "length line < n - 1 \<and> last line \<noteq> 10" "count + 1" w'] last e g pr ps
      by (cases ok) auto
  qed
qed simp

lemma scan_file_feeds:
  assumes "2 \<le> n" and "length cs < k"
  shows "\<exists>fp'. scan_file k (Some \<lparr>left = cs, eof = False\<rparr>) n proc w =
      Some (Done (fst (feed proc 0 (pieces (min n 65536 - 1) cs) w), Some fp', snd (feed proc 0 (pieces (min n 65536 - 1) cs) w)))"
proof -
  define m where "m = min n 65536"
  have m: "2 \<le> m" "(if n > 65536 then 65536 else n) = m" using assms(1) by (auto simp: m_def)
  obtain fp' where "scan_loop k m proc 0 \<lparr>left = cs, eof = False\<rparr> w =
      Done (fst (feed proc 0 (pieces (m - 1) cs) w), fp', snd (feed proc 0 (pieces (m - 1) cs) w))"
    using scan_loop_feeds [OF m(1) assms(2), of False proc 0 w] by auto
  then show ?thesis using m unfolding scan_file_def m_def [symmetric] by simp
qed

text \<open>
  C21. Scanning a file with a buffer of at least two bytes ends, and hands the file to the callback in
  order and without a gap, in numbered pieces that are a line or the part of one that fits the
  buffer, until the callback refuses; the result is the number of pieces handed out.
\<close>

theorem scan_file_pieces:
  assumes "2 \<le> n" and "length cs < k"
  shows "\<exists>fp'. scan_file k (Some \<lparr>left = cs, eof = False\<rparr>) n proc w =
      Some (Done (fst (feed proc 0 (pieces (min n 65536 - 1) cs) w), Some fp', snd (feed proc 0 (pieces (min n 65536 - 1) cs) w))) \<and>
    concat (pieces (min n 65536 - 1) cs) = cs \<and>
    (\<forall>p \<in> set (pieces (min n 65536 - 1) cs). 0 < length p \<and> length p < min n 65536 \<and> 10 \<notin> set (butlast p))"
proof -
  define m where "m = min n 65536"
  have m: "2 \<le> m" using assms(1) by (auto simp: m_def)
  have "length p < m" if "p \<in> set (pieces (m - 1) cs)" for p using pieces_bounded [OF that] m by linarith
  then show ?thesis
    using scan_file_feeds [OF assms, of proc w] concat_pieces [of "m - 1" cs] pieces_bounded [of _ "m - 1" cs] m
    by (auto simp flip: m_def)
qed

text \<open>The callback of the witness collects what it is given and stops at the second piece.\<close>

theorem scan_file_pieces_witness:
  "\<exists>fp'. scan_file 9 (Some \<lparr>left = [97, 10, 98, 99, 100], eof = False\<rparr>) 3 (\<lambda>line n w. (n < 2, w @ [(n, line)])) [] =
     Some (Done (2, Some fp', [(1, [97, 10]), (2, [98, 99])]))"
proof -
  have ps: "pieces (min 3 65536 - 1) [97, 10, 98, 99, 100] = [[97, 10], [98, 99], [100]]" by (simp add: pieces.simps)
  have "feed (\<lambda>line n w. (n < 2, w @ [(n, line)])) 0 [[97, 10], [98, 99], [100 :: byte]] [] = (2, [(1, [97, 10]), (2, [98, 99])])"
    by simp
  then show ?thesis
    using scan_file_pieces [of 3 "[97, 10, 98, 99, 100]" 9 "\<lambda>line n w. (n < 2, w @ [(n, line)])" "[]"] unfolding ps by (simp del: feed.simps)
qed

text \<open>With a buffer of one byte nothing is ever read: the scan calls back with an empty line for ever.\<close>

lemma scan_file_one_byte: "scan_file k (Some \<lparr>left = cs, eof = False\<rparr>) 1 (\<lambda>line n w. (True, w)) w = Some Running"
proof -
  have "scan_loop k 1 (\<lambda>line n w. (True, w)) count \<lparr>left = cs, eof = False\<rparr> w = Running" for count
    by (induction k arbitrary: count) (simp_all add: c_fgets_def)
  then show ?thesis by (simp add: scan_file_def)
qed


subsection \<open>Lines of any length\<close>

text \<open>
  A buffer of \<open>sz\<close> bytes that begins with \<open>line\<close>, in a store that grants every request; \<open>frame\<close> is
  what the caller may rely on for the rest of the store.
\<close>

definition line_buf :: "heap \<Rightarrow> ptr \<Rightarrow> size_t \<Rightarrow> byte list \<Rightarrow> bool" where
  "line_buf h lp sz line \<longleftrightarrow> heap_ok h \<and> (\<forall>n m. hgrant h n m) \<and>
     (\<exists>b rest. lp = Ptr b 0 \<and> hblk h b = Some (line @ rest) \<and> length (line @ rest) = sz)"

definition line_frame :: "heap \<Rightarrow> ptr \<Rightarrow> heap \<Rightarrow> ptr \<Rightarrow> bool" where
  "line_frame h lp h' lp' \<longleftrightarrow> (\<forall>d bs. d \<noteq> ptr_block lp \<longrightarrow> hblk h d = Some bs \<longrightarrow> hblk h' d = Some bs \<and> d \<noteq> ptr_block lp')"

lemma line_frame_refl: "line_frame h lp h lp"
  by (simp add: line_frame_def)

lemma line_frame_trans: "line_frame h lp h' lp' \<Longrightarrow> line_frame h' lp' h'' lp'' \<Longrightarrow> line_frame h lp h'' lp''"
  by (simp add: line_frame_def)

lemma line_buf_store:
  assumes "line_buf h lp sz line" and "length line < sz"
  obtains h' where "store h (padd lp (length line)) c = Some h'" and "line_buf h' lp sz (line @ [c])" and "line_frame h lp h' lp"
proof -
  obtain b x rest where b: "lp = Ptr b 0" "hblk h b = Some (line @ x # rest)" "length (line @ x # rest) = sz"
    using assms by (auto simp: line_buf_def neq_Nil_conv)
  show ?thesis
  proof (rule that)
    show "store h (padd lp (length line)) c = Some (put_block h b (line @ c # rest))" using b by (simp add: store_Ptr)
    show "line_buf (put_block h b (line @ c # rest)) lp sz (line @ [c])"
      using assms(1) b by (auto simp: line_buf_def intro: heap_ok_put_block heap_ok_live)
    show "line_frame h lp (put_block h b (line @ c # rest)) lp" using b by (auto simp: line_frame_def)
  qed
qed

lemma c_realloc_grows:
  assumes "line_buf h lp sz line" and "sz \<le> n"
  obtains lp' h' where "c_realloc h lp n = Some (lp', h')" and "lp' \<noteq> Null" and "line_buf h' lp' n line" and "line_frame h lp h' lp'"
proof -
  obtain b rest where b: "lp = Ptr b 0" "hblk h b = Some (line @ rest)" "length (line @ rest) = sz"
    using assms(1) by (auto simp: line_buf_def)
  have ok: "heap_ok h" "hgrant h (hseq h) n" using assms(1) by (auto simp: line_buf_def)
  obtain h1 junk where m: "c_malloc h n = (Ptr (hseq h) 0, h1)" "length junk = n" "hblk h1 = (hblk h)(hseq h \<mapsto> junk)" "heap_ok h1"
      "\<And>c bs. hblk h c = Some bs \<Longrightarrow> c \<noteq> hseq h"
    using c_malloc_granted [OF ok] by metis
  have ne: "b \<noteq> hseq h" using m(5) b(2) by blast
  obtain front rear where j: "junk = front @ rear" "length front = sz"
    using m(2) assms(2) by (metis append_take_drop_id length_take min.absorb2)
  define h2 where "h2 = put_block h1 (hseq h) ((line @ rest) @ rear)"
  define h3 where "h3 = h2\<lparr>hblk := (hblk h2)(b := None)\<rparr>"
  have "store_list h1 (Ptr (hseq h) 0) (line @ rest) = Some h2"
    using store_list_mid [of h1 "hseq h" "[]" front rear 0 "line @ rest"] m(3) j b(3) by (simp add: h2_def)
  moreover have "take n (line @ rest) = line @ rest" using b(3) assms(2) by simp
  moreover have "c_free h2 lp = Some h3" using b(1,2) ne m(3) by (simp add: c_free_def h2_def h3_def)
  ultimately have "c_realloc h lp n = Some (Ptr (hseq h) 0, h3)" using m(1) b(1,2) by (simp add: c_realloc_def)
  moreover have "heap_ok h3"
    using heap_ok_put_block [OF m(4) heap_ok_live [OF m(4), of "hseq h" junk]] m(3) by (auto simp: h3_def h2_def heap_ok_def)
  then have "line_buf h3 (Ptr (hseq h) 0) n line"
    using assms(1) ne m(1,2) j b(3) by (auto simp: line_buf_def h3_def h2_def c_malloc_def split: if_splits)
  moreover have "line_frame h lp h3 (Ptr (hseq h) 0)" using b(1) m(3,5) by (auto simp: line_frame_def h3_def h2_def)
  ultimately show ?thesis by (intro that) auto
qed


lemma getline_room_grows:
  assumes buf: "line_buf h lp sz line" and "line = [] \<or> length line < sz" and "2 * length line + 256 < 2 ^ 64"
  obtains lp' sz' h' where "getline_room h lp sz (length line) = Some (True, lp', sz', h')" and "length line + 1 < sz'"
    and "line_buf h' lp' sz' line" and "line_frame h lp h' lp'"
proof (cases "length line + 1 \<ge> sz")
  case False
  then show ?thesis using assms by (intro that [of lp sz h]) (auto simp: getline_room_def size_simps line_frame_refl)
next
  case True
  define n where "n = (if sz + sz div 4 < 128 then 128 else sz + sz div 4)"
  have sz: "sz \<le> length line + 1" using True by simp
  then have n: "sz_add sz (sz div 4) = sz + sz div 4" "sz_add (length line) 1 = length line + 1"
    using assms(3) by (simp_all add: size_simps)
  have big: "sz \<le> n" "length line + 1 < n" using assms(2) sz by (auto simp: n_def)
  obtain lp' h' where "c_realloc h lp n = Some (lp', h')" "lp' \<noteq> Null" "line_buf h' lp' n line" "line_frame h lp h' lp'"
    by (rule c_realloc_grows [OF buf big(1)])
  then show ?thesis using True n big by (intro that [of lp' n h']) (auto simp: getline_room_def Let_def n_def [symmetric])
qed

lemma winline_put:
  assumes "line_buf h lp sz line" and "line = [] \<or> length line < sz" and "2 * length line + 256 < 2 ^ 64"
  obtains lp1 sz1 h1 h2 where "getline_room h lp sz (length line) = Some (True, lp1, sz1, h1)"
    and "store h1 (padd lp1 (length line)) c = Some h2" and "line_buf h2 lp1 sz1 (line @ [c])"
    and "length (line @ [c]) < sz1" and "line_frame h lp h2 lp1"
proof -
  obtain lp1 sz1 h1 where 1: "getline_room h lp sz (length line) = Some (True, lp1, sz1, h1)" "length line + 1 < sz1"
      "line_buf h1 lp1 sz1 line" "line_frame h lp h1 lp1"
    by (rule getline_room_grows [OF assms])
  have "length line < sz1" using 1(2) by simp
  then obtain h2 where "store h1 (padd lp1 (length line)) c = Some h2" "line_buf h2 lp1 sz1 (line @ [c])" "line_frame h1 lp1 h2 lp1"
    by (rule line_buf_store [OF 1(3)])
  with 1 show ?thesis by (intro that [of lp1 sz1 h1 h2]) (auto intro: line_frame_trans)
qed

lemma winline_stop:
  assumes "line_buf h lp sz line" and "line = [] \<or> length line < sz" and "2 * length line + 256 < 2 ^ 64"
    and "c = 10 \<or> fp = []"
  shows "\<exists>lp' sz' h'. winline_loop h lp sz (length line) c fp = Some (int (length line + 1), lp', sz', fp, h') \<and>
    line_buf h' lp' sz' (line @ [c, 0]) \<and> line_frame h lp h' lp'"
proof -
  obtain lp1 sz1 h1 h2 where 1: "getline_room h lp sz (length line) = Some (True, lp1, sz1, h1)"
      "store h1 (padd lp1 (length line)) c = Some h2" "line_buf h2 lp1 sz1 (line @ [c])"
      "length (line @ [c]) < sz1" "line_frame h lp h2 lp1"
    by (rule winline_put [OF assms(1-3)])
  obtain h3 where 3: "store h2 (padd lp1 (length (line @ [c]))) 0 = Some h3" "line_buf h3 lp1 sz1 ((line @ [c]) @ [0])"
      "line_frame h2 lp1 h3 lp1"
    by (rule line_buf_store [OF 1(3,4)])
  have "winline_loop h lp sz (length line) c fp = Some (int (length line + 1), lp1, sz1, fp, h3)"
    using 1 3 assms(4) by (subst winline_loop.simps) (auto split: list.split bool.split)
  then show ?thesis using 3(2) line_frame_trans [OF 1(5) 3(3)] by auto
qed

lemma winline_loop_reads:
  assumes "line_buf h lp sz line" and "line = [] \<or> length line < sz" and "2 * (length line + length fp) + 256 < 2 ^ 64"
  shows "\<exists>lp' sz' h'. winline_loop h lp sz (length line) c fp =
      Some (int (length (line @ upto_newline (c # fp))), lp', sz', drop (length (upto_newline (c # fp))) (c # fp), h') \<and>
    line_buf h' lp' sz' (line @ upto_newline (c # fp) @ [0]) \<and> line_frame h lp h' lp'"
  using assms
proof (induction fp arbitrary: h lp sz line c)
  case (Nil h lp sz line c)
  then show ?case using winline_stop [of h lp sz line c "[]"] by (auto split: if_splits)
next
  case (Cons c' fp)
  have small: "2 * length line + 256 < 2 ^ 64" using Cons.prems(3) by simp
  show ?case
  proof (cases "c = 10")
    case True
    then show ?thesis using winline_stop [OF Cons.prems(1,2) small, of c "c' # fp"] by simp
  next
    case False
    obtain lp1 sz1 h1 h2 where 1: "getline_room h lp sz (length line) = Some (True, lp1, sz1, h1)"
        "store h1 (padd lp1 (length line)) c = Some h2" "line_buf h2 lp1 sz1 (line @ [c])"
        "length (line @ [c]) < sz1" "line_frame h lp h2 lp1"
      by (rule winline_put [OF Cons.prems(1,2) small])
    have "2 * (length (line @ [c]) + length fp) + 256 < 2 ^ 64" using Cons.prems(3) by simp
    from Cons.IH [OF 1(3) disjI2 [OF 1(4)] this, of c'] obtain lp' sz' h' where
      ih: "winline_loop h2 lp1 sz1 (length (line @ [c])) c' fp =
        Some (int (length ((line @ [c]) @ upto_newline (c' # fp))), lp', sz', drop (length (upto_newline (c' # fp))) (c' # fp), h')"
        "line_buf h' lp' sz' ((line @ [c]) @ upto_newline (c' # fp) @ [0])" "line_frame h2 lp1 h' lp'" by blast
    have "winline_loop h lp sz (length line) c (c' # fp) = winline_loop h2 lp1 sz1 (length (line @ [c])) c' fp"
      using 1 False by (subst winline_loop.simps) simp
    then show ?thesis using ih line_frame_trans [OF 1(5) ih(3)] False by auto
  qed
qed

text \<open>
  C15. The \<^verbatim>\<open>getline\<close> of the Windows build reads one line of any length from a file that is not at its
  end, while memory lasts. Whatever buffer it is given, or
  none, it returns the length of the line with its newline, leaves the line and a terminator in a
  buffer of the size it reports, consumes exactly the line and touches no other object.
\<close>

theorem getline_win32_line:
  assumes "heap_ok h" and "\<forall>n m. hgrant h n m" and "2 * length fp + 256 < 2 ^ 64" and "fp \<noteq> []"
    and "lp = Null \<or> (\<exists>b bs. lp = Ptr b 0 \<and> hblk h b = Some bs \<and> length bs = sz)"
  shows "\<exists>b sz' post h'. getline_win32 h (Some lp) (Some sz) (Some fp) =
      Some (int (length (upto_newline fp)), Some (Ptr b 0), Some sz', Some (drop (length (upto_newline fp)) fp), h') \<and>
    hblk h' b = Some (upto_newline fp @ 0 # post) \<and> sz' = length (upto_newline fp @ 0 # post) \<and>
    (\<forall>d bs. hblk h d = Some bs \<longrightarrow> lp \<noteq> Ptr d 0 \<longrightarrow> hblk h' d = Some bs \<and> d \<noteq> b)"
proof -
  obtain c rest where fp: "fp = c # rest" using assms(4) by (cases fp) auto
  have len: "2 * (length ([] :: byte list) + length rest) + 256 < 2 ^ 64" using assms(3) fp by simp
  obtain lp1 sz1 h1 where first: "line_buf h1 lp1 sz1 []" "lp1 \<noteq> Null"
      "(if lp = Null then (let (p, h) = c_malloc h 128 in (p, if p = Null then sz else 128, h)) else (lp, sz, h)) = (lp1, sz1, h1)"
      "\<And>d bs. hblk h d = Some bs \<Longrightarrow> lp \<noteq> Ptr d 0 \<Longrightarrow> hblk h1 d = Some bs \<and> d \<noteq> ptr_block lp1"
  proof (cases "lp = Null")
    case True
    obtain h1 junk where m: "c_malloc h 128 = (Ptr (hseq h) 0, h1)" "length junk = 128" "hblk h1 = (hblk h)(hseq h \<mapsto> junk)" "heap_ok h1"
        "\<And>c bs. hblk h c = Some bs \<Longrightarrow> c \<noteq> hseq h"
      using c_malloc_granted [OF assms(1), of 128] assms(2) by metis
    have "line_buf h1 (Ptr (hseq h) 0) 128 []" using m assms(2) by (auto simp: line_buf_def c_malloc_def split: if_splits)
    then show ?thesis using m True by (intro that [of h1 "Ptr (hseq h) 0" 128]) auto
  next
    case False
    then obtain b bs where b: "lp = Ptr b 0" "hblk h b = Some bs" "length bs = sz" using assms(5) by auto
    have "line_buf h lp sz []" using b assms(1,2) by (auto simp: line_buf_def)
    then show ?thesis using b by (intro that [of h lp sz]) auto
  qed
  obtain lp' sz' h' where run: "winline_loop h1 lp1 sz1 0 c rest =
      Some (int (length (upto_newline fp)), lp', sz', drop (length (upto_newline fp)) fp, h')"
      "line_buf h' lp' sz' (upto_newline fp @ [0])" "line_frame h1 lp1 h' lp'"
    using winline_loop_reads [OF first(1) disjI1 [OF refl] len, of c] fp by auto
  obtain b post where b: "lp' = Ptr b 0" "hblk h' b = Some (upto_newline fp @ 0 # post)" "length (upto_newline fp @ 0 # post) = sz'"
    using run(2) by (auto simp: line_buf_def)
  have "getline_win32 h (Some lp) (Some sz) (Some fp) =
      Some (int (length (upto_newline fp)), Some (Ptr b 0), Some sz', Some (drop (length (upto_newline fp)) fp), h')"
    unfolding getline_win32_def fp using first(2,3) run(1) [unfolded fp] b(1) by simp
  moreover have "hblk h d = Some bs \<Longrightarrow> lp \<noteq> Ptr d 0 \<Longrightarrow> hblk h' d = Some bs \<and> d \<noteq> b" for d bs
    using first(4) [of d bs] run(3) b(1) by (auto simp: line_frame_def)
  ultimately show ?thesis using b(2,3) by blast
qed

theorem getline_win32_line_witness:
  "\<exists>b sz' post h'. getline_win32 (heap_of [[7, 7]]) (Some (Ptr 0 0)) (Some 2) (Some [97, 98, 99, 10, 100]) =
      Some (4, Some (Ptr b 0), Some sz', Some [100], h') \<and> hblk h' b = Some ([97, 98, 99, 10] @ 0 # post)"
proof -
  have "upto_newline [97, 98, 99, 10, 100] = [97, 98, 99, 10]" by simp
  then show ?thesis
    using getline_win32_line [of "heap_of [[7, 7]]" "[97, 98, 99, 10, 100]" "Ptr 0 0" 2] by fastforce
qed

subsection \<open>Streams over memory\<close>

text \<open>
  The wrappers of \<^verbatim>\<open>fmemopen\<close> in \<^verbatim>\<open>src/memory.h\<close>. \<open>fm\<close> is \<^verbatim>\<open>fmemopen\<close> on the store, \<^const>\<open>None\<close> for
  the null stream.
\<close>

type_synonym fmemopen = "heap \<Rightarrow> ptr \<Rightarrow> size_t \<Rightarrow> string \<Rightarrow> stream option"

definition cpr_memread :: "fmemopen \<Rightarrow> heap \<Rightarrow> ptr \<Rightarrow> size_t \<Rightarrow> stream option" where
  "cpr_memread fm h from sz = (if from = Null \<or> sz = 0 then None else fm h from sz ''r'')"

definition cpr_memwrite :: "fmemopen \<Rightarrow> heap \<Rightarrow> ptr \<Rightarrow> size_t \<Rightarrow> stream option" where
  "cpr_memwrite fm h data sz = (if data = Null \<or> sz = 0 then None else fm h data sz ''w'')"

definition cpr_memstring :: "fmemopen \<Rightarrow> heap \<Rightarrow> ptr \<Rightarrow> size_t \<Rightarrow> stream option option" where
  "cpr_memstring fm h text lim =
     (if text = Null then Some None
      else do {
        lim \<leftarrow> cpr_strlen h text lim;
        Some (if lim = 0 then None else fm h text lim ''r'') })"

text \<open>\<open>reads_memory fm\<close>: a stream opened for reading holds the bytes it was opened on.\<close>

definition reads_memory :: "fmemopen \<Rightarrow> bool" where
  "reads_memory fm \<longleftrightarrow> (\<forall>h p n bs. load_list h p n = Some bs \<longrightarrow> fm h p n ''r'' = Some \<lparr>left = bs, eof = False\<rparr>)"

lemma cpr_memstring_stream:
  assumes "reads_memory fm" and "cstr h p s" and "s \<noteq> []"
  shows "cpr_memstring fm h p lim = Some (Some \<lparr>left = clip lim s, eof = False\<rparr>)"
proof -
  have "load_list h p (length (clip lim s)) = Some (clip lim s)"
    using load_list_cstr [OF assms(2), of "length (clip lim s)"] by (auto simp: clip_def min_def)
  moreover have "clip lim s \<noteq> []" using assms(3) by (simp add: clip_def)
  ultimately show ?thesis
    using assms(1) cpr_strlen_cstr [OF assms(2), of lim] cstr_not_Null [OF assms(2)]
    by (simp add: cpr_memstring_def reads_memory_def)
qed

end
