(* ===== verification/Service.thy ===== *)
theory Service
  imports Cpr_Prelude
begin

text \<open>
  \<^verbatim>\<open>src/service.c\<close> and \<^verbatim>\<open>src/service.h\<close>: the running flag of a service and its messages, to the system
  log and to a file, in the POSIX version. The static variables are a record; a call that reaches
  the system is appended to a trace. A message \<open>msg\<close> is the text its format expands to. The source
  passes one argument list first to \<^verbatim>\<open>vsyslog\<close> and then, without copying it, to \<^verbatim>\<open>vfprintf\<close>, which C
  leaves undefined; \<open>stale\<close> is whatever the format expands to the second time, an argument of its
  own about which nothing is assumed. \<open>debug\<close> is false in builds with \<^verbatim>\<open>NDEBUG\<close>. The functions that
  end the process give the exit code as their result.
\<close>

unbundle bit_operations_syntax

subsection \<open>State and system calls\<close>

definition LOG_CRIT :: int where "LOG_CRIT = 2"
definition LOG_ERR :: int where "LOG_ERR = 3"
definition LOG_WARNING :: int where "LOG_WARNING = 4"
definition LOG_NOTICE :: int where "LOG_NOTICE = 5"
definition LOG_INFO :: int where "LOG_INFO = 6"
definition LOG_DEBUG :: int where "LOG_DEBUG = 7"

definition LOG_UPTO :: "int \<Rightarrow> int" where "LOG_UPTO level = 2 ^ nat (level + 1) - 1"

datatype log_call =
    Open_Log "byte list" int int
  | Set_Mask int
  | Vsyslog int "byte list"
  | Close_Log
  | Print "byte list" "byte list"

record service =
  running :: bool
  logger :: bool
  calls :: "log_call list"

definition emit :: "log_call \<Rightarrow> service \<Rightarrow> service" where
  "emit c s = s\<lparr>calls := calls s @ [c]\<rparr>"

subsection \<open>Operations\<close>

definition is_service :: "int \<Rightarrow> int \<Rightarrow> int \<Rightarrow> service \<Rightarrow> bool \<times> service" where
  "is_service uid pid ppid s = (uid = 0 \<or> pid = 1 \<or> ppid = 1, s\<lparr>running := True\<rparr>)"

definition cpr_syslog :: "int \<Rightarrow> byte list \<Rightarrow> service \<Rightarrow> service" where
  "cpr_syslog priority msg s = (if \<not> logger s then s else emit (Vsyslog priority msg) s)"

definition cpr_closelog :: "service \<Rightarrow> service" where
  "cpr_closelog s = emit Close_Log (s\<lparr>logger := False\<rparr>)"

definition log_level :: "int \<Rightarrow> int" where
  "log_level cpr_verbose =
     (if cpr_verbose = 0 then LOG_ERR
      else if cpr_verbose = 1 then LOG_INFO
      else if cpr_verbose = 2 then LOG_NOTICE
      else LOG_DEBUG)"

definition cpr_openlog :: "int \<Rightarrow> byte list option \<Rightarrow> int \<Rightarrow> int \<Rightarrow> service \<Rightarrow> service" where
  "cpr_openlog cpr_verbose ident facility flags s =
     (case ident of None \<Rightarrow> s
      | Some name \<Rightarrow> emit (Set_Mask (LOG_UPTO (log_level cpr_verbose))) (emit (Open_Log name flags facility) (s\<lparr>logger := True\<rparr>)))"

definition is_running :: "service \<Rightarrow> bool" where
  "is_running s = running s"

definition cpr_shutdown :: "int \<Rightarrow> service \<Rightarrow> int \<times> service" where
  "cpr_shutdown excode s = (excode, s\<lparr>running := False\<rparr>)"

definition cpr_sysexit :: "int \<Rightarrow> byte list \<Rightarrow> byte list \<Rightarrow> service \<Rightarrow> int \<times> service" where
  "cpr_sysexit exit_code stale msg s =
     (let printed = (if logger s then stale else msg);
          s = (if logger s then emit (Vsyslog LOG_CRIT msg) s else s);
          s = emit (Print [] (printed @ [10])) s in
      cpr_shutdown exit_code s)"

text \<open>
  \<open>now\<close> is the formatted time. At level 3 the message goes to \<^verbatim>\<open>cpr_syslog\<close> first, with its format and
  the argument list in place of the arguments; \<open>garbled\<close> is the text that expands to.
\<close>

definition log_type :: "int \<Rightarrow> byte list" where
  "log_type level = str_bytes (if level = 0 then ''fail'' else if level = 1 then ''warn'' else if level = 2 then ''info'' else ''note'')"

definition log_priority :: "bool \<Rightarrow> int \<Rightarrow> int" where
  "log_priority debug level =
     (if level = 0 then LOG_ERR else if level = 1 then LOG_WARNING else if level = 2 then LOG_INFO
      else if level = 3 then LOG_NOTICE else if debug then LOG_DEBUG else - 1)"

definition cpr_logger :: "bool \<Rightarrow> int \<Rightarrow> byte list \<Rightarrow> int \<Rightarrow> byte list \<Rightarrow> byte list \<Rightarrow> byte list \<Rightarrow> service \<Rightarrow> service" where
  "cpr_logger debug cpr_verbose now level garbled stale msg s =
     (let s = (if level = 3 then cpr_syslog LOG_NOTICE garbled s else s);
          priority = log_priority debug level;
          sent = (priority \<noteq> - 1 \<and> logger s);
          s = (if sent then emit (Vsyslog priority msg) s else s) in
      if cpr_verbose \<le> level
      then emit (Print (now @ [32] @ log_type level @ [58, 32]) ((if sent then stale else msg) @ [10])) s
      else s)"


subsection \<open>The system log is used between opening and closing\<close>

text \<open>
  What a program calls. An operation may end the process; then nothing of the run follows it.
\<close>

datatype service_op =
    Op_Is_Service int int int
  | Op_Openlog int "byte list option" int int
  | Op_Closelog
  | Op_Syslog int "byte list"
  | Op_Logger bool int "byte list" int "byte list" "byte list" "byte list"
  | Op_Shutdown int
  | Op_Sysexit int "byte list" "byte list"

primrec service_exec :: "service_op \<Rightarrow> service \<Rightarrow> int option \<times> service" where
  "service_exec (Op_Is_Service uid pid ppid) s = (None, snd (is_service uid pid ppid s))"
| "service_exec (Op_Openlog v ident facility flags) s = (None, cpr_openlog v ident facility flags s)"
| "service_exec Op_Closelog s = (None, cpr_closelog s)"
| "service_exec (Op_Syslog priority msg) s = (None, cpr_syslog priority msg s)"
| "service_exec (Op_Logger debug v now level garbled stale msg) s =
     (None, cpr_logger debug v now level garbled stale msg s)"
| "service_exec (Op_Shutdown code) s = map_prod Some (\<lambda>s. s) (cpr_shutdown code s)"
| "service_exec (Op_Sysexit code stale msg) s = map_prod Some (\<lambda>s. s) (cpr_sysexit code stale msg s)"

primrec service_run :: "service_op list \<Rightarrow> service \<Rightarrow> int option \<times> service" where
  "service_run [] s = (None, s)"
| "service_run (p # ps) s =
     (case service_exec p s of
        (Some code, s) \<Rightarrow> (Some code, s)
      | (None, s) \<Rightarrow> service_run ps s)"

definition service_start :: service where
  "service_start = \<lparr>running = True, logger = False, calls = []\<rparr>"

text \<open>
  Whether the log is open after a trace, and whether every message in the trace met an open log.
\<close>

primrec log_step :: "log_call \<Rightarrow> bool \<Rightarrow> bool" where
  "log_step (Open_Log n fl fa) o1 = True"
| "log_step (Set_Mask m) o1 = o1"
| "log_step (Vsyslog p msg) o1 = o1"
| "log_step Close_Log o1 = False"
| "log_step (Print a b) o1 = o1"

primrec disciplined :: "bool \<Rightarrow> log_call list \<Rightarrow> bool" where
  "disciplined o1 [] = True"
| "disciplined o1 (c # cs) = ((case c of Vsyslog p msg \<Rightarrow> o1 | _ \<Rightarrow> True) \<and> disciplined (log_step c o1) cs)"

definition log_open :: "log_call list \<Rightarrow> bool" where
  "log_open cs = fold log_step cs False"

lemma disciplined_snoc:
  "disciplined o1 (cs @ [c]) \<longleftrightarrow> disciplined o1 cs \<and> (case c of Vsyslog p msg \<Rightarrow> fold log_step cs o1 | _ \<Rightarrow> True)"
  by (cases c; induction cs arbitrary: o1) simp_all

definition log_inv :: "service \<Rightarrow> bool" where
  "log_inv s \<longleftrightarrow> disciplined False (calls s) \<and> (logger s \<longleftrightarrow> log_open (calls s))"

lemma log_inv_emit:
  assumes "log_inv s" and "case c of Vsyslog p msg \<Rightarrow> logger s | _ \<Rightarrow> True"
    and "calls s' = calls s @ [c]" and "logger s' = log_step c (logger s)"
  shows "log_inv s'"
  using assms by (cases c) (simp_all add: log_inv_def disciplined_snoc log_open_def)

lemma log_inv_quiet:
  assumes "log_inv s" and "case c of Vsyslog p msg \<Rightarrow> logger s | Set_Mask m \<Rightarrow> True | Print a b \<Rightarrow> True | _ \<Rightarrow> False"
  shows "log_inv (emit c s)"
  by (rule log_inv_emit [OF assms(1), of c]) (use assms(2) in \<open>auto simp: emit_def split: log_call.splits\<close>)

lemma log_inv_syslog: "log_inv s \<Longrightarrow> log_inv (cpr_syslog p msg s)"
  by (simp add: cpr_syslog_def log_inv_quiet)

lemma log_inv_static: "log_inv (s\<lparr>running := r\<rparr>) = log_inv s"
  by (simp add: log_inv_def)

lemma log_inv_op: "log_inv s \<Longrightarrow> log_inv (snd (service_exec p s))"
proof (cases p)
  case (Op_Openlog v ident facility flags)
  assume s: "log_inv s"
  have "log_inv (emit (Open_Log n fl fa) (s\<lparr>logger := True\<rparr>))" for n fl fa
    by (rule log_inv_emit [OF s, of "Open_Log n fl fa"]) (simp_all add: emit_def)
  then show ?thesis using s Op_Openlog by (auto simp: cpr_openlog_def intro: log_inv_quiet split: option.split)
next
  case Op_Closelog
  assume s: "log_inv s"
  show ?thesis by (rule log_inv_emit [OF s, of Close_Log]) (simp_all add: Op_Closelog cpr_closelog_def emit_def)
next
  case (Op_Logger debug v now level garbled stale msg)
  assume s: "log_inv s"
  show ?thesis using s Op_Logger by (auto simp: cpr_logger_def Let_def intro!: log_inv_quiet log_inv_syslog)
next
  case (Op_Sysexit code stale msg)
  assume s: "log_inv s"
  show ?thesis using s Op_Sysexit
    by (auto simp: cpr_sysexit_def cpr_shutdown_def Let_def log_inv_static intro!: log_inv_quiet)
qed (simp_all add: log_inv_syslog is_service_def cpr_shutdown_def log_inv_static)

lemma service_exec_running:
  assumes "running s" and "service_exec p s = (ex, s')"
  shows "running s' \<longleftrightarrow> ex = None"
  using assms by (cases p) (auto simp: is_service_def cpr_openlog_def cpr_closelog_def cpr_syslog_def cpr_logger_def
      cpr_shutdown_def cpr_sysexit_def emit_def Let_def split: option.splits if_splits)

lemma service_run_inv:
  "log_inv s \<Longrightarrow> running s \<Longrightarrow>
   case service_run ps s of (ex, s') \<Rightarrow> log_inv s' \<and> (running s' \<longleftrightarrow> ex = None)"
proof (induction ps arbitrary: s)
  case (Cons p ps)
  obtain ex s1 where 1: "service_exec p s = (ex, s1)" by fastforce
  show ?case
    using Cons.IH [of s1] log_inv_op [OF Cons.prems(1), of p] service_exec_running [OF Cons.prems(2) 1] 1
    by (cases ex) simp_all
qed simp

text \<open>
  C23. Whatever a program does with the service functions, up to the end of its run or the call that
  ends it, no message reaches the system log before it was opened or after it was closed, and the
  static flag says at every moment whether it is open. \<^verbatim>\<open>cpr_sysexit\<close>, which sends its own last
  message, is no exception. The running flag is cleared exactly by the calls that end the process.
\<close>

theorem service_log_discipline:
  "case service_run ps service_start of (ex, s) \<Rightarrow>
     disciplined False (calls s) \<and> logger s = log_open (calls s) \<and> (running s \<longleftrightarrow> ex = None)"
  using service_run_inv [of service_start ps] by (simp add: log_inv_def service_start_def log_open_def split: prod.splits)

subsection \<open>What reaches the log\<close>

text \<open>
  The messages a trace delivers: the kernel's side of the mask, which lets the priorities through
  whose bit is set.
\<close>

fun delivered :: "int \<Rightarrow> log_call list \<Rightarrow> byte list list" where
  "delivered m0 [] = []"
| "delivered m0 (Set_Mask m # cs) = delivered m cs"
| "delivered m0 (Vsyslog p msg # cs) = (if bit m0 (nat p) then msg # delivered m0 cs else delivered m0 cs)"
| "delivered m0 (c # cs) = delivered m0 cs"

lemma bit_LOG_UPTO: "0 \<le> p \<Longrightarrow> - 1 \<le> l \<Longrightarrow> bit (LOG_UPTO l) (nat p) \<longleftrightarrow> p \<le> l"
proof -
  assume "0 \<le> p" "- 1 \<le> l"
  moreover have "LOG_UPTO l = mask (nat (l + 1))" by (simp add: LOG_UPTO_def mask_eq_exp_minus_1)
  ultimately show ?thesis by (simp add: bit_mask_iff) linarith
qed

lemmas log_levels = LOG_CRIT_def LOG_ERR_def LOG_WARNING_def LOG_NOTICE_def LOG_INFO_def LOG_DEBUG_def

text \<open>
  A message to an open log is delivered exactly when the priority of its level is at most the one
  the verbosity stands for, and at level 3 it is sent twice, once garbled.
\<close>

theorem logger_delivers:
  "delivered 255 (calls (cpr_logger debug v now level garbled stale msg (cpr_openlog v (Some name) facility flags service_start))) =
     (if level = 3 \<and> LOG_NOTICE \<le> log_level v then [garbled] else []) @
     (if log_priority debug level \<noteq> - 1 \<and> log_priority debug level \<le> log_level v then [msg] else [])"
proof -
  have up: "bit (LOG_UPTO (log_level v)) (nat p) \<longleftrightarrow> p \<le> log_level v" if "0 \<le> p" for p
    using that by (intro bit_LOG_UPTO) (simp_all add: log_level_def log_levels)
  have pr: "log_priority debug level = - 1 \<or> 0 \<le> log_priority debug level" by (simp add: log_priority_def log_levels)
  have nt: "0 \<le> LOG_NOTICE" "log_priority debug 3 = LOG_NOTICE" by (simp_all add: log_priority_def log_levels)
  show ?thesis
    using nt(2) up [OF nt(1)] up [of "log_priority debug level"] pr
    by (auto simp: cpr_logger_def cpr_openlog_def cpr_syslog_def emit_def service_start_def Let_def)
qed

text \<open>
  More verbose is less: raising the verbosity from one to two takes the informational messages out
  of the log, and what is printed shrinks with every step of the verbosity.
\<close>

theorem verbosity_not_monotone:
  "delivered 255 (calls (cpr_logger debug 1 now 2 g st msg (cpr_openlog 1 (Some name) fa fl service_start))) = [msg] \<and>
   delivered 255 (calls (cpr_logger debug 2 now 2 g st msg (cpr_openlog 2 (Some name) fa fl service_start))) = [] \<and>
   (cpr_logger debug v now level g st msg service_start = service_start \<longleftrightarrow> level < v)"
proof -
  have bits: "bit (LOG_UPTO 6) (nat 6)" "\<not> bit (LOG_UPTO 5) (nat 6)"
    using bit_LOG_UPTO [of 6 6] bit_LOG_UPTO [of 6 5] by simp_all
  show ?thesis
    using bits
    by (auto simp: cpr_logger_def cpr_openlog_def cpr_syslog_def emit_def service_start_def Let_def log_priority_def log_level_def log_levels)
qed

end
