(* ===== verification/Spec2Isabelle.thy ===== *)
theory Spec2Isabelle
  imports Bitset Memio Pipeline Sync Mempager Strtype Keyfile Bufio Multicast Events System Service
begin

text \<open>
  A verification of libcpr, the C runtime library under \<^verbatim>\<open>src/\<close>. Every source file of the library
  has a theory whose definitions follow its functions one by one and keep their names.

  \<^bold>\<open>The program.\<close> libcpr is a layer of small components. At the bottom are byte order, memory and
  strings; on them build the containers in allocated memory (bit arrays, memory streams, the page
  allocator, typed strings, key files), the components that wrap a descriptor or a socket
  (buffered descriptors, socket lines, addresses, multicast, events), the thread objects with the
  pipeline on top of them, and the deadlines, file scanners and log functions of a service.

  \<^bold>\<open>The store.\<close> \<open>C_Memory\<close> is the memory of C: blocks of bytes, pointers into them, an allocator that
  may refuse any request and leaves arbitrary bytes in what it grants. An access outside a live
  block is the result \<^const>\<open>None\<close>, so a theorem that a call returns \<^term>\<open>Some x\<close> says that it is memory
  safe. Structures whose fields the code reads at other widths, or whose neighbours a stray write
  could reach (typed strings, address structures, the multicast union, reference counts), are bytes
  of the store; the other structures are records. \<open>Cpr_Prelude\<close> has the machine types of the LP64
  target, with the wrap-around of \<^verbatim>\<open>size_t\<close> written out, the character classes of the C locale and
  the shared lemmas and simplification sets.

  \<^bold>\<open>Theories and sources.\<close>
  \<^item> \<open>Endian\<close> (\<^verbatim>\<open>endian.h\<close>): the sixteen accessors. The locale \<open>byte_codec\<close> states their contract once; it is
    interpreted for all eight pairs, and the fields of structures in later theories rest on it.
  \<^item> \<open>Memory\<close> (\<^verbatim>\<open>memory.c\<close>, \<^verbatim>\<open>memory.h\<close>): copying, filling, hexadecimal encoding with its round trip, pointer
    variables, reference counts with their life cycle. The wrappers of \<^verbatim>\<open>fmemopen\<close> are in \<open>System\<close>.
  \<^item> \<open>Bitset\<close> (\<^verbatim>\<open>bitset.c\<close>): bit arrays implement finite sets of offsets; the searches find the least one.
  \<^item> \<open>Strchar\<close> (\<^verbatim>\<open>strchar.c\<close>): bounded string functions, the contract \<open>str_dup\<close> of the copying ones, decimal
    notation, trimming, reversal.
  \<^item> \<open>Memio\<close> (\<^verbatim>\<open>memio.c\<close>): memory streams; every sequence of calls is safe and bytes come back in order.
  \<^item> \<open>Monitor\<close>, \<open>Thread\<close>, \<open>Pipeline\<close> (\<^verbatim>\<open>thread.c\<close>, \<^verbatim>\<open>thread.h\<close>, \<^verbatim>\<open>pipeline.c\<close>): a machine of threads that run the sections
    of functions between \<^verbatim>\<open>mtx_lock\<close>, \<^verbatim>\<open>cnd_wait\<close> and \<^verbatim>\<open>mtx_unlock\<close>, with spurious wakeups and an arbitrary
    scheduler, as a step relation; the semaphore, the wait group, the read/write lock and the
    pipeline are its instances. Invariants are shown for every interleaving, liveness as the absence
    of states in which a thread sleeps and nobody is left to wake it, and where the code has
    such states they are exhibited.
  \<^item> \<open>Sync\<close> (\<^verbatim>\<open>sync.c\<close>): deadlines, at the width of \<^verbatim>\<open>long\<close>, with the clock as an argument.
  \<^item> \<open>Mempager\<close> (\<^verbatim>\<open>mempager.c\<close>): the arena; regions never overlap, and it computes first fit.
  \<^item> \<open>Strtype\<close> (\<^verbatim>\<open>strtype.c\<close>): typed strings of two to 65535 bytes refine texts cut to that capacity.
  \<^item> \<open>Keyfile\<close> (\<^verbatim>\<open>keyfile.c\<close>): sections and keys as linked nodes, the line parser on its 96 byte buffer,
    loading and saving; loading is total while memory lasts, and saving and loading a round trip up to the order of keys.
  \<^item> \<open>Bufio\<close> (\<^verbatim>\<open>bufio.c\<close>): both directions of a buffered descriptor are byte streams under any short
    reads and writes.
  \<^item> \<open>Socket\<close> (\<^verbatim>\<open>socket.c\<close>): the line reader computes what a line editor on lists computes.
  \<^item> \<open>Address\<close> (\<^verbatim>\<open>address.c\<close>): addresses as bytes, their round trip through the texts of the C library, addresses to bind to by
    literal and by interface.
  \<^item> \<open>Multicast\<close> (\<^verbatim>\<open>multicast.c\<close>): the membership requests that reach the kernel.
  \<^item> \<open>Events\<close> (\<^verbatim>\<open>events.c\<close>): calls on an event are runs of an abstract event on a kernel that behaves as
    documented, and its descriptors are owned.
  \<^item> \<open>System\<close> (\<^verbatim>\<open>system.c\<close>): the scanners, the growing line buffer, streams over memory.
  \<^item> \<open>Service\<close> (\<^verbatim>\<open>service.c\<close>): the log is only used while it is open, by the functions that
    end the process too, and which messages it gets.

  The theorems below this header combine components: text addresses with multicast groups, and
  strings opened as streams with the scanner.

  \<^bold>\<open>The outside world.\<close> System calls and library functions that are not part of the repository are
  parameters: functions on a world of arbitrary type, or arguments for their answers. What a theorem
  relies on is a named predicate over the parameter that states its documented behaviour
  (\<open>line_io\<close>, \<open>event_kernel\<close>, \<open>mcast_kernel\<close>, \<open>pton_sizes\<close>, \<open>inet_forms\<close>, \<open>reads_memory\<close> and the like), and the witness of
  the theorem gives a function that satisfies it. A formatted message is the text its format
  expands to; where the source expands it a second time from a used argument list, the second text
  is an argument of its own. Theorems that need an allocation to be granted say so: \<open>hgrant\<close>
  for one request, \<open>grants_all\<close> for all of them.

  \<^bold>\<open>Loops.\<close> Loops over a block or a list are structural or have a termination proof. Three loops of
  the source may not end, because they wait for input or a callback: those of \<^verbatim>\<open>cpr_lgetbuf\<close>,
  \<^verbatim>\<open>cpr_getline\<close> and \<^verbatim>\<open>scan_file\<close>. They take a number of rounds and give \<open>Running\<close> when it is used up.
  \<^verbatim>\<open>cpr_getline\<close> and \<^verbatim>\<open>scan_file\<close> consume at least one byte in each round (\<^verbatim>\<open>scan_file\<close> with a buffer
  of two bytes or more), so more rounds than bytes are enough, which is part of the theorems about
  them. \<^verbatim>\<open>cpr_waitbuf\<close> takes the answers of \<^verbatim>\<open>poll\<close> as a list. That \<^verbatim>\<open>cpr_lgetbuf\<close> can go on for any number of rounds is a theorem too.

  \<^bold>\<open>Not modelled.\<close> Creating and joining threads and the return codes of the \<^verbatim>\<open>mtx_\<close> and \<^verbatim>\<open>cnd_\<close> shims in
  \<^verbatim>\<open>thread.h\<close>, which hand the calls to the operating system. The Windows versions of
  \<^verbatim>\<open>cpr_getbind\<close>, \<^verbatim>\<open>make_multicast\<close> and \<^verbatim>\<open>is_service\<close>, which walk structures of that system's headers, and
  the other places where a function calls a different routine of that system for the same purpose; the Windows versions of \<^verbatim>\<open>cpr_deadline\<close>, \<^verbatim>\<open>make_dir\<close> and \<^verbatim>\<open>getline\<close>
  are modelled. \<^verbatim>\<open>cpr_yield\<close>, \<^verbatim>\<open>thrd_yield\<close> and the cancellation point of \<^verbatim>\<open>is_running\<close> change no state. Data races
  outside the mutexes are limited to the one the source has, the flag of \<^verbatim>\<open>close_pipeline\<close>, and the
  reference counter, whose operations are atomic.
\<close>

section \<open>Properties that span components\<close>




text \<open>
  C25. A group given as text (\<^verbatim>\<open>cpr_setaddr\<close> of \<^verbatim>\<open>address.c\<close>) and joined (\<^verbatim>\<open>join_multicast\<close> of
  \<^verbatim>\<open>multicast.c\<close>) on a socket whose interface is in the membership union: the kernel is asked for the
  address the library reads from the text on that interface, and the socket is a member by it
  exactly when the call succeeds.
\<close>

theorem join_text_group:
  assumes "mcast_kernel sys groups" and "pton_sizes pton" and "addr_parse pton s = Some (f, g)"
    and "hblk h m = Some old" and "length old = 128" and "cstr h from s" and "ptr_block from \<noteq> m"
    and "hblk h b = Some (if f = AF_INET then replicate 4 0 @ i @ replicate 12 0 else replicate 16 0 @ i)" and "length i = 4"
    and "b \<noteq> m" and "0 \<le> so"
  shows "\<exists>h' r w'. cpr_setaddr pton h (Ptr m 0) from port = Some (f, h') \<and>
    join_multicast sys (Ptr b 0) h' so (Ptr m 0) w = Some (r, w') \<and>
    groups w' so = (if r = 0 then insert (g @ i) (groups w so) else groups w so)"
proof -
  let ?h = "put_block h m (sockaddr f port g)"
  have f: "f = AF_INET \<or> f = AF_INET6" "pton f s = Some g" using assms(3) by (auto simp: addr_parse_def split: if_splits)
  have ne: "s \<noteq> []" using assms(3) by (auto simp: addr_parse_def)
  have set: "cpr_setaddr pton h (Ptr m 0) from port = Some (f, ?h)"
    using cpr_setaddr_parses [OF assms(2,4,5,6) ne assms(7), of port] assms(3) by simp
  have m: "hblk ?h m = Some (sockaddr f port g)" by simp
  have b: "hblk ?h b = Some (if f = AF_INET then replicate 4 0 @ i @ replicate 12 0 else replicate 16 0 @ i)"
    using assms(8,10) by simp
  note req = change_multicast_request [OF f(1) m pton_len [OF assms(2) f] assms(11) b assms(9)]
  obtain e w' where e: "mc_setsockopt sys so (if f = AF_INET then IP_ADD_MEMBERSHIP else IPV6_ADD_MEMBERSHIP) (g @ i) w = (e, w')"
    by fastforce
  have "groups w' so = (if e = None then insert (g @ i) (groups w so) else groups w so) \<and> e \<noteq> Some 0"
    using assms(1) [unfolded mcast_kernel_def, rule_format, of so "if f = AF_INET then IP_ADD_MEMBERSHIP else IPV6_ADD_MEMBERSHIP" "g @ i" w] e
    by (auto split: if_splits)
  then show ?thesis using set e by (auto simp: join_multicast_def req split: option.split)
qed

theorem join_text_group_witness:
  "\<exists>h' r w'. cpr_setaddr ten_pton (heap_of [replicate 128 7, [58, 58, 49, 0], replicate 16 0 @ [3, 0, 0, 0]]) (Ptr 0 0) (Ptr 1 0) 80 = Some (AF_INET6, h') \<and>
    join_multicast one_socket (Ptr 2 0) h' 5 (Ptr 0 0) {} = Some (r, w') \<and>
    w' = (if r = 0 then insert ((replicate 15 0 @ [1]) @ [3, 0, 0, 0]) {} else {})"
proof (rule join_text_group [OF one_socket_kernel ten_sizes, of "[58, 58, 49]"])
  show "addr_parse ten_pton [58, 58, 49] = Some (AF_INET6, replicate 15 0 @ [1])"
    by (simp add: addr_parse_def ten_pton_def str_bytes_def char_byte_def)
  show "cstr (heap_of [replicate 128 7, [58, 58, 49, 0], replicate 16 0 @ [3, 0, 0, 0]]) (Ptr 1 0) [58, 58, 49]" by (simp add: load_Ptr)
  show "hblk (heap_of [replicate 128 7, [58, 58, 49, 0], replicate 16 0 @ [3, 0, 0, 0]]) 0 = Some (replicate 128 7)" by simp
qed simp_all

end
